(* ===== verification/KV_Prelude.thy ===== *)
theory KV_Prelude
  imports
    Main
    "HOL-Library.Word"
    "HOL-Library.Finite_Map"
    "HOL-Library.Char_ord"
    "HOL-Library.List_Lexorder"
    "HOL-Library.Multiset"
begin

text \<open>
  Types, library functions and generic lemmas that the component theories share.

  Go strings are byte sequences, modelled by \<^typ>\<open>string\<close>; the order that
  Char_ord and List_Lexorder give it is the bytewise lexicographic order of Go's
  comparison operators on strings. A Go map is a finite map; a read of a missing key gives the zero
  value, written out where the source relies on it. \<open>uint32\<close> and \<open>uint64\<close> are words, so that
  their arithmetic wraps around.

  The functions of Go's standard library that several components call are defined here as that
  library documents them: binary search (\<open>sort.Search\<close>), decimal printing
  (\<open>strconv.Itoa\<close>), big-endian integers (\<open>encoding/binary\<close>), CRC-32 (\<open>hash/crc32\<close>), FNV-1a
  (\<open>hash/fnv\<close>).
\<close>

section \<open>Types\<close>

type_synonym u32 = "32 word"
type_synonym u64 = "64 word"
type_synonym nodeID = string

named_theorems kv_inv "preservation of the components' invariants"
named_theorems kv_eval "equations used to evaluate the model on concrete inputs"

section \<open>Binary search: sort.Search\<close>

function goSearchLoop :: "(nat \<Rightarrow> bool) \<Rightarrow> nat \<Rightarrow> nat \<Rightarrow> nat" where
  "goSearchLoop f i j =
     (if i < j then
        let h = (i + j) div 2
        in if \<not> f h then goSearchLoop f (h + 1) j else goSearchLoop f i h
      else i)"
  by pat_completeness auto
termination
  by (relation "measure (\<lambda>(f, i, j). j - i)") auto

declare goSearchLoop.simps [simp del]

definition goSearch :: "nat \<Rightarrow> (nat \<Rightarrow> bool) \<Rightarrow> nat" where
  "goSearch n f = goSearchLoop f 0 n"

section \<open>Decimal printing: strconv.Itoa on a non-negative number\<close>

definition digitChar :: "nat \<Rightarrow> char" where
  "digitChar d = char_of (48 + d)"

fun itoa :: "nat \<Rightarrow> string" where
  "itoa n = (if n < 10 then [digitChar n] else itoa (n div 10) @ [digitChar (n mod 10)])"

declare itoa.simps [simp del]

section \<open>Big-endian integers: encoding/binary\<close>

text \<open>File contents are strings: a \<^typ>\<open>char\<close> is a byte.\<close>

fun putBE :: "nat \<Rightarrow> nat \<Rightarrow> string" where
  "putBE 0 x = []"
| "putBE (Suc k) x = putBE k (x div 256) @ [char_of (x mod 256)]"

definition getBE :: "string \<Rightarrow> nat" where
  "getBE bs = foldl (\<lambda>acc c. acc * 256 + of_char c) 0 bs"

definition putUint32 :: "u32 \<Rightarrow> string" where
  "putUint32 w = putBE 4 (unat w)"

definition getUint32 :: "string \<Rightarrow> u32" where
  "getUint32 bs = word_of_nat (getBE (take 4 bs))"

definition putUint64 :: "u64 \<Rightarrow> string" where
  "putUint64 w = putBE 8 (unat w)"

definition getUint64 :: "string \<Rightarrow> u64" where
  "getUint64 bs = word_of_nat (getBE (take 8 bs))"

section \<open>CRC-32: hash/crc32 ChecksumIEEE\<close>

primrec crcBits :: "nat \<Rightarrow> u32 \<Rightarrow> u32" where
  "crcBits 0 c = c"
| "crcBits (Suc n) c =
     crcBits n (if bit c 0 then Bit_Operations.xor (drop_bit 1 c) 0xEDB88320 else drop_bit 1 c)"

definition crc32Step :: "u32 \<Rightarrow> char \<Rightarrow> u32" where
  "crc32Step c b = crcBits 8 (Bit_Operations.xor c (word_of_nat (of_char b)))"

definition crc32 :: "string \<Rightarrow> u32" where
  "crc32 s = Bit_Operations.not (foldl crc32Step (- 1) s)"

section \<open>FNV-1a: hash/fnv New32a\<close>

definition fnv32aStep :: "u32 \<Rightarrow> char \<Rightarrow> u32" where
  "fnv32aStep h c = (Bit_Operations.xor h (word_of_nat (of_char c))) * 16777619"

definition fnv32a :: "string \<Rightarrow> u32" where
  "fnv32a s = foldl fnv32aStep 2166136261 s"

section \<open>Lemmas on binary search\<close>

text \<open>
  The loop keeps the invariant that the predicate fails below \<open>i\<close> and holds from \<open>j\<close> on;
  for a predicate that stays true once it is true, the result is the first index where it holds.
\<close>

lemma goSearchLoop_least:
  assumes mono: "\<And>a b. a \<le> b \<Longrightarrow> b < n \<Longrightarrow> f a \<Longrightarrow> f b"
  shows "i \<le> j \<Longrightarrow> j \<le> n \<Longrightarrow> (\<forall>a < i. \<not> f a) \<Longrightarrow> (\<forall>a. j \<le> a \<longrightarrow> a < n \<longrightarrow> f a) \<Longrightarrow>
    goSearchLoop f i j \<le> n \<and> (\<forall>a < goSearchLoop f i j. \<not> f a) \<and>
    (\<forall>a. goSearchLoop f i j \<le> a \<longrightarrow> a < n \<longrightarrow> f a)"
proof (induction "j - i" arbitrary: i j rule: less_induct)
  case less
  show ?case
  proof (cases "i < j")
    case False
    then have "goSearchLoop f i j = i" by (subst goSearchLoop.simps) simp
    with False less.prems show ?thesis by simp
  next
    case True
    define h where "h = (i + j) div 2"
    from True have h: "i \<le> h" "h < j" by (auto simp: h_def)
    show ?thesis
    proof (cases "f h")
      case f: True
      have eq: "goSearchLoop f i j = goSearchLoop f i h"
        using True f by (subst goSearchLoop.simps) (simp add: h_def Let_def)
      have hi: "\<forall>a. h \<le> a \<longrightarrow> a < n \<longrightarrow> f a"
        using mono f by blast
      show ?thesis
        unfolding eq by (rule less.hyps) (use h hi less.prems in auto)
    next
      case f: False
      have eq: "goSearchLoop f i j = goSearchLoop f (h + 1) j"
        using True f by (subst goSearchLoop.simps) (simp add: h_def Let_def)
      have lo: "\<forall>a < h + 1. \<not> f a"
        using mono f h less.prems(2) by (metis less_le_trans less_Suc_eq_le Suc_eq_plus1)
      show ?thesis
        unfolding eq by (rule less.hyps) (use h lo less.prems in auto)
    qed
  qed
qed

lemma goSearch_least:
  assumes "\<And>a b. a \<le> b \<Longrightarrow> b < n \<Longrightarrow> f a \<Longrightarrow> f b"
  shows "goSearch n f \<le> n \<and> (\<forall>a < goSearch n f. \<not> f a) \<and>
    (\<forall>a. goSearch n f \<le> a \<longrightarrow> a < n \<longrightarrow> f a)"
  unfolding goSearch_def by (rule goSearchLoop_least) (use assms in auto)

text \<open>On a sorted list, the search for the first element at least \<open>k\<close> splits it in two.\<close>

lemma goSearch_sorted:
  fixes k :: "'b::linorder"
  assumes "sorted (map g xs)"
  defines "s \<equiv> goSearch (length xs) (\<lambda>i. k \<le> g (xs ! i))"
  shows "s \<le> length xs \<and> (\<forall>i < s. g (xs ! i) < k) \<and>
    (\<forall>i. s \<le> i \<longrightarrow> i < length xs \<longrightarrow> k \<le> g (xs ! i))"
proof -
  have "k \<le> g (xs ! b)" if "a \<le> b" "b < length xs" "k \<le> g (xs ! a)" for a b
  proof -
    from sorted_nth_mono [OF assms(1) that(1)] that(1,2) have "g (xs ! a) \<le> g (xs ! b)" by simp
    with that(3) show ?thesis by (rule order_trans)
  qed
  from goSearch_least [of "length xs" "\<lambda>i. k \<le> g (xs ! i)", OF this]
  show ?thesis unfolding s_def not_le by simp
qed

section \<open>Lemmas on decimal printing\<close>

lemma digitChar_inj: "a < 10 \<Longrightarrow> b < 10 \<Longrightarrow> digitChar a = digitChar b \<Longrightarrow> a = b"
proof -
  assume "a < 10" "b < 10" "digitChar a = digitChar b"
  then have "of_char (digitChar a) = (of_char (digitChar b) :: nat)" by simp
  with \<open>a < 10\<close> \<open>b < 10\<close> show "a = b" by (simp add: digitChar_def of_char_of)
qed

lemma itoa_nonempty [simp]: "itoa n \<noteq> []" "[] \<noteq> itoa n"
  by (subst itoa.simps, simp)+

lemma itoa_inj: "itoa a = itoa b \<Longrightarrow> a = b"
proof (induction a arbitrary: b rule: itoa.induct)
  case (1 a)
  show ?case
  proof (cases "a < 10")
    case a: True
    then have ia: "itoa a = [digitChar a]" by (subst itoa.simps) simp
    show ?thesis
    proof (cases "b < 10")
      case True
      with ia "1.prems" a show ?thesis
        by (subst (asm) (2) itoa.simps) (simp add: digitChar_inj)
    next
      case False
      with ia "1.prems" show ?thesis
        by (subst (asm) (2) itoa.simps) simp
    qed
  next
    case a: False
    then have ia: "itoa a = itoa (a div 10) @ [digitChar (a mod 10)]" by (subst itoa.simps) simp
    show ?thesis
    proof (cases "b < 10")
      case True
      then have "itoa b = [digitChar b]" by (subst itoa.simps) simp
      with ia "1.prems" show ?thesis by simp
    next
      case False
      then have ib: "itoa b = itoa (b div 10) @ [digitChar (b mod 10)]" by (subst itoa.simps) simp
      from ia ib "1.prems" have "a div 10 = b div 10" and "a mod 10 = b mod 10"
        using "1.IH" [OF a] by (auto intro: digitChar_inj)
      then show ?thesis by (metis div_mult_mod_eq)
    qed
  qed
qed

section \<open>Lemmas on big-endian integers\<close>

lemma length_putBE [simp]: "length (putBE k x) = k"
  by (induction k arbitrary: x) simp_all

lemma getBE_putBE: "getBE (putBE k x) = x mod 256 ^ k"
proof (induction k arbitrary: x)
  case (Suc k)
  have "getBE (putBE (Suc k) x) = getBE (putBE k (x div 256)) * 256 + x mod 256"
    by (simp add: getBE_def)
  also have "\<dots> = x mod 256 ^ Suc k"
    by (simp add: Suc mod_mult2_eq [of x 256 "256 ^ k"])
  finally show ?case .
qed (simp add: getBE_def)

lemma getUint32_put [simp]: "getUint32 (putUint32 w @ s) = w"
proof -
  have "unat w < 2 ^ 32" using unsigned_less [of w] by simp
  then show ?thesis by (simp add: getUint32_def putUint32_def getBE_putBE)
qed

lemma getUint64_put [simp]: "getUint64 (putUint64 w @ s) = w"
proof -
  have "unat w < 2 ^ 64" using unsigned_less [of w] by simp
  then show ?thesis by (simp add: getUint64_def putUint64_def getBE_putBE)
qed

lemma length_putUint32 [simp]: "length (putUint32 w) = 4"
  by (simp add: putUint32_def)

lemma length_putUint64 [simp]: "length (putUint64 w) = 8"
  by (simp add: putUint64_def)

lemma crcBits_numeral [kv_eval]:
  "crcBits (numeral n) c = crcBits (pred_numeral n)
     (if bit c 0 then Bit_Operations.xor (drop_bit 1 c) 0xEDB88320 else drop_bit 1 c)"
  by (simp add: numeral_eq_Suc)

text \<open>The check value that the catalogues of CRC algorithms give for CRC-32.\<close>

lemma crc32_check_value: "crc32 ''123456789'' = 0xCBF43926"
  by (simp add: crc32_def crc32Step_def crcBits_numeral)

section \<open>Generic lemmas on lists\<close>

lemma sorted_strict_filter [simp]: "sorted_wrt R xs \<Longrightarrow> sorted_wrt R (filter P xs)"
  by (rule sorted_wrt_filter)

lemma takeWhile_filter_sorted:
  fixes key :: "'k::linorder"
  shows "sorted (map g ys) \<Longrightarrow> \<forall>y \<in> set ys. key \<le> g y \<Longrightarrow>
    takeWhile (\<lambda>y. g y = key) ys = filter (\<lambda>y. g y = key) ys"
proof (induction ys)
  case (Cons y ys)
  show ?case
  proof (cases "g y = key")
    case False
    with Cons.prems have "\<forall>z \<in> set ys. g z \<noteq> key" by force
    with False show ?thesis by (simp add: filter_empty_conv)
  qed (use Cons in simp)
qed simp

text \<open>A binary search for a key, then a scan over the elements equal to it.\<close>

lemma goSearch_run:
  fixes key :: "'k::linorder"
  assumes "sorted (map g xs)"
  shows "takeWhile (\<lambda>x. g x = key) (drop (goSearch (length xs) (\<lambda>i. key \<le> g (xs ! i))) xs) =
    filter (\<lambda>x. g x = key) xs"
proof -
  let ?k = "goSearch (length xs) (\<lambda>i. key \<le> g (xs ! i))"
  from goSearch_sorted [of g xs key] assms have k: "?k \<le> length xs" "\<forall>i < ?k. g (xs ! i) < key"
    "\<forall>i. ?k \<le> i \<longrightarrow> i < length xs \<longrightarrow> key \<le> g (xs ! i)" by simp_all
  have lo: "\<forall>x \<in> set (take ?k xs). g x \<noteq> key"
  proof
    fix x assume "x \<in> set (take ?k xs)"
    then obtain i where "i < ?k" "x = xs ! i" using k(1) by (auto simp: in_set_conv_nth)
    with k(2) have "g x < key" by blast
    then show "g x \<noteq> key" by simp
  qed
  have hi: "\<forall>x \<in> set (drop ?k xs). key \<le> g x"
  proof
    fix x assume "x \<in> set (drop ?k xs)"
    then obtain i where "i < length xs - ?k" "x = xs ! (?k + i)" using k(1) by (auto simp: in_set_conv_nth)
    moreover from this(1) have "?k + i < length xs" by simp
    ultimately show "key \<le> g x" using k(3) le_add1 by blast
  qed
  have "filter (\<lambda>x. g x = key) xs = filter (\<lambda>x. g x = key) (take ?k xs) @ filter (\<lambda>x. g x = key) (drop ?k xs)"
    by (simp flip: filter_append)
  also have "filter (\<lambda>x. g x = key) (take ?k xs) = []" using lo by (simp add: filter_empty_conv)
  also have "filter (\<lambda>x. g x = key) (drop ?k xs) = takeWhile (\<lambda>x. g x = key) (drop ?k xs)"
  proof -
    have "sorted (map g (drop ?k xs))" using sorted_wrt_drop [OF assms, of ?k] by (simp add: drop_map)
    from takeWhile_filter_sorted [OF this hi] show ?thesis by simp
  qed
  finally show ?thesis by simp
qed

end
