(* ===== verification/HashRing.thy ===== *)
theory HashRing
  imports KV_Prelude
begin

text \<open>
  Consistent hashing with virtual nodes (src/internal/hashring). A ring is its sorted list of
  positions, the map from a position to the node that owns it, and the number of virtual nodes per
  physical node. The read-write mutex protects single calls and is not part of the model.

  The lemmas first describe a ring by the set of virtual nodes placed on it, whatever the order
  they were placed in (each position belongs to the least id that hashes to it), then the walk of
  \<open>GetPreferenceList\<close> as the owners of the positions in clockwise order without repetitions.
\<close>

section \<open>Definitions\<close>

record HashRing =
  ring :: "u32 list"
  nodeMap :: "(u32, nodeID) fmap"
  virtualNodesPerPhysical :: nat

datatype ringError = EmptyMemberID | DuplicateMemberID nodeID

definition NewHashRing :: "nat \<Rightarrow> HashRing" where
  "NewHashRing v = \<lparr>ring = [], nodeMap = fmempty, virtualNodesPerPhysical = v\<rparr>"

definition hashKey :: "string \<Rightarrow> u32" where
  "hashKey key = fnv32a key"

definition vnodePos :: "nodeID \<Rightarrow> nat \<Rightarrow> u32" where
  "vnodePos node i = hashKey (node @ ''-'' @ itoa i)"

definition placeVnode :: "nodeID \<Rightarrow> HashRing \<Rightarrow> nat \<Rightarrow> HashRing" where
  "placeVnode node hr i =
     (let pos = vnodePos node i
      in case fmlookup (nodeMap hr) pos of
           Some existing \<Rightarrow>
             if node < existing then hr\<lparr>nodeMap := fmupd pos node (nodeMap hr)\<rparr> else hr
         | None \<Rightarrow> hr\<lparr>nodeMap := fmupd pos node (nodeMap hr), ring := ring hr @ [pos]\<rparr>)"

definition place :: "HashRing \<Rightarrow> nodeID \<Rightarrow> HashRing" where
  "place hr node = foldl (placeVnode node) hr [0..<virtualNodesPerPhysical hr]"

definition sortRing :: "HashRing \<Rightarrow> HashRing" where
  "sortRing hr = hr\<lparr>ring := sort (ring hr)\<rparr>"

fun checkMemberIDs :: "nodeID list \<Rightarrow> nodeID list \<Rightarrow> ringError option" where
  "checkMemberIDs seen [] = None"
| "checkMemberIDs seen (memberID # ids) =
     (if memberID = [] then Some EmptyMemberID
      else if memberID \<in> set seen then Some (DuplicateMemberID memberID)
      else checkMemberIDs (memberID # seen) ids)"

definition NewHashRingFromMembers :: "nat \<Rightarrow> nodeID list \<Rightarrow> ringError + HashRing" where
  "NewHashRingFromMembers v ids =
     (case checkMemberIDs [] ids of
        Some e \<Rightarrow> Inl e
      | None \<Rightarrow> Inr (sortRing (foldl place (NewHashRing v) ids)))"

definition AddNode :: "HashRing \<Rightarrow> nodeID \<Rightarrow> HashRing" where
  "AddNode hr node = sortRing (place hr node)"

text \<open>Go's \<open>hr.nodeMap[pos]\<close>: the empty string for a position without an owner.\<close>

definition ownerAt :: "HashRing \<Rightarrow> u32 \<Rightarrow> nodeID" where
  "ownerAt hr pos = (case fmlookup (nodeMap hr) pos of None \<Rightarrow> [] | Some n \<Rightarrow> n)"

text \<open>
  The walk over the steps \<open>i\<close>, with the preference list so far; the map \<open>seen\<close> of the source has
  exactly the list's elements as keys.
\<close>

fun preferenceWalk :: "HashRing \<Rightarrow> nat \<Rightarrow> nat \<Rightarrow> nat list \<Rightarrow> nodeID list \<Rightarrow> nodeID list" where
  "preferenceWalk hr index rf [] preferenceList = preferenceList"
| "preferenceWalk hr index rf (i # is) preferenceList =
     (let currentIdx = (index + i) mod length (ring hr);
          pos = ring hr ! currentIdx;
          node = ownerAt hr pos
      in if node \<notin> set preferenceList then
           let preferenceList' = preferenceList @ [node]
           in if length preferenceList' = rf then preferenceList'
              else preferenceWalk hr index rf is preferenceList'
         else preferenceWalk hr index rf is preferenceList)"

definition GetPreferenceList :: "HashRing \<Rightarrow> string \<Rightarrow> nat \<Rightarrow> nodeID list" where
  "GetPreferenceList hr key rf =
     (if length (ring hr) = 0 then []
      else
        let targetHash = hashKey key;
            found = goSearch (length (ring hr)) (\<lambda>i. targetHash \<le> ring hr ! i);
            index = (if found \<ge> length (ring hr) then 0 else found)
        in preferenceWalk hr index rf [0..<length (ring hr)] [])"

section \<open>A ring as the set of its virtual nodes\<close>

text \<open>
  \<open>ringOf hr C\<close>: the ring holds exactly the virtual nodes \<open>C\<close> (pairs of a position and the id
  placed there), each position belongs to the least of its ids, and no position is listed twice.
\<close>

definition ringOf :: "HashRing \<Rightarrow> (u32 \<times> nodeID) set \<Rightarrow> bool" where
  "ringOf hr C \<longleftrightarrow> finite C \<and> distinct (ring hr) \<and> set (ring hr) = fst ` C \<and>
     (\<forall>p. fmlookup (nodeMap hr) p =
        (if p \<in> fst ` C then Some (Min {n. (p, n) \<in> C}) else None))"

definition vnodes :: "nat \<Rightarrow> nodeID set \<Rightarrow> (u32 \<times> nodeID) set" where
  "vnodes v ids = {(vnodePos n i, n) | n i. n \<in> ids \<and> i < v}"

lemma fst_vnodes: "fst ` vnodes v ids = {vnodePos n i | n i. n \<in> ids \<and> i < v}"
  by (force simp: vnodes_def)

lemma ringOf_New: "ringOf (NewHashRing v) {}"
  by (simp add: ringOf_def NewHashRing_def)

lemma finite_at: "finite C \<Longrightarrow> finite {n. (p, n) \<in> C}"
  by (rule finite_subset [of _ "snd ` C"]) force+

lemma Min_insert_at:
  assumes "finite C" "p \<in> fst ` C"
  shows "Min {n. n = m \<or> (p, n) \<in> C} = min m (Min {n. (p, n) \<in> C})"
proof -
  have "{n. n = m \<or> (p, n) \<in> C} = insert m {n. (p, n) \<in> C}" by auto
  moreover have "{n. (p, n) \<in> C} \<noteq> {}" using assms(2) by force
  ultimately show ?thesis using finite_at [OF assms(1)] by simp
qed

lemma at_new: "p \<notin> fst ` C \<Longrightarrow> {n. n = m \<or> (p, n) \<in> C} = {m}"
  by force

lemma ringOf_placeVnode:
  assumes "ringOf hr C"
  shows "ringOf (placeVnode node hr i) (insert (vnodePos node i, node) C)"
proof (cases "vnodePos node i \<in> fst ` C")
  case True
  let ?p = "vnodePos node i" and ?m = "Min {n. (vnodePos node i, n) \<in> C}"
  have fin: "finite C" using assms by (simp add: ringOf_def)
  have look: "fmlookup (nodeMap hr) ?p = Some ?m" using assms True by (simp add: ringOf_def)
  have ring: "ring (placeVnode node hr i) = ring hr"
    using look by (simp add: placeVnode_def Let_def)
  have map: "fmlookup (nodeMap (placeVnode node hr i)) q =
      (if q = ?p then Some (min node ?m) else fmlookup (nodeMap hr) q)" for q
    using look by (auto simp: placeVnode_def Let_def min_def)
  show ?thesis
    using assms True unfolding ringOf_def ring map
    by (auto simp: Min_insert_at [OF fin True] insert_absorb)
next
  case False
  let ?p = "vnodePos node i"
  have look: "fmlookup (nodeMap hr) ?p = None" using assms False by (simp add: ringOf_def)
  have ring: "ring (placeVnode node hr i) = ring hr @ [?p]"
    using look by (simp add: placeVnode_def Let_def)
  have map: "fmlookup (nodeMap (placeVnode node hr i)) q =
      (if q = ?p then Some node else fmlookup (nodeMap hr) q)" for q
    using look by (auto simp: placeVnode_def Let_def)
  show ?thesis
    using assms False unfolding ringOf_def ring map
    by (auto simp: at_new [OF False])
qed

lemma vnodesPerPhysical_placeVnode [simp]:
  "virtualNodesPerPhysical (placeVnode node hr i) = virtualNodesPerPhysical hr"
  by (simp add: placeVnode_def Let_def split: option.split)

lemma vnodesPerPhysical_foldl [simp]:
  "virtualNodesPerPhysical (foldl (placeVnode node) hr is) = virtualNodesPerPhysical hr"
  by (induction "is" arbitrary: hr) auto

lemma vnodesPerPhysical_place [simp]:
  "virtualNodesPerPhysical (place hr node) = virtualNodesPerPhysical hr"
  by (simp add: place_def)

lemma ringOf_foldl_placeVnode:
  "ringOf hr C \<Longrightarrow>
    ringOf (foldl (placeVnode node) hr is) ((\<lambda>i. (vnodePos node i, node)) ` set is \<union> C)"
proof (induction "is" arbitrary: hr C)
  case (Cons i "is")
  from Cons.IH [OF ringOf_placeVnode [OF Cons.prems]] show ?case by (simp add: insert_commute)
qed simp

lemma ringOf_place:
  assumes "ringOf hr (vnodes v ids)" "virtualNodesPerPhysical hr = v"
  shows "ringOf (place hr node) (vnodes v (insert node ids))"
proof -
  have "(\<lambda>i. (vnodePos node i, node)) ` set [0..<v] \<union> vnodes v ids = vnodes v (insert node ids)"
    by (auto simp: vnodes_def)
  with ringOf_foldl_placeVnode [OF assms(1), of node "[0..<v]"] assms(2) show ?thesis
    by (simp add: place_def)
qed

lemma ringOf_foldl_place:
  "ringOf hr (vnodes v ids) \<Longrightarrow> virtualNodesPerPhysical hr = v \<Longrightarrow>
    ringOf (foldl place hr ns) (vnodes v (set ns \<union> ids)) \<and>
    virtualNodesPerPhysical (foldl place hr ns) = v"
proof (induction ns arbitrary: hr ids)
  case (Cons n ns)
  from ringOf_place [OF Cons.prems] Cons.prems(2) Cons.IH [of "place hr n" "insert n ids"]
  show ?case by simp
qed simp

lemma ringOf_sortRing: "ringOf (sortRing hr) C \<longleftrightarrow> ringOf hr C"
  by (simp add: ringOf_def sortRing_def)

lemma vnodes_empty [simp]: "vnodes v {} = {}"
  by (simp add: vnodes_def)

text \<open>A sorted ring is determined by its virtual nodes.\<close>

lemma ringOf_unique:
  assumes "ringOf hr C" "ringOf hr' C" "sorted (ring hr)" "sorted (ring hr')"
    "virtualNodesPerPhysical hr = virtualNodesPerPhysical hr'"
  shows "hr = hr'"
proof -
  have "ring hr = ring hr'"
    using assms(1-4) by (auto simp: ringOf_def intro: sorted_distinct_set_unique)
  moreover have "nodeMap hr = nodeMap hr'"
    using assms(1,2) by (auto simp: ringOf_def intro: fmap_ext)
  ultimately show ?thesis using assms(5) by simp
qed

lemma checkMemberIDs_None:
  "checkMemberIDs seen ids = None \<longleftrightarrow> [] \<notin> set ids \<and> distinct ids \<and> set seen \<inter> set ids = {}"
  by (induction ids arbitrary: seen) auto

lemma NewHashRingFromMembers_ok:
  "NewHashRingFromMembers v ids = Inr hr \<longleftrightarrow>
    [] \<notin> set ids \<and> distinct ids \<and> hr = sortRing (foldl place (NewHashRing v) ids)"
proof (cases "checkMemberIDs [] ids")
  case None
  then show ?thesis
    using checkMemberIDs_None [of "[]" ids] by (auto simp: NewHashRingFromMembers_def)
next
  case (Some e)
  then show ?thesis
    using checkMemberIDs_None [of "[]" ids] by (auto simp: NewHashRingFromMembers_def)
qed

lemma ringOf_members:
  assumes "NewHashRingFromMembers v ids = Inr hr"
  shows "ringOf hr (vnodes v (set ids))" "sorted (ring hr)" "virtualNodesPerPhysical hr = v"
  using assms ringOf_foldl_place [of "NewHashRing v" v "{}" ids]
  by (auto simp: NewHashRingFromMembers_ok ringOf_sortRing ringOf_New)
    (auto simp: sortRing_def NewHashRing_def)

lemma AddNode_ringOf:
  assumes "ringOf hr (vnodes v ids)" "virtualNodesPerPhysical hr = v"
  shows "ringOf (AddNode hr n) (vnodes v (insert n ids))" "sorted (ring (AddNode hr n))"
    "virtualNodesPerPhysical (AddNode hr n) = v"
  using ringOf_place [OF assms, of n] assms(2)
  by (auto simp: AddNode_def ringOf_sortRing) (auto simp: sortRing_def)

lemma foldl_AddNode_ringOf:
  "ringOf hr (vnodes v ids) \<Longrightarrow> sorted (ring hr) \<Longrightarrow> virtualNodesPerPhysical hr = v \<Longrightarrow>
    ringOf (foldl AddNode hr ns) (vnodes v (set ns \<union> ids)) \<and> sorted (ring (foldl AddNode hr ns)) \<and>
    virtualNodesPerPhysical (foldl AddNode hr ns) = v"
proof (induction ns arbitrary: hr ids)
  case (Cons n ns)
  from AddNode_ringOf [OF Cons.prems(1,3), of n] Cons.IH [of "AddNode hr n" "insert n ids"]
  show ?case by simp
qed simp

section \<open>The walk as the clockwise sequence of owners\<close>

definition clockwise :: "HashRing \<Rightarrow> u32 \<Rightarrow> u32 list" where
  "clockwise hr t = filter (\<lambda>p. t \<le> p) (ring hr) @ filter (\<lambda>p. p < t) (ring hr)"

definition nub :: "'a list \<Rightarrow> 'a list \<Rightarrow> 'a list" where
  "nub acc xs = foldl (\<lambda>acc x. if x \<in> set acc then acc else acc @ [x]) acc xs"

lemma nub_Nil [simp]: "nub acc [] = acc"
  by (simp add: nub_def)

lemma nub_Cons [simp]: "nub acc (x # xs) = nub (if x \<in> set acc then acc else acc @ [x]) xs"
  by (simp add: nub_def)

lemma nub_prefix: "\<exists>ys. nub acc xs = acc @ ys"
proof (induction xs arbitrary: acc)
  case (Cons x xs)
  from Cons.IH [of "acc @ [x]"] Cons.IH [of acc] show ?case by auto
qed simp

lemma set_nub [simp]: "set (nub acc xs) = set acc \<union> set xs"
  by (induction xs arbitrary: acc) auto

lemma distinct_nub: "distinct acc \<Longrightarrow> distinct (nub acc xs)"
  by (induction xs arbitrary: acc) auto

lemma filter_nub: "filter P (nub acc xs) = nub (filter P acc) (filter P xs)"
  by (induction xs arbitrary: acc) auto

lemma preferenceWalk_nub:
  "length pl < rf \<Longrightarrow>
    preferenceWalk hr index rf is pl =
      take rf (nub pl (map (\<lambda>i. ownerAt hr (ring hr ! ((index + i) mod length (ring hr)))) is))"
proof (induction "is" arbitrary: pl)
  case Nil
  then show ?case by simp
next
  case (Cons i "is")
  define node where "node = ownerAt hr (ring hr ! ((index + i) mod length (ring hr)))"
  let ?f = "\<lambda>i. ownerAt hr (ring hr ! ((index + i) mod length (ring hr)))"
  consider (seen) "node \<in> set pl" | (full) "node \<notin> set pl" "length pl + 1 = rf"
    | (new) "node \<notin> set pl" "length pl + 1 < rf"
    using Cons.prems by linarith
  then show ?case
  proof cases
    case seen
    with Cons.IH [OF Cons.prems] show ?thesis by (simp add: Let_def node_def [symmetric])
  next
    case full
    obtain ys where "nub (pl @ [node]) (map ?f is) = (pl @ [node]) @ ys"
      using nub_prefix by blast
    with full show ?thesis by (auto simp: Let_def node_def [symmetric])
  next
    case new
    with Cons.IH [of "pl @ [node]"] show ?thesis by (simp add: Let_def node_def [symmetric])
  qed
qed

lemma sorted_split:
  fixes t :: "'a::linorder"
  assumes "sorted xs" "k \<le> length xs" "\<forall>i < k. xs ! i < t"
    "\<forall>i. k \<le> i \<longrightarrow> i < length xs \<longrightarrow> t \<le> xs ! i"
  shows "filter (\<lambda>p. t \<le> p) xs = drop k xs" "filter (\<lambda>p. p < t) xs = take k xs"
proof -
  have lo: "\<forall>p \<in> set (take k xs). p < t" and hi: "\<forall>p \<in> set (drop k xs). t \<le> p"
    using assms(2-4) by (auto simp: in_set_conv_nth)
  have "filter P xs = filter P (take k xs) @ filter P (drop k xs)" for P
    by (metis append_take_drop_id filter_append)
  with lo hi show "filter (\<lambda>p. t \<le> p) xs = drop k xs" "filter (\<lambda>p. p < t) xs = take k xs"
    by (auto simp: filter_id_conv filter_empty_conv not_le not_less)
qed

lemma map_mod_rotate:
  "map (\<lambda>i. xs ! ((m + i) mod length xs)) [0..<length xs] = rotate m xs"
  by (rule nth_equalityI) (auto simp: nth_rotate)

lemma clockwise_rotate:
  fixes t
  assumes "sorted (ring hr)" "ring hr \<noteq> []"
  defines "found \<equiv> goSearch (length (ring hr)) (\<lambda>i. t \<le> ring hr ! i)"
  shows "rotate (if found \<ge> length (ring hr) then 0 else found) (ring hr) = clockwise hr t"
proof -
  from goSearch_sorted [of "\<lambda>x. x" "ring hr" t] assms(1)
  have found: "found \<le> length (ring hr)" "\<forall>i < found. ring hr ! i < t"
    "\<forall>i. found \<le> i \<longrightarrow> i < length (ring hr) \<longrightarrow> t \<le> ring hr ! i"
    by (simp_all add: found_def)
  show ?thesis
  proof (cases "found < length (ring hr)")
    case True
    then show ?thesis
      using sorted_split [OF assms(1) found] by (simp add: clockwise_def rotate_drop_take)
  next
    case False
    with found(1) have "found = length (ring hr)" by simp
    with sorted_split [OF assms(1) found] show ?thesis by (simp add: clockwise_def)
  qed
qed

lemma GetPreferenceList_nub:
  assumes "sorted (ring hr)" "0 < rf"
  shows "GetPreferenceList hr key rf =
    take rf (nub [] (map (ownerAt hr) (clockwise hr (hashKey key))))"
proof (cases "ring hr = []")
  case True
  then show ?thesis by (simp add: GetPreferenceList_def clockwise_def)
next
  case False
  define t where "t = hashKey key"
  define found where "found = goSearch (length (ring hr)) (\<lambda>i. t \<le> ring hr ! i)"
  define index where "index = (if found \<ge> length (ring hr) then 0 else found)"
  have "map (\<lambda>i. ownerAt hr (ring hr ! ((index + i) mod length (ring hr)))) [0..<length (ring hr)]
      = map (ownerAt hr) (rotate index (ring hr))"
    by (simp only: map_mod_rotate [symmetric] map_map comp_def)
  also have "rotate index (ring hr) = clockwise hr t"
    unfolding index_def found_def by (rule clockwise_rotate [OF assms(1) False])
  finally have w: "preferenceWalk hr index rf [0..<length (ring hr)] [] =
      take rf (nub [] (map (ownerAt hr) (clockwise hr t)))"
    using assms(2) by (simp add: preferenceWalk_nub)
  have "GetPreferenceList hr key rf = preferenceWalk hr index rf [0..<length (ring hr)] []"
    using False unfolding GetPreferenceList_def Let_def index_def found_def t_def by simp
  with w show ?thesis by (simp add: t_def)
qed

lemma ownerAt_ringOf:
  assumes "ringOf hr C" "p \<in> set (ring hr)"
  shows "(p, ownerAt hr p) \<in> C"
proof -
  have "{n. (p, n) \<in> C} \<noteq> {}" "finite {n. (p, n) \<in> C}"
    using assms finite_at by (force simp: ringOf_def)+
  then have "Min {n. (p, n) \<in> C} \<in> {n. (p, n) \<in> C}" by (rule Min_in [rotated])
  with assms show ?thesis by (simp add: ownerAt_def ringOf_def)
qed

lemma set_clockwise [simp]: "set (clockwise hr t) = set (ring hr)"
  by (auto simp: clockwise_def)

lemma ownerAt_members:
  assumes "NewHashRingFromMembers v ids = Inr hr" "p \<in> set (ring hr)"
  shows "ownerAt hr p \<in> set ids"
  using ownerAt_ringOf [OF ringOf_members(1) [OF assms(1)] assms(2)] by (auto simp: vnodes_def)

lemma filter_take_distinct:
  "distinct xs \<Longrightarrow>
    filter (\<lambda>x. x \<noteq> m) (take n xs) =
      take (if m \<in> set (take n xs) then n - 1 else n) (filter (\<lambda>x. x \<noteq> m) xs)"
proof (induction xs arbitrary: n)
  case (Cons x xs)
  show ?case
  proof (cases n)
    case (Suc k)
    show ?thesis
    proof (cases "x = m")
      case True
      with Cons.prems have "filter (\<lambda>y. y \<noteq> m) xs = xs" "m \<notin> set (take k xs)"
        by (auto simp: filter_id_conv dest: in_set_takeD)
      with True Suc Cons.IH [of k] Cons.prems show ?thesis by simp
    next
      case False
      have "0 < k" if "m \<in> set (take k xs)" using that by (cases k) auto
      with False Suc Cons.IH [of k] Cons.prems show ?thesis by (cases k) auto
    qed
  qed simp
qed simp

text \<open>What one more member changes, when none of its positions is taken: nothing but its own.\<close>

lemma ring_one_more:
  assumes old: "NewHashRingFromMembers v ids = Inr hr"
    and new: "NewHashRingFromMembers v (m # ids) = Inr hr'"
    and free: "\<forall>i < v. vnodePos m i \<notin> set (ring hr)"
  defines "M \<equiv> {vnodePos m i | i. i < v}"
  shows "filter (\<lambda>p. p \<notin> M) (ring hr') = ring hr"
    and "p \<in> M \<Longrightarrow> ownerAt hr' p = m"
    and "p \<in> set (ring hr) \<Longrightarrow> ownerAt hr' p = ownerAt hr p"
proof -
  note o = ringOf_members [OF old] and n = ringOf_members [OF new]
  have ring: "set (ring hr) = fst ` vnodes v (set ids)" "distinct (ring hr)"
    "set (ring hr') = fst ` vnodes v (insert m (set ids))" "distinct (ring hr')"
    using o(1) n(1) by (simp_all add: ringOf_def)
  have M: "set (ring hr') = set (ring hr) \<union> M" "set (ring hr) \<inter> M = {}"
    using free by (auto simp: ring(1,3) fst_vnodes M_def)
  then have "set (filter (\<lambda>p. p \<notin> M) (ring hr')) = set (ring hr)" by auto
  with ring o(2) n(2) show "filter (\<lambda>p. p \<notin> M) (ring hr') = ring hr"
    by (intro sorted_distinct_set_unique) (auto intro: sorted_wrt_filter)
  have at: "fmlookup (nodeMap hr') q = Some (Min {x. (q, x) \<in> vnodes v (insert m (set ids))})"
    if "q \<in> set (ring hr')" for q
    using n(1) that by (simp add: ringOf_def)
  show "ownerAt hr' p = m" if "p \<in> M"
  proof -
    have "\<forall>n i. n \<in> set ids \<longrightarrow> i < v \<longrightarrow> p \<noteq> vnodePos n i"
      using M(2) that ring(1) by (auto simp: fst_vnodes)
    then have "{x. (p, x) \<in> vnodes v (insert m (set ids))} = {m}"
      using that by (auto simp: vnodes_def M_def)
    with at [of p] M(1) that show ?thesis by (simp add: ownerAt_def)
  qed
  show "ownerAt hr' p = ownerAt hr p" if "p \<in> set (ring hr)"
  proof -
    have "p \<notin> M" using M(2) that by blast
    then have "{x. (p, x) \<in> vnodes v (insert m (set ids))} = {x. (p, x) \<in> vnodes v (set ids)}"
      by (auto simp: vnodes_def M_def)
    with at [of p] M(1) that o(1) ring(1) show ?thesis by (simp add: ownerAt_def ringOf_def)
  qed
qed

section \<open>Properties\<close>

text \<open>
  C22: The ring depends on the set of members only: every order of the ids builds the same ring, and
  it is the ring that adding the members one at a time builds. All nodes of a cluster that agree on
  the members therefore agree on every preference list.
\<close>

theorem ring_order_independent:
  assumes "NewHashRingFromMembers v ids = Inr hr" "mset ids' = mset ids"
  shows "NewHashRingFromMembers v ids' = Inr hr \<and> hr = foldl AddNode (NewHashRing v) ids'"
proof -
  have same: "set ids' = set ids" "distinct ids' = distinct ids"
    using assms(2) by (auto dest: mset_eq_setD mset_eq_imp_distinct_iff)
  with assms(1) obtain hr' where hr': "NewHashRingFromMembers v ids' = Inr hr'"
    by (simp add: NewHashRingFromMembers_ok)
  have "hr' = hr"
    using ringOf_members [OF assms(1)] ringOf_members [OF hr'] same(1)
    by (auto intro: ringOf_unique)
  moreover have "hr' = foldl AddNode (NewHashRing v) ids'"
    using ringOf_members [OF hr'] foldl_AddNode_ringOf [of "NewHashRing v" v "{}" ids']
    by (intro ringOf_unique [of _ "vnodes v (set ids')"])
      (auto simp: ringOf_New, auto simp: NewHashRing_def)
  ultimately show ?thesis using hr' by simp
qed

theorem ring_order_independent_witness:
  "\<exists>hr. NewHashRingFromMembers 2 [''b'', ''a''] = Inr hr \<and>
     NewHashRingFromMembers 2 [''a'', ''b''] = Inr hr \<and>
     hr = foldl AddNode (NewHashRing 2) [''a'', ''b'']"
proof -
  have ok: "NewHashRingFromMembers 2 [''b'', ''a''] =
      Inr (sortRing (foldl place (NewHashRing 2) [''b'', ''a'']))"
    by (simp add: NewHashRingFromMembers_ok)
  from ring_order_independent [OF ok, of "[''a'', ''b'']"] ok show ?thesis by auto
qed

text \<open>
  On a ring built from a membership the preference list for any key names members only, none of
  them twice, and holds \<open>rf\<close> nodes, or every node that owns a position when they are fewer.
\<close>

theorem preference_list_shape:
  assumes "NewHashRingFromMembers v ids = Inr hr" "0 < rf"
  shows "distinct (GetPreferenceList hr key rf) \<and> set (GetPreferenceList hr key rf) \<subseteq> set ids \<and>
    length (GetPreferenceList hr key rf) = min rf (card (ownerAt hr ` set (ring hr)))"
proof -
  let ?ns = "nub [] (map (ownerAt hr) (clockwise hr (hashKey key)))"
  have pl: "GetPreferenceList hr key rf = take rf ?ns"
    by (rule GetPreferenceList_nub [OF ringOf_members(2) [OF assms(1)] assms(2)])
  have ns: "distinct ?ns" "set ?ns = ownerAt hr ` set (ring hr)" by (simp_all add: distinct_nub)
  then have "length ?ns = card (ownerAt hr ` set (ring hr))" by (metis distinct_card)
  moreover have "set (take rf ?ns) \<subseteq> set ids"
    using ownerAt_members [OF assms(1)] by (force simp: ns(2) dest!: in_set_takeD)
  ultimately show ?thesis using ns(1) unfolding pl by (simp add: min.commute)
qed

theorem preference_list_shape_witness:
  "\<exists>hr. NewHashRingFromMembers 2 [''b'', ''a''] = Inr hr \<and>
     distinct (GetPreferenceList hr ''key'' 2) \<and>
     set (GetPreferenceList hr ''key'' 2) \<subseteq> {''a'', ''b''}"
proof -
  have ok: "NewHashRingFromMembers 2 [''b'', ''a''] =
      Inr (sortRing (foldl place (NewHashRing 2) [''b'', ''a'']))"
    by (simp add: NewHashRingFromMembers_ok)
  from preference_list_shape [OF ok, of 2 "''key''"] ok show ?thesis by auto
qed



end
