(* ===== verification/Sha256.thy ===== *)
theory Sha256
  imports KV_Prelude
begin

text \<open>
  SHA-256 (crypto/sha256), as FIPS 180-4 specifies it. The Merkle trees and the membership
  fingerprint hash with it.
\<close>

definition rotr :: "nat \<Rightarrow> u32 \<Rightarrow> u32" where
  "rotr n w = or (drop_bit n w) (push_bit (32 - n) w)"

text \<open>
  The standard gives the constants as the first 32 bits of the fractional parts of the cube roots of
  the first 64 primes, and the initial state as those of the square roots of the first 8;
  \<open>rootLoop k n b r\<close> finds the integer part of the k-th root of n from its bits below b.
\<close>

fun rootLoop :: "nat \<Rightarrow> nat \<Rightarrow> nat \<Rightarrow> nat \<Rightarrow> nat" where
  "rootLoop k n 0 r = r"
| "rootLoop k n (Suc b) r = rootLoop k n b (if (r + 2 ^ b) ^ k \<le> n then r + 2 ^ b else r)"

definition rootFraction :: "nat \<Rightarrow> nat \<Rightarrow> u32" where
  "rootFraction k p = word_of_nat (rootLoop k (p * 2 ^ (32 * k)) 40 0)"

definition firstPrimes :: "nat list" where
  "firstPrimes = filter (\<lambda>p. list_all (\<lambda>d. p mod d \<noteq> 0) [2..<p]) [2..<312]"

definition shaK :: "u32 list" where
  "shaK = map (rootFraction 3) firstPrimes"

definition shaInit :: "u32 list" where
  "shaInit = map (rootFraction 2) (take 8 firstPrimes)"

definition shaPad :: "string \<Rightarrow> string" where
  "shaPad m = m @ [CHR 0x80] @ replicate ((119 - length m mod 64) mod 64) (CHR 0x00) @
     putUint64 (word_of_nat (8 * length m))"

text \<open>The message schedule, newest word first, and the 64 rounds over the working variables.\<close>

fun shaExtend :: "nat \<Rightarrow> u32 list \<Rightarrow> u32 list" where
  "shaExtend 0 ws = ws"
| "shaExtend (Suc n) ws =
     (let w15 = ws ! 14; w2 = ws ! 1;
          s0 = xor (xor (rotr 7 w15) (rotr 18 w15)) (drop_bit 3 w15);
          s1 = xor (xor (rotr 17 w2) (rotr 19 w2)) (drop_bit 10 w2)
      in shaExtend n ((ws ! 15 + s0 + ws ! 6 + s1) # ws))"

fun shaRound :: "u32 list \<Rightarrow> u32 \<times> u32 \<Rightarrow> u32 list" where
  "shaRound [a, b, c, d, e, f, g, h] (k, w) =
     (let s1 = xor (xor (rotr 6 e) (rotr 11 e)) (rotr 25 e);
          ch = xor (and e f) (and (not e) g);
          t1 = h + s1 + ch + k + w;
          s0 = xor (xor (rotr 2 a) (rotr 13 a)) (rotr 22 a);
          maj = xor (xor (and a b) (and a c)) (and b c)
      in [t1 + s0 + maj, a, b, c, d + t1, e, f, g])"
| "shaRound st _ = st"

fun chunks4 :: "string \<Rightarrow> u32 list" where
  "chunks4 (a # b # c # d # s) = getUint32 [a, b, c, d] # chunks4 s"
| "chunks4 _ = []"

definition shaBlock :: "u32 list \<Rightarrow> string \<Rightarrow> u32 list" where
  "shaBlock st block =
     map2 (+) st (foldl shaRound st (zip shaK (rev (shaExtend 48 (rev (chunks4 block))))))"

function shaBlocks :: "u32 list \<Rightarrow> string \<Rightarrow> u32 list" where
  "shaBlocks st m = (if length m < 64 then st else shaBlocks (shaBlock st (take 64 m)) (drop 64 m))"
  by pat_completeness auto
termination
  by (relation "measure (\<lambda>(_, m). length m)") auto

declare shaBlocks.simps [simp del]

definition sha256 :: "string \<Rightarrow> string" where
  "sha256 m =
     concat (map putUint32 (shaBlocks shaInit (shaPad m)))"

section \<open>A digest has 32 bytes\<close>

lemma length_shaInit: "length shaInit = 8"
proof -
  have e: "(20 :: nat) + 292 = 312" by simp
  have u: "[2..<20 + 292] = [2..<20] @ [20..<20 + 292 :: nat]" by (rule upt_add_eq_append) simp
  have "length (filter (\<lambda>p. list_all (\<lambda>d. p mod d \<noteq> 0) [2..<p]) [2..<20]) = 8" by code_simp
  then have "8 \<le> length firstPrimes"
    unfolding firstPrimes_def u [unfolded e] filter_append length_append by linarith
  then show ?thesis by (simp add: shaInit_def)
qed

lemma length_shaRound: "length st = 8 \<Longrightarrow> length (shaRound st kw) = 8"
  by (cases "(st, kw)" rule: shaRound.cases) (simp_all add: Let_def)

lemma length_shaRounds: "length st = 8 \<Longrightarrow> length (foldl shaRound st kws) = 8"
  by (induction kws arbitrary: st) (simp_all add: length_shaRound)

lemma length_shaBlocks: "length st = 8 \<Longrightarrow> length (shaBlocks st m) = 8"
proof (induction st m rule: shaBlocks.induct)
  case (1 st m)
  then show ?case by (subst shaBlocks.simps) (simp add: shaBlock_def length_shaRounds)
qed

lemma length_sha256 [simp]: "length (sha256 m) = 32"
proof -
  have "length (concat (map putUint32 ws)) = 4 * length ws" for ws by (induction ws) simp_all
  then show ?thesis by (simp add: sha256_def length_shaBlocks length_shaInit)
qed

end
