(* ===== verification/Json.thy ===== *)
theory Json
  imports KV_Prelude
begin

text \<open>
  The part of Go's encoding/json that the storage packages use, on strings of bytes: the
  text that \<open>json.Marshal\<close> writes for a value (no white space, HTML characters escaped, bytes that
  are not UTF-8 replaced) and the parser behind \<open>json.Unmarshal\<close>. A \<open>json.RawMessage\<close> is the
  parsed value rather than its text. The parser's nesting limit of 10000 is left out; no record of
  this program nests deeper than four levels.

  The theorems show that parsing what was printed gives the value back, for every value whose strings
  are valid UTF-8.
\<close>

section \<open>UTF-8: unicode/utf8\<close>

definition between :: "nat \<Rightarrow> nat \<Rightarrow> char \<Rightarrow> bool" where
  "between lo hi c \<longleftrightarrow> lo \<le> of_char c \<and> of_char c \<le> hi"

text \<open>
  The length of the well-formed encoding of one rune at the front, if there is one. The first byte
  fixes the length and the range of the second byte; the bytes after it are plain continuations.
\<close>

definition runeBytes :: "nat \<Rightarrow> nat" where
  "runeBytes b =
     (if b < 0x80 then 1
      else if 0xC2 \<le> b \<and> b \<le> 0xDF then 2
      else if 0xE0 \<le> b \<and> b \<le> 0xEF then 3
      else if 0xF0 \<le> b \<and> b \<le> 0xF4 then 4
      else 0)"

definition continues :: "nat \<Rightarrow> string \<Rightarrow> bool" where
  "continues b cs =
     (case cs of
        [] \<Rightarrow> True
      | c # cs' \<Rightarrow>
          between (if b = 0xE0 then 0xA0 else if b = 0xF0 then 0x90 else 0x80)
            (if b = 0xED then 0x9F else if b = 0xF4 then 0x8F else 0xBF) c \<and>
          list_all (between 0x80 0xBF) cs')"

definition utf8Len :: "string \<Rightarrow> nat option" where
  "utf8Len s =
     (case s of
        [] \<Rightarrow> None
      | c # r \<Rightarrow>
          let n = runeBytes (of_char c) in
          if 0 < n \<and> n \<le> length s \<and> continues (of_char c) (take (n - 1) r) then Some n else None)"

lemma utf8Len_Some:
  "utf8Len s = Some n \<longleftrightarrow>
    (\<exists>c r. s = c # r \<and> n = runeBytes (of_char c) \<and> 0 < n \<and> n \<le> length s \<and>
      continues (of_char c) (take (n - 1) r))"
  by (auto simp: utf8Len_def Let_def split: list.splits if_splits)

lemma utf8Len_take:
  assumes "utf8Len s = Some n"
  shows "0 < n" "n \<le> length s" "utf8Len (take n s @ t) = Some n"
proof -
  from assms obtain c r where s: "s = c # r" "n = runeBytes (of_char c)" "0 < n" "n \<le> length s"
    "continues (of_char c) (take (n - 1) r)"
    by (auto simp: utf8Len_Some)
  then show "0 < n" "n \<le> length s" by simp_all
  from s(1,3) have "take n s @ t = c # (take (n - 1) r @ t)" by (simp add: take_Cons')
  with s show "utf8Len (take n s @ t) = Some n" by (simp add: utf8Len_Some)
qed

lemma utf8Len_shorter: "utf8Len s = Some n \<Longrightarrow> length s - n < length s"
  using utf8Len_take(1,2) [of s n] by linarith

definition utf8Encode :: "nat \<Rightarrow> string" where
  "utf8Encode r =
     (if r < 0x80 then [char_of r]
      else if r < 0x800 then [char_of (0xC0 + r div 64), char_of (0x80 + r mod 64)]
      else if r < 0x10000 then
        [char_of (0xE0 + r div 4096), char_of (0x80 + r div 64 mod 64), char_of (0x80 + r mod 64)]
      else
        [char_of (0xF0 + r div 262144), char_of (0x80 + r div 4096 mod 64),
         char_of (0x80 + r div 64 mod 64), char_of (0x80 + r mod 64)])"

function validUtf8 :: "string \<Rightarrow> bool" where
  "validUtf8 s =
     (s = [] \<or> (case utf8Len s of None \<Rightarrow> False | Some n \<Rightarrow> validUtf8 (drop n s)))"
  by pat_completeness auto
termination
  by (relation "measure length") (auto dest: utf8Len_shorter)

declare validUtf8.simps [simp del]

section \<open>Strings\<close>

definition hexDigit :: "nat \<Rightarrow> char" where
  "hexDigit n = (if n < 10 then char_of (48 + n) else char_of (87 + n))"

definition hexVal :: "char \<Rightarrow> nat option" where
  "hexVal c =
     (if between 48 57 c then Some (of_char c - 48)
      else if between 97 102 c then Some (of_char c - 87)
      else if between 65 70 c then Some (of_char c - 55)
      else None)"

definition escapeASCII :: "char \<Rightarrow> string" where
  "escapeASCII c =
     (if c = CHR 0x22 \<or> c = CHR 0x5C then [CHR 0x5C, c]
      else if c = CHR 0x08 then [CHR 0x5C, CHR ''b'']
      else if c = CHR 0x0C then [CHR 0x5C, CHR ''f'']
      else if c = CHR 0x0A then [CHR 0x5C, CHR ''n'']
      else if c = CHR 0x0D then [CHR 0x5C, CHR ''r'']
      else if c = CHR 0x09 then [CHR 0x5C, CHR ''t'']
      else if of_char c < (0x20 :: nat) \<or> c = CHR ''<'' \<or> c = CHR ''>'' \<or> c = CHR ''&'' then
        CHR 0x5C # ''u00'' @ [hexDigit (of_char c div 16), hexDigit (of_char c mod 16)]
      else [c])"

text \<open>U+2028 and U+2029 are escaped; other runes are copied.\<close>

definition escapeRune :: "string \<Rightarrow> string" where
  "escapeRune u =
     (if u = [CHR 0xE2, CHR 0x80, CHR 0xA8] then CHR 0x5C # ''u2028''
      else if u = [CHR 0xE2, CHR 0x80, CHR 0xA9] then CHR 0x5C # ''u2029''
      else u)"

function quoteBody :: "string \<Rightarrow> string" where
  "quoteBody s =
     (case s of
        [] \<Rightarrow> []
      | c # r \<Rightarrow>
          if of_char c < (0x80 :: nat) then escapeASCII c @ quoteBody r
          else
            (case utf8Len s of
               None \<Rightarrow> CHR 0x5C # ''ufffd'' @ quoteBody r
             | Some n \<Rightarrow> escapeRune (take n s) @ quoteBody (drop n s)))"
  by pat_completeness auto
termination
  by (relation "measure length") (auto dest: utf8Len_shorter)

declare quoteBody.simps [simp del]

definition quoteString :: "string \<Rightarrow> string" where
  "quoteString s = CHR 0x22 # quoteBody s @ [CHR 0x22]"

definition hex4 :: "string \<Rightarrow> (nat \<times> string) option" where
  "hex4 s =
     (case s of
        a # b # c # d # r \<Rightarrow>
          (case (hexVal a, hexVal b, hexVal c, hexVal d) of
             (Some w, Some x, Some y, Some z) \<Rightarrow> Some (((w * 16 + x) * 16 + y) * 16 + z, r)
           | _ \<Rightarrow> None)
      | _ \<Rightarrow> None)"

definition replacementRune :: string where
  "replacementRune = [CHR 0xEF, CHR 0xBF, CHR 0xBD]"

text \<open>\<open>\uXXXX\<close>: a surrogate pair is one rune, a lone surrogate the replacement character.\<close>

definition parseUnicode :: "string \<Rightarrow> (string \<times> string) option" where
  "parseUnicode s =
     (case hex4 s of
        None \<Rightarrow> None
      | Some (x, r) \<Rightarrow>
          if 0xD800 \<le> x \<and> x < 0xE000 then
            (case (take 2 r = [CHR 0x5C, CHR ''u''], hex4 (drop 2 r)) of
               (True, Some (y, q)) \<Rightarrow>
                 if x < 0xDC00 \<and> 0xDC00 \<le> y \<and> y < 0xE000 then
                   Some (utf8Encode (0x10000 + (x - 0xD800) * 1024 + (y - 0xDC00)), q)
                 else Some (replacementRune, r)
             | _ \<Rightarrow> Some (replacementRune, r))
          else Some (utf8Encode x, r))"

definition parseEscape :: "string \<Rightarrow> (string \<times> string) option" where
  "parseEscape s =
     (case s of
        [] \<Rightarrow> None
      | e # r \<Rightarrow>
          if e = CHR 0x22 \<or> e = CHR 0x5C \<or> e = CHR ''/'' then Some ([e], r)
          else if e = CHR ''b'' then Some ([CHR 0x08], r)
          else if e = CHR ''f'' then Some ([CHR 0x0C], r)
          else if e = CHR ''n'' then Some ([CHR 0x0A], r)
          else if e = CHR ''r'' then Some ([CHR 0x0D], r)
          else if e = CHR ''t'' then Some ([CHR 0x09], r)
          else if e = CHR ''u'' then parseUnicode r
          else None)"

lemma hex4_length: "hex4 s = Some (x, r) \<Longrightarrow> length r < length s"
  by (auto simp: hex4_def split: list.splits option.splits)

lemma parseUnicode_length: "parseUnicode s = Some (t, r) \<Longrightarrow> length r < length s"
  by (fastforce simp: parseUnicode_def dest: hex4_length
      split: option.splits prod.splits if_splits bool.splits)

lemma parseEscape_length: "parseEscape s = Some (t, r) \<Longrightarrow> length r < length s"
  by (auto simp: parseEscape_def dest: parseUnicode_length split: list.splits if_splits)

definition prepend :: "string \<Rightarrow> (string \<times> string) option \<Rightarrow> (string \<times> string) option" where
  "prepend t res = map_option (\<lambda>(body, r). (t @ body, r)) res"

text \<open>The string after its opening quote, and what follows its closing quote.\<close>

function parseBody :: "string \<Rightarrow> (string \<times> string) option" where
  "parseBody s =
     (case s of
        [] \<Rightarrow> None
      | c # r \<Rightarrow>
          if c = CHR 0x22 then Some ([], r)
          else if c = CHR 0x5C then
            (case parseEscape r of
               None \<Rightarrow> None
             | Some (t, r') \<Rightarrow> prepend t (parseBody r'))
          else if of_char c < (0x20 :: nat) then None
          else if of_char c < (0x80 :: nat) then prepend [c] (parseBody r)
          else
            (case utf8Len s of
               None \<Rightarrow> prepend replacementRune (parseBody r)
             | Some n \<Rightarrow> prepend (take n s) (parseBody (drop n s))))"
  by pat_completeness auto
termination
  by (relation "measure length") (auto dest: utf8Len_shorter parseEscape_length)

declare parseBody.simps [simp del]

section \<open>Lemmas: a quoted string parses back\<close>

lemma validUtf8_Nil [simp]: "validUtf8 []"
  by (simp add: validUtf8.simps)

lemma quoteBody_Nil [simp]: "quoteBody [] = []"
  by (simp add: quoteBody.simps)

lemma utf8Len_ascii: "of_char c < (0x80 :: nat) \<Longrightarrow> utf8Len (c # r) = Some 1"
  by (simp add: utf8Len_def runeBytes_def continues_def)

lemma hexVal_hexDigit: "n < 16 \<Longrightarrow> hexVal (hexDigit n) = Some n"
  by (auto simp: hexVal_def hexDigit_def between_def)

lemma parseUnicode_ascii:
  assumes "of_char c < (0x80 :: nat)"
  shows "parseUnicode (CHR ''0'' # CHR ''0'' # hexDigit (of_char c div 16) #
    hexDigit (of_char c mod 16) # r) = Some ([c], r)"
proof -
  have "hexVal CHR ''0'' = Some 0" by (simp add: hexVal_def between_def)
  moreover have "hexVal (hexDigit (of_char c div 16)) = Some (of_char c div 16)"
    "hexVal (hexDigit (of_char c mod 16)) = Some (of_char c mod 16)"
    using assms by (simp_all add: hexVal_hexDigit)
  ultimately show ?thesis
    using assms by (simp add: parseUnicode_def hex4_def utf8Encode_def)
qed

lemma parseBody_ascii:
  assumes "of_char c < (0x80 :: nat)"
  shows "parseBody (escapeASCII c @ r) = prepend [c] (parseBody r)"
proof -
  have esc: "parseBody (CHR 0x5C # r') = prepend t (parseBody q)"
    if "parseEscape r' = Some (t, q)" for r' t q
    using that by (simp add: parseBody.simps [of "CHR 0x5C # r'"])
  let ?u = "''u00'' @ [hexDigit (of_char c div 16), hexDigit (of_char c mod 16)]"
  have u: "parseEscape (?u @ r) = Some ([c], r)"
    using parseUnicode_ascii [OF assms] by (simp add: parseEscape_def)
  consider (short) "c = CHR 0x22 \<or> c = CHR 0x5C \<or> c = CHR 0x08 \<or> c = CHR 0x0C \<or> c = CHR 0x0A \<or>
      c = CHR 0x0D \<or> c = CHR 0x09"
    | (hex) "escapeASCII c = CHR 0x5C # ?u"
    | (plain) "escapeASCII c = [c]" "c \<noteq> CHR 0x22" "c \<noteq> CHR 0x5C" "\<not> of_char c < (0x20 :: nat)"
    unfolding escapeASCII_def by presburger
  then show ?thesis
  proof cases
    case short
    then show ?thesis by (elim disjE) (simp_all add: escapeASCII_def esc parseEscape_def)
  next
    case hex
    with esc [OF u] show ?thesis by simp
  next
    case plain
    then show ?thesis using assms by (simp add: parseBody.simps [of "c # r"])
  qed
qed

lemma parseBody_rune:
  assumes "utf8Len (c # s) = Some n" "\<not> of_char c < (0x80 :: nat)"
  shows "parseBody (escapeRune (take n (c # s)) @ r) = prepend (take n (c # s)) (parseBody r)"
proof -
  note u = utf8Len_take [OF assms(1)]
  obtain u' where u': "take n (c # s) = c # u'" using u(1) by (cases n) auto
  have n: "n = Suc (length u')" using arg_cong [OF u', of length] u(2) by simp
  have "parseBody (take n (c # s) @ r) = prepend (take n (c # s)) (parseBody r)"
    unfolding u' using u(3) [of r, unfolded u'] assms(2)
    by (auto simp: parseBody.simps [of "c # u' @ r"] n)
  moreover have "utf8Encode 0x2028 = [CHR 0xE2, CHR 0x80, CHR 0xA8]"
    "utf8Encode 0x2029 = [CHR 0xE2, CHR 0x80, CHR 0xA9]"
    by (simp_all add: utf8Encode_def char_of_eq_iff)
  then have "parseBody (CHR 0x5C # ''u2028'' @ r) = prepend [CHR 0xE2, CHR 0x80, CHR 0xA8] (parseBody r)"
    "parseBody (CHR 0x5C # ''u2029'' @ r) = prepend [CHR 0xE2, CHR 0x80, CHR 0xA9] (parseBody r)"
    by (simp_all add: parseBody.simps [of "CHR 0x5C # x" for x] parseEscape_def parseUnicode_def
        hex4_def hexVal_def between_def)
  ultimately show ?thesis by (simp add: escapeRune_def)
qed

lemma parseBody_quoteBody:
  "validUtf8 s \<Longrightarrow> parseBody (quoteBody s @ CHR 0x22 # r) = Some (s, r)"
proof (induction s rule: quoteBody.induct)
  case (1 s)
  show ?case
  proof (cases s)
    case Nil
    then show ?thesis by (simp add: parseBody.simps)
  next
    case (Cons c t)
    from "1.prems" have "s = [] \<or> (case utf8Len s of None \<Rightarrow> False | Some n \<Rightarrow> validUtf8 (drop n s))"
      by (rule validUtf8.simps [THEN iffD1])
    with Cons obtain n where n: "utf8Len s = Some n" "validUtf8 (drop n s)"
      by (auto split: option.splits)
    show ?thesis
    proof (cases "of_char c < (0x80 :: nat)")
      case True
      with n Cons have "validUtf8 t" by (auto simp: utf8Len_ascii)
      with "1.IH"(1) [OF Cons True] Cons True show ?thesis
        by (simp add: quoteBody.simps [of "c # t"] parseBody_ascii prepend_def)
    next
      case False
      from "1.IH"(3) [OF Cons False n(1)] n(2)
      have "parseBody (quoteBody (drop n s) @ CHR 0x22 # r) = Some (drop n s, r)" by simp
      moreover have "quoteBody s = escapeRune (take n s) @ quoteBody (drop n s)"
        using Cons False n(1) by (simp add: quoteBody.simps [of "c # t"])
      ultimately show ?thesis
        using parseBody_rune [of c t n] Cons False n(1) by (simp add: prepend_def)
    qed
  qed
qed

section \<open>Numbers\<close>

definition isDigit :: "char \<Rightarrow> bool" where
  "isDigit c = between 48 57 c"

definition expOk :: "string \<Rightarrow> bool" where
  "expOk s =
     (case s of
        [] \<Rightarrow> True
      | c # r \<Rightarrow>
          (c = CHR ''e'' \<or> c = CHR ''E'') \<and>
          (let r' = (case r of d # q \<Rightarrow> if d = CHR ''+'' \<or> d = CHR ''-'' then q else r | [] \<Rightarrow> r)
           in r' \<noteq> [] \<and> list_all isDigit r'))"

definition fracExpOk :: "string \<Rightarrow> bool" where
  "fracExpOk s =
     (case s of
        c # r \<Rightarrow>
          if c = CHR ''.'' then takeWhile isDigit r \<noteq> [] \<and> expOk (dropWhile isDigit r) else expOk s
      | [] \<Rightarrow> True)"

definition isNumber :: "string \<Rightarrow> bool" where
  "isNumber s =
     (let s' = (case s of c # r \<Rightarrow> if c = CHR ''-'' then r else s | [] \<Rightarrow> [])
      in case s' of
           [] \<Rightarrow> False
         | c # r \<Rightarrow>
             if c = CHR ''0'' then fracExpOk r
             else isDigit c \<and> fracExpOk (dropWhile isDigit r))"

definition numberChar :: "char \<Rightarrow> bool" where
  "numberChar c \<longleftrightarrow> isDigit c \<or> c = CHR ''-'' \<or> c = CHR ''+'' \<or> c = CHR ''.'' \<or> c = CHR ''e'' \<or> c = CHR ''E''"

text \<open>\<open>strconv.ParseUint\<close> in base 10.\<close>

definition parseDec :: "string \<Rightarrow> nat" where
  "parseDec s = foldl (\<lambda>acc c. acc * 10 + (of_char c - 48)) 0 s"

definition parseUint :: "nat \<Rightarrow> string \<Rightarrow> nat option" where
  "parseUint bits s =
     (if s \<noteq> [] \<and> list_all isDigit s \<and> parseDec s < 2 ^ bits then Some (parseDec s) else None)"

section \<open>Values\<close>

datatype json =
    JNull
  | JBool bool
  | JNum string
  | JStr string
  | JArr "json list"
  | JObj "(string \<times> json) list"

fun commaSep :: "string list \<Rightarrow> string" where
  "commaSep [] = []"
| "commaSep [x] = x"
| "commaSep (x # y # ys) = x @ CHR '','' # commaSep (y # ys)"

fun jsonText :: "json \<Rightarrow> string" where
  "jsonText JNull = ''null''"
| "jsonText (JBool b) = (if b then ''true'' else ''false'')"
| "jsonText (JNum n) = n"
| "jsonText (JStr s) = quoteString s"
| "jsonText (JArr js) = CHR ''['' # commaSep (map jsonText js) @ '']''"
| "jsonText (JObj ms) =
     CHR ''{'' # commaSep (map (\<lambda>(k, j). quoteString k @ CHR '':'' # jsonText j) ms) @ ''}''"

definition isWs :: "char \<Rightarrow> bool" where
  "isWs c \<longleftrightarrow> c = CHR 0x20 \<or> c = CHR 0x09 \<or> c = CHR 0x0D \<or> c = CHR 0x0A"

abbreviation skipWs :: "string \<Rightarrow> string" where
  "skipWs \<equiv> dropWhile isWs"

definition parseLiteral :: "string \<Rightarrow> json \<Rightarrow> string \<Rightarrow> (json \<times> string) option" where
  "parseLiteral lit j s =
     (if take (length lit) s = lit then Some (j, drop (length lit) s) else None)"

definition parseNumber :: "string \<Rightarrow> (json \<times> string) option" where
  "parseNumber s =
     (let n = takeWhile numberChar s
      in if isNumber n then Some (JNum n, dropWhile numberChar s) else None)"

text \<open>
  The parser, with the number of nested calls bounded by its first argument; twice the length of the
  text is enough, as \<open>parseVal_jsonText\<close> and \<open>jsonFuel_length\<close> show for every printed text.
\<close>

fun parseVal :: "nat \<Rightarrow> string \<Rightarrow> (json \<times> string) option"
  and parseElems :: "nat \<Rightarrow> string \<Rightarrow> (json list \<times> string) option"
  and parseMembers :: "nat \<Rightarrow> string \<Rightarrow> ((string \<times> json) list \<times> string) option" where
  "parseVal 0 s = None"
| "parseVal (Suc f) s =
     (case skipWs s of
        [] \<Rightarrow> None
      | c # r \<Rightarrow>
          if c = CHR 0x22 then map_option (\<lambda>(t, r'). (JStr t, r')) (parseBody r)
          else if c = CHR ''['' then
            (if skipWs r \<noteq> [] \<and> hd (skipWs r) = CHR '']'' then Some (JArr [], tl (skipWs r))
             else map_option (\<lambda>(js, r'). (JArr js, r')) (parseElems f r))
          else if c = CHR ''{'' then
            (if skipWs r \<noteq> [] \<and> hd (skipWs r) = CHR ''}'' then Some (JObj [], tl (skipWs r))
             else map_option (\<lambda>(ms, r'). (JObj ms, r')) (parseMembers f r))
          else if c = CHR ''n'' then parseLiteral ''null'' JNull (c # r)
          else if c = CHR ''t'' then parseLiteral ''true'' (JBool True) (c # r)
          else if c = CHR ''f'' then parseLiteral ''false'' (JBool False) (c # r)
          else parseNumber (c # r))"
| "parseElems 0 s = None"
| "parseElems (Suc f) s =
     (case parseVal f s of
        None \<Rightarrow> None
      | Some (j, r) \<Rightarrow>
          (case skipWs r of
             [] \<Rightarrow> None
           | c # r' \<Rightarrow>
               if c = CHR '']'' then Some ([j], r')
               else if c = CHR '','' then
                 map_option (\<lambda>(js, r''). (j # js, r'')) (parseElems f r')
               else None))"
| "parseMembers 0 s = None"
| "parseMembers (Suc f) s =
     (case skipWs s of
        [] \<Rightarrow> None
      | q # r \<Rightarrow>
          if q \<noteq> CHR 0x22 then None
          else
            (case parseBody r of
               None \<Rightarrow> None
             | Some (k, r1) \<Rightarrow>
                 (case skipWs r1 of
                    [] \<Rightarrow> None
                  | c # r2 \<Rightarrow>
                      if c \<noteq> CHR '':'' then None
                      else
                        (case parseVal f r2 of
                           None \<Rightarrow> None
                         | Some (j, r3) \<Rightarrow>
                             (case skipWs r3 of
                                [] \<Rightarrow> None
                              | d # r4 \<Rightarrow>
                                  if d = CHR ''}'' then Some ([(k, j)], r4)
                                  else if d = CHR '','' then
                                    map_option (\<lambda>(ms, r5). ((k, j) # ms, r5)) (parseMembers f r4)
                                  else None)))))"

definition parseJson :: "string \<Rightarrow> json option" where
  "parseJson s =
     (case parseVal (2 * length s + 2) s of
        None \<Rightarrow> None
      | Some (j, r) \<Rightarrow> if skipWs r = [] then Some j else None)"

text \<open>Values whose text parses back: strings in UTF-8, numbers in the grammar.\<close>

fun jsonOk :: "json \<Rightarrow> bool" where
  "jsonOk JNull = True"
| "jsonOk (JBool b) = True"
| "jsonOk (JNum n) = (isNumber n \<and> list_all numberChar n)"
| "jsonOk (JStr s) = validUtf8 s"
| "jsonOk (JArr js) = list_all jsonOk js"
| "jsonOk (JObj ms) = list_all (\<lambda>(k, j). validUtf8 k \<and> jsonOk j) ms"

fun jsonFuel :: "json \<Rightarrow> nat" where
  "jsonFuel (JArr js) = Suc (sum_list (map (\<lambda>j. Suc (jsonFuel j)) js))"
| "jsonFuel (JObj ms) = Suc (sum_list (map (\<lambda>(k, j). Suc (jsonFuel j)) ms))"
| "jsonFuel j = 1"

section \<open>Lemmas: a printed value parses back\<close>

definition delimited :: "string \<Rightarrow> bool" where
  "delimited r \<longleftrightarrow> r = [] \<or> \<not> numberChar (hd r)"

lemma delimited_Cons [simp]:
  "delimited []" "delimited (CHR '','' # r)" "delimited (CHR '']'' # r)" "delimited (CHR ''}'' # r)"
  by (simp_all add: delimited_def numberChar_def isDigit_def between_def)

lemma notWs [simp]:
  "\<not> isWs (CHR '','')" "\<not> isWs (CHR '']'')" "\<not> isWs (CHR ''}'')" "\<not> isWs (CHR '':'')"
  "\<not> isWs (CHR 0x22)" "\<not> isWs (CHR ''['')" "\<not> isWs (CHR ''{'')" "\<not> isWs (CHR ''n'')"
  "\<not> isWs (CHR ''t'')" "\<not> isWs (CHR ''f'')"
  by (simp_all add: isWs_def)

lemma number_start:
  assumes "isNumber n"
  obtains c t where "n = c # t" "\<not> isWs c" "numberChar c" "c = CHR ''-'' \<or> isDigit c"
proof (cases n)
  case Nil
  with assms show ?thesis by (simp add: isNumber_def)
next
  case (Cons c t)
  with assms have "c = CHR ''-'' \<or> isDigit c"
    by (auto simp: isNumber_def Let_def isDigit_def between_def split: if_splits)
  moreover from this have "\<not> isWs c" "numberChar c"
    by (auto simp: isWs_def numberChar_def isDigit_def between_def)
  ultimately show ?thesis using that Cons by blast
qed

lemma jsonText_start:
  assumes "jsonOk j"
  obtains c t where "jsonText j = c # t" "\<not> isWs c" "c \<noteq> CHR '']''"
proof (cases j)
  case (JNum n)
  with assms have "isNumber n" by simp
  then obtain c t where c: "n = c # t" "\<not> isWs c" "numberChar c" by (rule number_start)
  moreover have "\<not> numberChar (CHR '']'')" by (simp add: numberChar_def isDigit_def between_def)
  ultimately show ?thesis using that [of c t] JNum by auto
next
  case (JBool b)
  with that show ?thesis by (cases b) auto
qed (use that in \<open>auto simp: quoteString_def\<close>)

lemma takeWhile_number:
  "list_all numberChar n \<Longrightarrow> delimited r \<Longrightarrow>
    takeWhile numberChar (n @ r) = n \<and> dropWhile numberChar (n @ r) = r"
  by (induction n) (cases r; auto simp: delimited_def)+

lemma parseVal_number:
  assumes "jsonOk (JNum n)" "delimited r"
  shows "parseVal (Suc f) (n @ r) = Some (JNum n, r)"
proof -
  from assms(1) have n: "isNumber n" "list_all numberChar n" by simp_all
  obtain c t where c: "n = c # t" "\<not> isWs c" "c = CHR ''-'' \<or> isDigit c"
    using number_start [OF n(1)] .
  have "c \<noteq> CHR 0x22 \<and> c \<noteq> CHR ''['' \<and> c \<noteq> CHR ''{'' \<and> c \<noteq> CHR ''n'' \<and> c \<noteq> CHR ''t'' \<and> c \<noteq> CHR ''f''"
    using c(3) by (auto simp: isDigit_def between_def)
  moreover have "parseNumber (n @ r) = Some (JNum n, r)"
    using takeWhile_number [OF n(2) assms(2)] n(1) by (simp add: parseNumber_def)
  ultimately show ?thesis using c by simp
qed

lemma parseVal_string:
  "validUtf8 s \<Longrightarrow> parseVal (Suc f) (quoteString s @ r) = Some (JStr s, r)"
  by (simp add: quoteString_def parseBody_quoteBody)

lemma parseElems_commaSep:
  assumes "\<And>j f r. j \<in> set js \<Longrightarrow> jsonFuel j \<le> f \<Longrightarrow> delimited r \<Longrightarrow>
      parseVal f (jsonText j @ r) = Some (j, r)"
    and "js \<noteq> []" "sum_list (map (\<lambda>j. Suc (jsonFuel j)) js) \<le> f"
  shows "parseElems f (commaSep (map jsonText js) @ CHR '']'' # r) = Some (js, r)"
  using assms
proof (induction js arbitrary: f)
  case (Cons j js)
  then obtain f' where f: "f = Suc f'" "jsonFuel j \<le> f'" by (cases f) auto
  show ?case
  proof (cases js)
    case Nil
    with Cons.prems(1) [of j f' "CHR '']'' # r"] f show ?thesis by simp
  next
    case (Cons j' js')
    let ?r = "CHR '','' # commaSep (map jsonText js) @ CHR '']'' # r"
    have "parseElems f' (commaSep (map jsonText js) @ CHR '']'' # r) = Some (js, r)"
      using Cons.IH Cons.prems f Cons by simp
    moreover have "parseVal f' (jsonText j @ ?r) = Some (j, ?r)"
      using Cons.prems(1) [of j f' ?r] f by simp
    moreover have "commaSep (map jsonText (j # js)) @ CHR '']'' # r = jsonText j @ ?r"
      using Cons by simp
    ultimately show ?thesis by (simp add: f(1))
  qed
qed simp

lemma parseMembers_commaSep:
  assumes "\<And>k j f r. (k, j) \<in> set ms \<Longrightarrow> jsonFuel j \<le> f \<Longrightarrow> delimited r \<Longrightarrow>
      parseVal f (jsonText j @ r) = Some (j, r)"
    and "\<And>k j. (k, j) \<in> set ms \<Longrightarrow> validUtf8 k"
    and "ms \<noteq> []" "sum_list (map (\<lambda>(k, j). Suc (jsonFuel j)) ms) \<le> f"
  shows "parseMembers f
    (commaSep (map (\<lambda>(k, j). quoteString k @ CHR '':'' # jsonText j) ms) @ CHR ''}'' # r) = Some (ms, r)"
  using assms
proof (induction ms arbitrary: f)
  case (Cons m ms)
  obtain k j where m: "m = (k, j)" by fastforce
  with Cons.prems(4) obtain f' where f: "f = Suc f'" "jsonFuel j \<le> f'" by (cases f) auto
  let ?t = "\<lambda>ms. commaSep (map (\<lambda>(k, j). quoteString k @ CHR '':'' # jsonText j) ms) @ CHR ''}'' # r"
  have one: "parseMembers f (quoteString k @ CHR '':'' # jsonText j @ d # r') =
      (if d = CHR ''}'' then Some ([(k, j)], r')
       else map_option (\<lambda>(ms, r5). ((k, j) # ms, r5)) (parseMembers f' r'))"
    if "d = CHR ''}'' \<or> d = CHR '',''" for d r'
    using that Cons.prems(1) [of k j f' "d # r'"] Cons.prems(2) [of k j] m f
    by (auto simp: quoteString_def parseBody_quoteBody)
  show ?case
  proof (cases ms)
    case Nil
    then show ?thesis by (simp add: m one)
  next
    case (Cons m' ms')
    then have "?t (m # ms) = quoteString k @ CHR '':'' # jsonText j @ CHR '','' # ?t ms"
      by (cases m') (simp add: m)
    moreover have "parseMembers f' (?t ms) = Some (ms, r)"
    proof (rule Cons.IH)
      fix k j assume "(k, j) \<in> set ms"
      then have mem: "(k, j) \<in> set (m # ms)" by simp
      show "validUtf8 k" by (rule Cons.prems(2) [OF mem])
      fix f r assume "jsonFuel j \<le> f" "delimited r"
      then show "parseVal f (jsonText j @ r) = Some (j, r)" by (rule Cons.prems(1) [OF mem])
    qed (use Cons Cons.prems(4) f m in simp_all)
    ultimately show ?thesis by (simp add: one m)
  qed
qed simp

lemma parseVal_jsonText:
  "jsonOk j \<Longrightarrow> jsonFuel j \<le> f \<Longrightarrow> delimited r \<Longrightarrow> parseVal f (jsonText j @ r) = Some (j, r)"
proof (induction j arbitrary: f r rule: jsonText.induct)
  case 1
  then show ?case by (cases f) (simp_all add: parseLiteral_def)
next
  case (2 b)
  then show ?case by (cases f; cases b) (simp_all add: parseLiteral_def)
next
  case (3 n)
  then show ?case by (cases f) (simp_all only: jsonText.simps parseVal_number, simp)
next
  case (4 s)
  then show ?case by (cases f) (simp_all only: jsonText.simps jsonOk.simps parseVal_string, simp)
next
  case (5 js)
  from 5(3) obtain f' where f: "f = Suc f'" "sum_list (map (\<lambda>j. Suc (jsonFuel j)) js) \<le> f'"
    by (cases f) auto
  show ?case
  proof (cases "js = []")
    case False
    then obtain c t where c: "commaSep (map jsonText js) @ CHR '']'' # r = c # t" "\<not> isWs c" "c \<noteq> CHR '']''"
    proof (cases js)
      case (Cons j js')
      with 5(2) have "jsonOk j" by simp
      then obtain c t where "jsonText j = c # t" "\<not> isWs c" "c \<noteq> CHR '']''" by (rule jsonText_start)
      with Cons that show ?thesis by (cases js') auto
    qed auto
    have "parseElems f' (commaSep (map jsonText js) @ CHR '']'' # r) = Some (js, r)"
      using 5 f False by (intro parseElems_commaSep) (auto simp: list_all_iff)
    with c show ?thesis by (simp add: f(1))
  qed (simp add: f(1))
next
  case (6 ms)
  from 6(3) obtain f' where f: "f = Suc f'" "sum_list (map (\<lambda>(k, j). Suc (jsonFuel j)) ms) \<le> f'"
    by (cases f) auto
  let ?t = "commaSep (map (\<lambda>(k, j). quoteString k @ CHR '':'' # jsonText j) ms) @ CHR ''}'' # r"
  show ?case
  proof (cases "ms = []")
    case False
    then obtain t where t: "?t = CHR 0x22 # t"
    proof (cases ms)
      case (Cons m ms')
      with that show ?thesis by (cases m; cases ms') (auto simp: quoteString_def)
    qed simp
    have "parseMembers f' ?t = Some (ms, r)"
    proof (rule parseMembers_commaSep)
      fix k j assume mem: "(k, j) \<in> set ms"
      then have ok: "validUtf8 k" "jsonOk j" using 6(2) by (auto simp: list_all_iff)
      then show "validUtf8 k" by simp
      fix f r assume "jsonFuel j \<le> f" "delimited r"
      then show "parseVal f (jsonText j @ r) = Some (j, r)" using 6(1) [OF mem _ ok(2)] by simp
    qed (use f False in simp_all)
    with t show ?thesis by (simp add: f(1))
  qed (simp add: f(1))
qed

lemma commaSep_length:
  "length (commaSep (x # xs)) = length x + sum_list (map (\<lambda>y. Suc (length y)) xs)"
  by (induction xs arbitrary: x) simp_all

lemma jsonFuel_length: "jsonOk j \<Longrightarrow> jsonFuel j \<le> 2 * length (jsonText j)"
proof (induction j rule: jsonText.induct)
  case (3 n)
  then show ?case using number_start [of n] by (cases n) auto
next
  case (5 js)
  have "sum_list (map (\<lambda>j. Suc (jsonFuel j)) js) \<le> sum_list (map (\<lambda>j. Suc (2 * length (jsonText j))) js)"
    using 5 by (intro sum_list_mono) (auto simp: list_all_iff)
  also have "\<dots> \<le> 2 * length (commaSep (map jsonText js)) + 1"
  proof (cases js)
    case (Cons j js')
    have "sum_list (map (\<lambda>j. Suc (2 * length (jsonText j))) js') \<le>
        2 * sum_list (map (\<lambda>j. Suc (length (jsonText j))) js')"
      by (induction js') simp_all
    with Cons show ?thesis by (simp add: commaSep_length comp_def del: commaSep.simps)
  qed simp
  finally show ?case by simp
next
  case (6 ms)
  let ?t = "\<lambda>(k, j). quoteString k @ CHR '':'' # jsonText j"
  have "sum_list (map (\<lambda>(k, j). Suc (jsonFuel j)) ms) \<le> sum_list (map (\<lambda>m. Suc (2 * length (?t m))) ms)"
  proof (rule sum_list_mono)
    fix m assume m: "m \<in> set ms"
    obtain k j where kj: "m = (k, j)" by fastforce
    with 6 m have "jsonFuel j \<le> 2 * length (jsonText j)" by (auto simp: list_all_iff)
    with kj show "(\<lambda>(k, j). Suc (jsonFuel j)) m \<le> Suc (2 * length (?t m))" by simp
  qed
  also have "\<dots> \<le> 2 * length (commaSep (map ?t ms)) + 1"
  proof (cases ms)
    case (Cons m ms')
    have "sum_list (map (\<lambda>m. Suc (2 * length (?t m))) ms') \<le> 2 * sum_list (map (\<lambda>m. Suc (length (?t m))) ms')"
      by (induction ms') simp_all
    with Cons show ?thesis by (simp add: commaSep_length comp_def del: commaSep.simps)
  qed simp
  finally show ?case by simp
qed (simp_all add: quoteString_def)

lemma parseJson_jsonText: "jsonOk j \<Longrightarrow> parseJson (jsonText j) = Some j"
  using parseVal_jsonText [of j "2 * length (jsonText j) + 2" "[]"] jsonFuel_length [of j]
  by (simp add: parseJson_def)

section \<open>Decimal numbers parse back\<close>

lemma isDigit_digitChar: "d < 10 \<Longrightarrow> isDigit (digitChar d)"
  by (simp add: isDigit_def between_def digitChar_def)

lemma itoa_rec: "10 \<le> n \<Longrightarrow> itoa n = itoa (n div 10) @ [digitChar (n mod 10)]"
  by (subst itoa.simps) simp

lemma itoa_digits: "list_all isDigit (itoa n)"
proof (induction n rule: itoa.induct)
  case (1 n)
  show ?case
  proof (cases "n < 10")
    case True
    then show ?thesis by (simp add: itoa.simps [of n] isDigit_digitChar)
  next
    case False
    with 1 show ?thesis by (simp add: itoa_rec isDigit_digitChar)
  qed
qed

lemma itoa_hd: "0 < n \<Longrightarrow> hd (itoa n) \<noteq> CHR ''0''"
proof (induction n rule: itoa.induct)
  case (1 n)
  show ?case
  proof (cases "n < 10")
    case True
    with "1.prems" have "of_char (digitChar n) \<noteq> (48 :: nat)" by (simp add: digitChar_def)
    then have "digitChar n \<noteq> CHR ''0''" by auto
    with True show ?thesis by (simp add: itoa.simps [of n])
  next
    case False
    with 1 show ?thesis by (simp add: itoa_rec itoa_nonempty)
  qed
qed

lemma dropWhile_digits: "list_all isDigit s \<Longrightarrow> dropWhile isDigit s = []"
  by (simp add: list_all_iff)

lemma isNumber_itoa: "isNumber (itoa n)"
proof (cases "itoa n")
  case Nil
  then show ?thesis by (simp add: itoa_nonempty)
next
  case (Cons c r)
  with itoa_digits [of n] have d: "isDigit c" "list_all isDigit r" by simp_all
  then have "c \<noteq> CHR ''-''" by (auto simp: isDigit_def between_def)
  moreover have "r = []" if "c = CHR ''0''"
  proof -
    from that Cons itoa_hd [of n] have "n = 0" by (cases n) auto
    with Cons show ?thesis by (simp add: itoa.simps)
  qed
  ultimately show ?thesis
    using Cons d by (simp add: isNumber_def fracExpOk_def expOk_def dropWhile_digits)
qed

lemma parseDec_itoa: "parseDec (itoa n) = n"
proof (induction n rule: itoa.induct)
  case (1 n)
  show ?case
  proof (cases "n < 10")
    case True
    then show ?thesis by (simp add: itoa.simps [of n] parseDec_def digitChar_def)
  next
    case False
    then have "parseDec (itoa n) = parseDec (itoa (n div 10)) * 10 + n mod 10"
      by (simp add: itoa_rec parseDec_def digitChar_def)
    with 1 False show ?thesis by simp
  qed
qed

lemma parseUint_itoa: "n < 2 ^ bits \<Longrightarrow> parseUint bits (itoa n) = Some n"
  by (simp add: parseUint_def itoa_nonempty itoa_digits parseDec_itoa)

lemma jsonOk_itoa [simp]: "jsonOk (JNum (itoa n))"
  using itoa_digits [of n] by (auto simp: isNumber_itoa numberChar_def list_all_iff)

section \<open>Struct fields\<close>

text \<open>
  A member of an object sets the field whose name it equals up to the case of letters; the members
  are applied in order and one that no field takes is ignored.
\<close>

definition foldCase :: "char \<Rightarrow> char" where
  "foldCase c = (if between 97 122 c then char_of (of_char c - (32 :: nat)) else c)"

definition fieldIs :: "string \<Rightarrow> string \<Rightarrow> bool" where
  "fieldIs k name \<longleftrightarrow> map foldCase k = map foldCase name"

text \<open>\<open>null\<close> leaves a string, boolean or integer as it is; another type is an error.\<close>

definition setString :: "json \<Rightarrow> string \<Rightarrow> string option" where
  "setString j old = (case j of JStr s \<Rightarrow> Some s | JNull \<Rightarrow> Some old | _ \<Rightarrow> None)"

definition setBool :: "json \<Rightarrow> bool \<Rightarrow> bool option" where
  "setBool j old = (case j of JBool b \<Rightarrow> Some b | JNull \<Rightarrow> Some old | _ \<Rightarrow> None)"

definition setUint :: "nat \<Rightarrow> json \<Rightarrow> nat \<Rightarrow> nat option" where
  "setUint bits j old = (case j of JNum n \<Rightarrow> parseUint bits n | JNull \<Rightarrow> Some old | _ \<Rightarrow> None)"

text \<open>Unmarshalling an object into a struct: \<open>null\<close> changes nothing, another value is an error.\<close>

definition setMember :: "('r \<Rightarrow> string \<Rightarrow> json \<Rightarrow> 'r option) \<Rightarrow> 'r option \<Rightarrow> string \<times> json \<Rightarrow> 'r option" where
  "setMember setField acc m =
     (case acc of None \<Rightarrow> None | Some rec \<Rightarrow> setField rec (fst m) (snd m))"

definition unmarshalStruct :: "('r \<Rightarrow> string \<Rightarrow> json \<Rightarrow> 'r option) \<Rightarrow> 'r \<Rightarrow> json \<Rightarrow> 'r option" where
  "unmarshalStruct setField zero j =
     (case j of
        JObj ms \<Rightarrow> foldl (setMember setField) (Some zero) ms
      | JNull \<Rightarrow> Some zero
      | _ \<Rightarrow> None)"

lemma setMember_simps [simp]:
  "setMember sf (Some rec) (k, j) = sf rec k j"
  "setMember sf None m = None"
  by (simp_all add: setMember_def)

end
