(* ===== verification/Quote.thy ===== *)
theory Quote
  imports Json
begin

text \<open>
  Go's \<open>%q\<close> (strconv.Quote) and hex.EncodeToString. Which runes beyond ASCII are printable is
  Unicode's table, a parameter \<open>p\<close> on the bytes of a rune. The lemma of this theory: a quoted string
  determines the string and where it ends, whatever the table says.
\<close>

section \<open>Definitions\<close>

definition hexByte :: "char \<Rightarrow> string" where
  "hexByte c = [hexDigit (of_char c div 16), hexDigit (of_char c mod 16)]"

definition hexEncode :: "string \<Rightarrow> string" where
  "hexEncode s = concat (map hexByte s)"

definition goQuoteASCII :: "char \<Rightarrow> string" where
  "goQuoteASCII c =
     (if c = CHR 0x22 \<or> c = CHR 0x5C then [CHR 0x5C, c]
      else if between 0x20 0x7E c then [c]
      else if c = CHR 0x07 then [CHR 0x5C, CHR ''a'']
      else if c = CHR 0x08 then [CHR 0x5C, CHR ''b'']
      else if c = CHR 0x0C then [CHR 0x5C, CHR ''f'']
      else if c = CHR 0x0A then [CHR 0x5C, CHR ''n'']
      else if c = CHR 0x0D then [CHR 0x5C, CHR ''r'']
      else if c = CHR 0x09 then [CHR 0x5C, CHR ''t'']
      else if c = CHR 0x0B then [CHR 0x5C, CHR ''v'']
      else [CHR 0x5C, CHR ''x''] @ hexByte c)"

text \<open>The rune that well-formed bytes encode.\<close>

definition runeOf :: "string \<Rightarrow> nat" where
  "runeOf u =
     (case map of_char u of
        [a, b] \<Rightarrow> (a - 0xC0) * 64 + (b - 0x80)
      | [a, b, c] \<Rightarrow> (a - 0xE0) * 4096 + (b - 0x80) * 64 + (c - 0x80)
      | [a, b, c, d] \<Rightarrow> (a - 0xF0) * 262144 + (b - 0x80) * 4096 + (c - 0x80) * 64 + (d - 0x80)
      | [a] \<Rightarrow> a
      | _ \<Rightarrow> 0)"

primrec hexDigits :: "nat \<Rightarrow> nat \<Rightarrow> string" where
  "hexDigits 0 n = []"
| "hexDigits (Suc k) n = hexDigits k (n div 16) @ [hexDigit (n mod 16)]"

definition goQuoteRune :: "(string \<Rightarrow> bool) \<Rightarrow> string \<Rightarrow> string" where
  "goQuoteRune p u =
     (if p u then u
      else if runeOf u < 0x10000 then [CHR 0x5C, CHR ''u''] @ hexDigits 4 (runeOf u)
      else [CHR 0x5C, CHR ''U''] @ hexDigits 8 (runeOf u))"

text \<open>What is written for the front of a string, and how many of its bytes that stands for.\<close>

definition quoteChunk :: "(string \<Rightarrow> bool) \<Rightarrow> string \<Rightarrow> string \<times> nat" where
  "quoteChunk p s =
     (case s of
        [] \<Rightarrow> ([], 0)
      | c # r \<Rightarrow>
          if of_char c < (0x80 :: nat) then (goQuoteASCII c, 1)
          else
            (case utf8Len s of
               None \<Rightarrow> ([CHR 0x5C, CHR ''x''] @ hexByte c, 1)
             | Some n \<Rightarrow> (goQuoteRune p (take n s), n)))"

lemma quoteChunk_pos: "s \<noteq> [] \<Longrightarrow> 0 < snd (quoteChunk p s) \<and> snd (quoteChunk p s) \<le> length s"
  by (auto simp: quoteChunk_def Suc_le_eq dest: utf8Len_take split: list.splits option.splits)

function goQuoteBody :: "(string \<Rightarrow> bool) \<Rightarrow> string \<Rightarrow> string" where
  "goQuoteBody p s =
     (if s = [] then [] else fst (quoteChunk p s) @ goQuoteBody p (drop (snd (quoteChunk p s)) s))"
  by pat_completeness auto
termination
  using quoteChunk_pos by (relation "measure (\<lambda>(_, s). length s)") auto

declare goQuoteBody.simps [simp del]

definition goQuote :: "(string \<Rightarrow> bool) \<Rightarrow> string \<Rightarrow> string" where
  "goQuote p s = [CHR 0x22] @ goQuoteBody p s @ [CHR 0x22]"

section \<open>Quoting is injective\<close>

text \<open>Reading one chunk back.\<close>

primrec unhex :: "nat \<Rightarrow> nat \<Rightarrow> string \<Rightarrow> (nat \<times> string) option" where
  "unhex 0 acc s = Some (acc, s)"
| "unhex (Suc k) acc s =
     (case s of [] \<Rightarrow> None | c # r \<Rightarrow> (case hexVal c of None \<Rightarrow> None | Some d \<Rightarrow> unhex k (acc * 16 + d) r))"

definition unchunk :: "string \<Rightarrow> (string \<times> string) option" where
  "unchunk s =
     (case s of
        [] \<Rightarrow> None
      | c # r \<Rightarrow>
          if c = CHR 0x5C then
            (case r of
               [] \<Rightarrow> None
             | e # q \<Rightarrow>
                 if e = CHR ''x'' then map_option (\<lambda>(n, q). ([char_of n], q)) (unhex 2 0 q)
                 else if e = CHR ''u'' then map_option (\<lambda>(n, q). (utf8Encode n, q)) (unhex 4 0 q)
                 else if e = CHR ''U'' then map_option (\<lambda>(n, q). (utf8Encode n, q)) (unhex 8 0 q)
                 else if e = CHR ''a'' then Some ([CHR 0x07], q)
                 else if e = CHR ''b'' then Some ([CHR 0x08], q)
                 else if e = CHR ''f'' then Some ([CHR 0x0C], q)
                 else if e = CHR ''n'' then Some ([CHR 0x0A], q)
                 else if e = CHR ''r'' then Some ([CHR 0x0D], q)
                 else if e = CHR ''t'' then Some ([CHR 0x09], q)
                 else if e = CHR ''v'' then Some ([CHR 0x0B], q)
                 else Some ([e], q))
          else
            (case utf8Len s of None \<Rightarrow> None | Some n \<Rightarrow> Some (take n s, drop n s)))"

lemma unhex_append: "length s = k \<Longrightarrow> unhex (k + j) acc (s @ r) = (case unhex k acc s of None \<Rightarrow> None | Some (n, _) \<Rightarrow> unhex j n r)"
  by (induction k arbitrary: acc s) (auto simp: length_Suc_conv split: option.splits)

lemma hexDigits_length [simp]: "length (hexDigits k n) = k"
  by (induction k arbitrary: n) simp_all

lemma unhex_hexDigits: "n < 16 ^ k \<Longrightarrow> unhex k acc (hexDigits k n @ r) = Some (acc * 16 ^ k + n, r)"
proof (induction k arbitrary: n acc r)
  case (Suc k)
  have "n div 16 < 16 ^ k" using Suc.prems by (simp add: less_mult_imp_div_less)
  note ih = Suc.IH [OF this]
  have "unhex (k + 1) acc ((hexDigits k (n div 16)) @ hexDigit (n mod 16) # r) =
      unhex 1 (acc * 16 ^ k + n div 16) (hexDigit (n mod 16) # r)"
    using ih [of acc "[]"] by (subst unhex_append) simp_all
  also have "\<dots> = Some (acc * 16 ^ Suc k + n, r)"
    by (simp add: hexVal_hexDigit algebra_simps)
  finally show ?case by simp
qed simp

lemma unhex_hexByte: "unhex 2 0 (hexByte c @ r) = Some (of_char c, r)"
proof -
  have "of_char c < (256 :: nat)" by simp
  then have "hexDigits 2 (of_char c) = hexByte c"
    by (simp add: numeral_2_eq_2 hexByte_def less_mult_imp_div_less)
  moreover have "of_char c < (16 :: nat) ^ 2" using \<open>of_char c < (256 :: nat)\<close> by simp
  ultimately show ?thesis using unhex_hexDigits [of "of_char c" 2 0 r] by simp
qed

lemma utf8Encode_bytes:
  fixes x y z v :: nat
  assumes "y < 64" "z < 64" "v < 64"
  shows "2 \<le> x \<Longrightarrow> x < 32 \<Longrightarrow> utf8Encode (x * 64 + y) = [char_of (0xC0 + x), char_of (0x80 + y)]"
    "x < 16 \<Longrightarrow> 0x800 \<le> x * 4096 + y * 64 + z \<Longrightarrow>
      utf8Encode (x * 4096 + y * 64 + z) = [char_of (0xE0 + x), char_of (0x80 + y), char_of (0x80 + z)]"
    "0x10000 \<le> x * 262144 + y * 4096 + z * 64 + v \<Longrightarrow>
      utf8Encode (x * 262144 + y * 4096 + z * 64 + v) =
        [char_of (0xF0 + x), char_of (0x80 + y), char_of (0x80 + z), char_of (0x80 + v)]"
proof -
  have d: "n div 4096 = n div 64 div 64" "n div 262144 = n div 64 div 64 div 64" for n :: nat by (simp_all flip: div_mult2_eq)
  have st: "(y + 64 * q) div 64 = q" "(y + 64 * q) mod 64 = y" "(z + 64 * q) div 64 = q" "(z + 64 * q) mod 64 = z"
    "(v + 64 * q) div 64 = q" "(v + 64 * q) mod 64 = v" for q
    using assms by simp_all
  have e: "x * 4096 + y * 64 + z = z + 64 * (y + 64 * x)"
    "x * 262144 + y * 4096 + z * 64 + v = v + 64 * (z + 64 * (y + 64 * x))" by simp_all
  have three: "(x * 4096 + y * 64 + z) div 4096 = x" "(x * 4096 + y * 64 + z) div 64 mod 64 = y" "(x * 4096 + y * 64 + z) mod 64 = z"
    unfolding e d st by (rule refl)+
  have four: "(x * 262144 + y * 4096 + z * 64 + v) div 262144 = x" "(x * 262144 + y * 4096 + z * 64 + v) div 4096 mod 64 = y"
    "(x * 262144 + y * 4096 + z * 64 + v) div 64 mod 64 = z" "(x * 262144 + y * 4096 + z * 64 + v) mod 64 = v"
    unfolding e d st by (rule refl)+
  show "utf8Encode (x * 64 + y) = [char_of (0xC0 + x), char_of (0x80 + y)]" if "2 \<le> x" "x < 32"
    using assms that by (simp add: utf8Encode_def)
  show "utf8Encode (x * 4096 + y * 64 + z) = [char_of (0xE0 + x), char_of (0x80 + y), char_of (0x80 + z)]"
    if "x < 16" "0x800 \<le> x * 4096 + y * 64 + z"
    using assms that unfolding utf8Encode_def three by simp
  show "utf8Encode (x * 262144 + y * 4096 + z * 64 + v) =
        [char_of (0xF0 + x), char_of (0x80 + y), char_of (0x80 + z), char_of (0x80 + v)]"
    if "0x10000 \<le> x * 262144 + y * 4096 + z * 64 + v"
    using that unfolding utf8Encode_def four by simp
qed

lemma between_split:
  assumes "between lo hi c"
  obtains x :: nat where "of_char c = lo + x" "c = char_of (lo + x)" "x \<le> hi - lo"
  using assms that [of "of_char c - lo"] by (simp add: between_def diff_le_mono)

lemma utf8Encode_runeOf:
  assumes "utf8Len s = Some n" "s = c # t" "\<not> of_char c < (0x80 :: nat)"
  shows "utf8Encode (runeOf (take n s)) = take n s \<and> runeOf (take n s) < 0x110000"
proof -
  have n: "n = runeBytes (of_char c)" "0 < n" "n \<le> length s" "continues (of_char c) (take (n - 1) t)"
    using assms by (auto simp: utf8Len_Some)
  consider (two) "n = 2" "between 0xC2 0xDF c" | (three) "n = 3" "between 0xE0 0xEF c" | (four) "n = 4" "between 0xF0 0xF4 c"
    using n(1,2) assms(3) by (auto simp: runeBytes_def between_def split: if_splits)
  then show ?thesis
  proof cases
    case two
    then obtain d u where t: "t = d # u" using n(3) assms(2) by (cases t) auto
    have d: "between 0xC0 0xDF c" "between 0x80 0xBF d" using n(4) two t by (auto simp: continues_def between_def split: if_splits)
    obtain x :: nat where x: "of_char c = 0xC0 + x" "c = char_of (0xC0 + x)" "x \<le> 0xDF - 0xC0" by (rule between_split [OF d(1)])
    obtain y :: nat where y: "of_char d = 0x80 + y" "d = char_of (0x80 + y)" "y \<le> 0xBF - 0x80" by (rule between_split [OF d(2)])
    have "2 \<le> x" using two x(1) by (simp add: between_def)
    moreover have "take n s = [c, d]" using two t assms(2) by (simp add: numeral_2_eq_2)
    ultimately show ?thesis using x y utf8Encode_bytes(1) [where x = x and y = y and z = 0 and v = 0] by (simp add: runeOf_def)
  next
    case three
    then obtain d e u where t: "t = d # e # u" using n(3) assms(2) by (cases t; cases "tl t") auto
    have d: "between 0x80 0xBF d" "between 0x80 0xBF e" "of_char c = (0xE0 :: nat) \<Longrightarrow> (0xA0 :: nat) \<le> of_char d"
      using n(4) three t by (auto simp: continues_def between_def split: if_splits)
    obtain x :: nat where x: "of_char c = 0xE0 + x" "c = char_of (0xE0 + x)" "x \<le> 0xEF - 0xE0" by (rule between_split [OF three(2)])
    obtain y :: nat where y: "of_char d = 0x80 + y" "d = char_of (0x80 + y)" "y \<le> 0xBF - 0x80" by (rule between_split [OF d(1)])
    obtain z :: nat where z: "of_char e = 0x80 + z" "e = char_of (0x80 + z)" "z \<le> 0xBF - 0x80" by (rule between_split [OF d(2)])
    have "0x800 \<le> x * 4096 + y * 64 + z" using d(3) x(1) y(1) by (cases "x = 0") auto
    moreover have "take n s = [c, d, e]" using three t assms(2) by (simp add: numeral_3_eq_3)
    ultimately show ?thesis using x y z utf8Encode_bytes(2) [where x = x and y = y and z = z and v = 0] by (simp add: runeOf_def)
  next
    case four
    then obtain d e f u where t: "t = d # e # f # u" using n(3) assms(2) by (cases t; cases "tl t"; cases "tl (tl t)") auto
    have d: "between 0x80 0xBF d" "between 0x80 0xBF e" "between 0x80 0xBF f" "of_char c = (0xF0 :: nat) \<Longrightarrow> (0x90 :: nat) \<le> of_char d"
      "of_char c = (0xF4 :: nat) \<Longrightarrow> of_char d \<le> (0x8F :: nat)"
      using n(4) four t by (auto simp: continues_def between_def split: if_splits)
    obtain x :: nat where x: "of_char c = 0xF0 + x" "c = char_of (0xF0 + x)" "x \<le> 0xF4 - 0xF0" by (rule between_split [OF four(2)])
    obtain y :: nat where y: "of_char d = 0x80 + y" "d = char_of (0x80 + y)" "y \<le> 0xBF - 0x80" by (rule between_split [OF d(1)])
    obtain z :: nat where z: "of_char e = 0x80 + z" "e = char_of (0x80 + z)" "z \<le> 0xBF - 0x80" by (rule between_split [OF d(2)])
    obtain v :: nat where v: "of_char f = 0x80 + v" "f = char_of (0x80 + v)" "v \<le> 0xBF - 0x80" by (rule between_split [OF d(3)])
    have "0x10000 \<le> x * 262144 + y * 4096 + z * 64 + v" using d(4) x(1) y(1) by (cases "x = 0") auto
    moreover have "x * 262144 + y * 4096 + z * 64 + v < 0x110000" using d(5) x y z v by (cases "x = 4") auto
    moreover have "take n s = [c, d, e, f]" using four t assms(2) by (simp add: eval_nat_numeral)
    ultimately show ?thesis using x y z v utf8Encode_bytes(3) [where x = x and y = y and z = z and v = v] by (simp add: runeOf_def)
  qed
qed

lemma unchunk_ascii:
  assumes "of_char c < (0x80 :: nat)"
  shows "unchunk (goQuoteASCII c @ r) = Some ([c], r) \<and> hd (goQuoteASCII c) \<noteq> CHR 0x22"
proof -
  consider (short) "c = CHR 0x22 \<or> c = CHR 0x5C \<or> c = CHR 0x07 \<or> c = CHR 0x08 \<or> c = CHR 0x0C \<or> c = CHR 0x0A \<or>
      c = CHR 0x0D \<or> c = CHR 0x09 \<or> c = CHR 0x0B"
    | (plain) "goQuoteASCII c = [c]" "c \<noteq> CHR 0x22" "c \<noteq> CHR 0x5C"
    | (hex) "goQuoteASCII c = [CHR 0x5C, CHR ''x''] @ hexByte c"
    unfolding goQuoteASCII_def by presburger
  then show ?thesis
  proof cases
    case short
    then show ?thesis by (elim disjE) (simp_all add: goQuoteASCII_def unchunk_def between_def)
  next
    case plain
    then show ?thesis using assms by (simp add: unchunk_def utf8Len_ascii)
  next
    case hex
    then show ?thesis using unhex_hexByte [of c r] by (simp add: unchunk_def)
  qed
qed

lemma unchunk_rune:
  assumes "utf8Len s = Some n" "s = c # t" "\<not> of_char c < (0x80 :: nat)"
  shows "unchunk (goQuoteRune p (take n s) @ r) = Some (take n s, r) \<and> hd (goQuoteRune p (take n s)) \<noteq> CHR 0x22"
proof -
  note u = utf8Len_take [OF assms(1)] and e = utf8Encode_runeOf [OF assms]
  let ?x = "runeOf (take n s)"
  obtain t' where t': "take n s = c # t'" using u(1) assms(2) by (cases n) auto
  have nl: "length (take n s) = n" using u(2) by simp
  have c: "c \<noteq> CHR 0x5C" "c \<noteq> CHR 0x22" using assms(3) by auto
  show ?thesis
  proof (cases "p (take n s)")
    case True
    have "unchunk (take n s @ r) = Some (take n (take n s @ r), drop n (take n s @ r))"
      using u(3) [of r] c(1) unfolding t' by (simp add: unchunk_def)
    also have "\<dots> = Some (take n s, r)" using u(2) by simp
    finally show ?thesis using True c(2) t' by (simp add: goQuoteRune_def)
  next
    case False
    show ?thesis
    proof (cases "?x < 0x10000")
      case True
      then have "unhex 4 0 (hexDigits 4 ?x @ r) = Some (?x, r)" using unhex_hexDigits [of ?x 4 0 r] by simp
      then show ?thesis using False True e by (simp add: goQuoteRune_def unchunk_def)
    next
      case big: False
      have "unhex 8 0 (hexDigits 8 ?x @ r) = Some (?x, r)" using unhex_hexDigits [of ?x 8 0 r] e by simp
      then show ?thesis using False big e by (simp add: goQuoteRune_def unchunk_def)
    qed
  qed
qed

lemma unchunk_quoteChunk:
  assumes "s \<noteq> []"
  shows "unchunk (fst (quoteChunk p s) @ r) = Some (take (snd (quoteChunk p s)) s, r)"
    "\<exists>c q. fst (quoteChunk p s) = c # q \<and> c \<noteq> CHR 0x22"
proof -
  obtain c t where s: "s = c # t" using assms by (cases s) auto
  have q: "unchunk (fst (quoteChunk p s) @ r) = Some (take (snd (quoteChunk p s)) s, r) \<and> hd (fst (quoteChunk p s)) \<noteq> CHR 0x22" for r
  proof (cases "of_char c < (0x80 :: nat)")
    case True
    then show ?thesis using unchunk_ascii [OF True, of r] s by (simp add: quoteChunk_def)
  next
    case False
    show ?thesis
    proof (cases "utf8Len s")
      case None
      then show ?thesis using unhex_hexByte [of c r] s False by (simp add: quoteChunk_def unchunk_def)
    next
      case (Some n)
      then show ?thesis using unchunk_rune [OF Some s False, of p r] False s by (simp add: quoteChunk_def)
    qed
  qed
  then show "unchunk (fst (quoteChunk p s) @ r) = Some (take (snd (quoteChunk p s)) s, r)" by blast
  have "fst (quoteChunk p s) \<noteq> []" using q [of "[]"] by (auto simp: unchunk_def)
  then show "\<exists>c q. fst (quoteChunk p s) = c # q \<and> c \<noteq> CHR 0x22"
    using q by (cases "fst (quoteChunk p s)") auto
qed

lemma goQuoteBody_inj:
  "goQuoteBody p s @ CHR 0x22 # r = goQuoteBody p s' @ CHR 0x22 # r' \<Longrightarrow> s = s' \<and> r = r'"
proof (induction p s arbitrary: s' rule: goQuoteBody.induct)
  case (1 p s)
  let ?k = "snd (quoteChunk p s)" and ?k' = "snd (quoteChunk p s')"
  have step: "goQuoteBody p s = fst (quoteChunk p s) @ goQuoteBody p (drop (snd (quoteChunk p s)) s)" if "s \<noteq> []" for s
    using that by (subst goQuoteBody.simps) simp
  show ?case
  proof (cases "s = [] \<or> s' = []")
    case True
    then show ?thesis
      using "1.prems" unchunk_quoteChunk(2) [of s p] unchunk_quoteChunk(2) [of s' p]
      by (cases "s = []"; cases "s' = []") (auto simp: step goQuoteBody.simps [of p "[]"])
  next
    case False
    have eq: "fst (quoteChunk p s) @ goQuoteBody p (drop ?k s) @ CHR 0x22 # r =
        fst (quoteChunk p s') @ goQuoteBody p (drop ?k' s') @ CHR 0x22 # r'"
      using "1.prems" False step [of s] step [of s'] by simp
    then have t: "take ?k s = take ?k' s'" "goQuoteBody p (drop ?k s) @ CHR 0x22 # r = goQuoteBody p (drop ?k' s') @ CHR 0x22 # r'"
      using unchunk_quoteChunk(1) [of s p "goQuoteBody p (drop ?k s) @ CHR 0x22 # r"]
        unchunk_quoteChunk(1) [of s' p "goQuoteBody p (drop ?k' s') @ CHR 0x22 # r'"] False by auto
    have "drop ?k s = drop ?k' s' \<and> r = r'" using "1.IH" t(2) False by blast
    then show ?thesis using t(1) by (metis append_take_drop_id)
  qed
qed

lemma goQuote_inj: "goQuote p s @ r = goQuote p s' @ r' \<Longrightarrow> s = s' \<and> r = r'"
  using goQuoteBody_inj [of p s r s' r'] by (simp add: goQuote_def)

end
