(* ===== verification/View.thy ===== *)
theory View
  imports HashRing Sha256 Quote
begin

text \<open>
  A node's view of the cluster (src/internal/node/view.go) and its files (the MEMBERSHIP file of
  membership.go and the HANDOFF file of handoff.go): the members with their addresses, the ring built
  from exactly them, and the fingerprint of what determines placement. A file is modelled as the JSON
  value it holds: \<open>MarshalIndent\<close> only adds white space between the tokens, which the decoder skips.
  A parameter \<open>U\<close> is the table of printable runes of \<open>%q\<close> (theory Quote).
\<close>

section \<open>Definitions\<close>

subsection \<open>Views\<close>

record ClusterView =
  vEpoch :: u64
  vFingerprint :: string
  vMembers :: "(nodeID, string) fmap"
  vRing :: HashRing

definition ringScheme :: string where
  "ringScheme = ''ring-v1''"

definition defaultVirtualNodesPerPhysical :: nat where
  "defaultVirtualNodesPerPhysical = 150"

definition memberIDs :: "(nodeID, string) fmap \<Rightarrow> nodeID list" where
  "memberIDs members = sorted_list_of_fset (fmdom members)"

definition addrOf :: "(nodeID, string) fmap \<Rightarrow> nodeID \<Rightarrow> string" where
  "addrOf members i = (case fmlookup members i of None \<Rightarrow> [] | Some a \<Rightarrow> a)"

abbreviation nl :: char where
  "nl \<equiv> CHR 0x0A"

text \<open>What is hashed for the fingerprint.\<close>

definition memberLine :: "(string \<Rightarrow> bool) \<Rightarrow> nodeID \<times> string \<Rightarrow> string" where
  "memberLine U m = ''member '' @ goQuote U (fst m) @ '' '' @ goQuote U (snd m) @ [nl]"

definition placementText :: "(string \<Rightarrow> bool) \<Rightarrow> (nodeID, string) fmap \<Rightarrow> nat \<Rightarrow> string" where
  "placementText U members n =
     concat (map (\<lambda>i. memberLine U (i, addrOf members i)) (memberIDs members)) @
     ''n '' @ itoa n @ [nl] @ ''vnodes '' @ itoa defaultVirtualNodesPerPhysical @ [nl] @
     ''scheme '' @ ringScheme @ [nl]"

definition fingerprint :: "(string \<Rightarrow> bool) \<Rightarrow> (nodeID, string) fmap \<Rightarrow> nat \<Rightarrow> string" where
  "fingerprint U members n = hexEncode (sha256 (placementText U members n))"

definition buildView ::
  "(string \<Rightarrow> bool) \<Rightarrow> u64 \<Rightarrow> (nodeID, string) fmap \<Rightarrow> nat \<Rightarrow> ringError + ClusterView" where
  "buildView U e members n =
     (case NewHashRingFromMembers defaultVirtualNodesPerPhysical (memberIDs members) of
        Inl err \<Rightarrow> Inl err
      | Inr hr \<Rightarrow> Inr \<lparr>vEpoch = e, vFingerprint = fingerprint U members n, vMembers = members, vRing = hr\<rparr>)"

definition initialView ::
  "(string \<Rightarrow> bool) \<Rightarrow> nodeID \<Rightarrow> string \<Rightarrow> (nodeID, string) fmap \<Rightarrow> nat \<Rightarrow> ringError + ClusterView" where
  "initialView U i address neighborAddrs n = buildView U 0 (fmupd i address neighborAddrs) n"

datatype memberError =
    NoMembers | TooFewMembers | EmptyID | BadID nodeID | EmptyAddress nodeID | SharedAddress nodeID nodeID

fun checkMembers :: "(nodeID, string) fmap \<Rightarrow> (string, nodeID) fmap \<Rightarrow> nodeID list \<Rightarrow> memberError option" where
  "checkMembers members byAddr [] = None"
| "checkMembers members byAddr (i # ids) =
     (let addr = addrOf members i in
      if i = [] then Some EmptyID
      else if CHR ''#'' \<in> set i \<or> CHR 0x00 \<in> set i then Some (BadID i)
      else if addr = [] then Some (EmptyAddress i)
      else
        (case fmlookup byAddr addr of
           Some other \<Rightarrow> Some (SharedAddress other i)
         | None \<Rightarrow> checkMembers members (fmupd addr i byAddr) ids))"

definition validateMembers :: "(nodeID, string) fmap \<Rightarrow> nat \<Rightarrow> memberError option" where
  "validateMembers members n =
     (if fcard (fmdom members) = 0 then Some NoMembers
      else if fcard (fmdom members) < n then Some TooFewMembers
      else checkMembers members fmempty (memberIDs members))"

subsection \<open>Files\<close>

record membershipFile =
  mfEpoch :: nat
  mfMembers :: "(nodeID, string) fmap"
  mfFingerprint :: string

text \<open>Encoding a string as JSON replaces each byte that is not UTF-8 by U+FFFD.\<close>

function toUtf8 :: "string \<Rightarrow> string" where
  "toUtf8 s =
     (if s = [] then []
      else
        (case utf8Len s of
           None \<Rightarrow> replacementRune @ toUtf8 (tl s)
         | Some n \<Rightarrow> take n s @ toUtf8 (drop n s)))"
  by pat_completeness auto
termination
  by (relation "measure length") (auto dest: utf8Len_shorter)

declare toUtf8.simps [simp del]

definition membersJson :: "(nodeID, string) fmap \<Rightarrow> json" where
  "membersJson members = JObj (map (\<lambda>i. (toUtf8 i, JStr (toUtf8 (addrOf members i)))) (memberIDs members))"

definition membershipJson :: "ClusterView \<Rightarrow> json" where
  "membershipJson v =
     JObj [(''epoch'', JNum (itoa (unat (vEpoch v)))), (''members'', membersJson (vMembers v)),
           (''fingerprint'', JStr (toUtf8 (vFingerprint v)))]"

definition setAddr :: "(nodeID, string) fmap option \<Rightarrow> string \<times> json \<Rightarrow> (nodeID, string) fmap option" where
  "setAddr acc m =
     (case acc of
        None \<Rightarrow> None
      | Some f \<Rightarrow> map_option (\<lambda>a. fmupd (fst m) a f) (setString (snd m) []))"

definition setMembers :: "json \<Rightarrow> (nodeID, string) fmap \<Rightarrow> (nodeID, string) fmap option" where
  "setMembers j prev =
     (case j of JNull \<Rightarrow> Some fmempty | JObj ms \<Rightarrow> foldl setAddr (Some prev) ms | _ \<Rightarrow> None)"

text \<open>Decoding with unknown fields disallowed.\<close>

definition setMembershipField :: "membershipFile \<Rightarrow> string \<Rightarrow> json \<Rightarrow> membershipFile option" where
  "setMembershipField f k j =
     (if fieldIs k ''epoch'' then map_option (\<lambda>e. f\<lparr>mfEpoch := e\<rparr>) (setUint 64 j (mfEpoch f))
      else if fieldIs k ''members'' then map_option (\<lambda>m. f\<lparr>mfMembers := m\<rparr>) (setMembers j (mfMembers f))
      else if fieldIs k ''fingerprint'' then map_option (\<lambda>s. f\<lparr>mfFingerprint := s\<rparr>) (setString j (mfFingerprint f))
      else None)"

text \<open>A file: not there, not readable, or holding a text; a text that is not JSON is None.\<close>

datatype fileRead = Missing | Unreadable | Holds "json option"

datatype loadError =
    ReadError | CorruptFile | InvalidFile memberError | RingFailed ringError | FingerprintDiffers

definition loadMembership ::
  "(string \<Rightarrow> bool) \<Rightarrow> fileRead \<Rightarrow> nat \<Rightarrow> loadError + ClusterView option" where
  "loadMembership U f n =
     (case f of
        Missing \<Rightarrow> Inr None
      | Unreadable \<Rightarrow> Inl ReadError
      | Holds None \<Rightarrow> Inl CorruptFile
      | Holds (Some j) \<Rightarrow>
          (case unmarshalStruct setMembershipField \<lparr>mfEpoch = 0, mfMembers = fmempty, mfFingerprint = []\<rparr> j of
             None \<Rightarrow> Inl CorruptFile
           | Some mf \<Rightarrow>
               (case validateMembers (mfMembers mf) n of
                  Some err \<Rightarrow> Inl (InvalidFile err)
                | None \<Rightarrow>
                    (case buildView U (word_of_nat (mfEpoch mf)) (mfMembers mf) n of
                       Inl err \<Rightarrow> Inl (RingFailed err)
                     | Inr v \<Rightarrow>
                         if vFingerprint v \<noteq> mfFingerprint mf then Inl FingerprintDiffers else Inr (Some v)))))"

definition handoffJson :: "ClusterView \<Rightarrow> json" where
  "handoffJson v = JObj [(''epoch'', JNum (itoa (unat (vEpoch v)))), (''members'', membersJson (vMembers v))]"

definition setHandoffField :: "membershipFile \<Rightarrow> string \<Rightarrow> json \<Rightarrow> membershipFile option" where
  "setHandoffField f k j =
     (if fieldIs k ''epoch'' then map_option (\<lambda>e. f\<lparr>mfEpoch := e\<rparr>) (setUint 64 j (mfEpoch f))
      else if fieldIs k ''members'' then map_option (\<lambda>m. f\<lparr>mfMembers := m\<rparr>) (setMembers j (mfMembers f))
      else None)"

definition loadHandoff ::
  "(string \<Rightarrow> bool) \<Rightarrow> fileRead \<Rightarrow> nat \<Rightarrow> loadError + ClusterView option" where
  "loadHandoff U f n =
     (case f of
        Missing \<Rightarrow> Inr None
      | Unreadable \<Rightarrow> Inl ReadError
      | Holds None \<Rightarrow> Inl CorruptFile
      | Holds (Some j) \<Rightarrow>
          (case unmarshalStruct setHandoffField \<lparr>mfEpoch = 0, mfMembers = fmempty, mfFingerprint = []\<rparr> j of
             None \<Rightarrow> Inl CorruptFile
           | Some mf \<Rightarrow>
               (case validateMembers (mfMembers mf) n of
                  Some err \<Rightarrow> Inl (InvalidFile err)
                | None \<Rightarrow>
                    (case buildView U (word_of_nat (mfEpoch mf)) (mfMembers mf) n of
                       Inl err \<Rightarrow> Inl (RingFailed err)
                     | Inr v \<Rightarrow> Inr (Some v)))))"

section \<open>Valid member sets\<close>

lemma memberIDs_set [simp]: "set (memberIDs m) = fset (fmdom m)"
  by (simp add: memberIDs_def sorted_list_of_fset.rep_eq)

lemma memberIDs_distinct [simp]: "distinct (memberIDs m)"
  by (simp add: memberIDs_def sorted_list_of_fset.rep_eq)

lemma checkMembers_spec:
  "distinct ids \<Longrightarrow> checkMembers members byAddr ids = None \<longleftrightarrow>
    (\<forall>i \<in> set ids. i \<noteq> [] \<and> CHR ''#'' \<notin> set i \<and> CHR 0x00 \<notin> set i \<and> addrOf members i \<noteq> [] \<and>
       fmlookup byAddr (addrOf members i) = None) \<and> inj_on (addrOf members) (set ids)"
proof (induction ids arbitrary: byAddr)
  case (Cons i ids)
  show ?case
  proof (cases "i = [] \<or> CHR ''#'' \<in> set i \<or> CHR 0x00 \<in> set i \<or> addrOf members i = [] \<or> fmlookup byAddr (addrOf members i) \<noteq> None")
    case True
    then show ?thesis by (auto simp: Let_def split: option.splits)
  next
    case False
    with Cons show ?thesis by (auto simp: Let_def inj_on_def)
  qed
qed simp

lemma validateMembers_spec:
  "validateMembers members n = None \<longleftrightarrow> fmdom members \<noteq> {||} \<and> n \<le> fcard (fmdom members) \<and>
    (\<forall>i \<in> fset (fmdom members). i \<noteq> [] \<and> CHR ''#'' \<notin> set i \<and> CHR 0x00 \<notin> set i \<and> addrOf members i \<noteq> []) \<and>
    inj_on (addrOf members) (fset (fmdom members))"
  using checkMembers_spec [OF memberIDs_distinct, of members fmempty]
  by (auto simp: validateMembers_def)

lemma checkMemberIDs_ok: "distinct ids \<Longrightarrow> set ids \<inter> set seen = {} \<Longrightarrow> [] \<notin> set ids \<Longrightarrow> checkMemberIDs seen ids = None"
  by (induction ids arbitrary: seen) auto

text \<open>A valid member set has a ring, so a view.\<close>

lemma buildView_valid:
  assumes "validateMembers members n = None"
  shows "\<exists>v. buildView U e members n = Inr v \<and> vEpoch v = e \<and> vMembers v = members \<and> vFingerprint v = fingerprint U members n"
proof -
  have "checkMemberIDs [] (memberIDs members) = None"
    using assms by (intro checkMemberIDs_ok) (auto simp: validateMembers_spec)
  then show ?thesis by (simp add: buildView_def NewHashRingFromMembers_def)
qed

section \<open>The text behind a fingerprint\<close>

lemma memberLines_inj:
  "concat (map (memberLine U) xs) @ CHR ''n'' # r = concat (map (memberLine U) ys) @ CHR ''n'' # r' \<Longrightarrow> xs = ys \<and> r = r'"
proof (induction xs arbitrary: ys)
  case Nil
  then show ?case by (cases ys) (auto simp: memberLine_def)
next
  case (Cons x xs)
  then obtain y ys' where ys: "ys = y # ys'" by (cases ys) (auto simp: memberLine_def)
  have "goQuote U (fst x) @ CHR '' '' # goQuote U (snd x) @ nl # concat (map (memberLine U) xs) @ CHR ''n'' # r =
      goQuote U (fst y) @ CHR '' '' # goQuote U (snd y) @ nl # concat (map (memberLine U) ys') @ CHR ''n'' # r'"
    using Cons.prems by (simp add: ys memberLine_def [of U x] memberLine_def [of U y])
  then have "fst x = fst y" "goQuote U (snd x) @ nl # concat (map (memberLine U) xs) @ CHR ''n'' # r =
      goQuote U (snd y) @ nl # concat (map (memberLine U) ys') @ CHR ''n'' # r'"
    by (auto dest: goQuote_inj)
  then have "x = y" "concat (map (memberLine U) xs) @ CHR ''n'' # r = concat (map (memberLine U) ys') @ CHR ''n'' # r'"
    by (auto dest: goQuote_inj intro: prod_eqI)
  with Cons.IH ys show ?case by blast
qed

lemma members_eqI:
  assumes "map (\<lambda>i. (i, addrOf m i)) (memberIDs m) = map (\<lambda>i. (i, addrOf m' i)) (memberIDs m')"
  shows "m = m'"
proof (rule fmap_ext)
  fix i
  have "set (map (\<lambda>i. (i, addrOf m i)) (memberIDs m)) = set (map (\<lambda>i. (i, addrOf m' i)) (memberIDs m'))"
    using assms by (rule arg_cong)
  then have "(i \<in> fset (fmdom m) \<and> a = addrOf m i) = (i \<in> fset (fmdom m') \<and> a = addrOf m' i)" for a
    by (auto simp: set_eq_iff image_iff)
  then have "(i \<in> fset (fmdom m)) = (i \<in> fset (fmdom m'))" "i \<in> fset (fmdom m) \<Longrightarrow> addrOf m i = addrOf m' i" by blast+
  then show "fmlookup m i = fmlookup m' i"
    by (cases "fmlookup m i"; cases "fmlookup m' i") (auto simp: addrOf_def fmlookup_dom_iff)
qed

lemma placementText_inj:
  assumes "placementText U m n = placementText U m' n'"
  shows "m = m' \<and> n = n'"
proof -
  let ?l = "\<lambda>m. map (\<lambda>i. (i, addrOf m i)) (memberIDs m)"
  let ?t = "\<lambda>n. '' '' @ itoa n @ [nl] @ ''vnodes '' @ itoa defaultVirtualNodesPerPhysical @ [nl] @ ''scheme '' @ ringScheme @ [nl]"
  have t: "placementText U m n = concat (map (memberLine U) (?l m)) @ CHR ''n'' # ?t n" for m n
    by (simp add: placementText_def comp_def)
  from memberLines_inj [OF assms [unfolded t]] have "?l m = ?l m'" "?t n = ?t n'" by blast+
  then show ?thesis using members_eqI by (auto dest: itoa_inj)
qed

section \<open>The files read back\<close>

lemma toUtf8_valid: "validUtf8 s \<Longrightarrow> toUtf8 s = s"
proof (induction s rule: toUtf8.induct)
  case (1 s)
  then show ?case
    by (subst toUtf8.simps) (auto simp: validUtf8.simps [of s] split: option.splits)
qed

lemma hexDigit_ascii: "n < 16 \<Longrightarrow> of_char (hexDigit n) < (0x80 :: nat)"
  by (simp add: hexDigit_def)

lemma validUtf8_ascii: "(\<And>c. c \<in> set s \<Longrightarrow> of_char c < (0x80 :: nat)) \<Longrightarrow> validUtf8 s"
  by (induction s) (auto simp: validUtf8.simps [of "c # s" for c s] utf8Len_ascii)

lemma validUtf8_fingerprint: "validUtf8 (fingerprint U m n)"
proof (rule validUtf8_ascii)
  fix c assume "c \<in> set (fingerprint U m n)"
  then obtain b where "c \<in> set (hexByte b)" by (auto simp: fingerprint_def hexEncode_def)
  then show "of_char c < (0x80 :: nat)"
    by (auto simp: hexByte_def less_mult_imp_div_less intro!: hexDigit_ascii)
qed

lemma setAddr_JStr: "setAddr (Some f) (i, JStr a) = Some (fmupd i a f)"
  by (simp add: setAddr_def setString_def)

text \<open>Member sets whose texts JSON keeps as they are.\<close>

definition membersUtf8 :: "(nodeID, string) fmap \<Rightarrow> bool" where
  "membersUtf8 m \<longleftrightarrow> (\<forall>i \<in> fset (fmdom m). validUtf8 i \<and> validUtf8 (addrOf m i))"

lemma setMembers_json:
  assumes "membersUtf8 m"
  shows "setMembers (membersJson m) fmempty = Some m"
proof -
  have "foldl setAddr (Some f) (map (\<lambda>i. (i, JStr (addrOf m i))) ids) =
      Some (fmadd f (fmap_of_list (map (\<lambda>i. (i, addrOf m i)) (rev ids))))" for f ids
  proof (induction ids arbitrary: f)
    case (Cons i ids)
    show ?case by (simp add: setAddr_JStr Cons.IH)
  qed simp
  moreover have "fmap_of_list (map (\<lambda>i. (i, addrOf m i)) (rev (memberIDs m))) = m"
  proof (rule fmap_ext)
    fix i
    have "map_of (map (\<lambda>i. (i, addrOf m i)) (rev (memberIDs m))) i = (if i \<in> set (memberIDs m) then Some (addrOf m i) else None)"
      by (simp add: map_of_map_restrict restrict_map_def)
    then show "fmlookup (fmap_of_list (map (\<lambda>i. (i, addrOf m i)) (rev (memberIDs m)))) i = fmlookup m i"
      by (cases "fmlookup m i") (auto simp: fmlookup_of_list addrOf_def fmlookup_dom_iff fmdomI)
  qed
  moreover have j: "map (\<lambda>i. (toUtf8 i, JStr (toUtf8 (addrOf m i)))) (memberIDs m) = map (\<lambda>i. (i, JStr (addrOf m i))) (memberIDs m)"
    using assms by (auto simp: membersUtf8_def toUtf8_valid)
  ultimately show ?thesis unfolding setMembers_def membersJson_def j by simp
qed

text \<open>A view that a node may hold: built from a valid member set.\<close>

definition viewOk :: "(string \<Rightarrow> bool) \<Rightarrow> nat \<Rightarrow> ClusterView \<Rightarrow> bool" where
  "viewOk U n v \<longleftrightarrow> validateMembers (vMembers v) n = None \<and> membersUtf8 (vMembers v) \<and>
     buildView U (vEpoch v) (vMembers v) n = Inr v"

lemma viewOk_fingerprint: "viewOk U n v \<Longrightarrow> vFingerprint v = fingerprint U (vMembers v) n"
  using buildView_valid [of "vMembers v" n U "vEpoch v"] by (auto simp: viewOk_def)

lemma fieldIs_simps:
  "fieldIs ''epoch'' ''epoch''" "\<not> fieldIs ''members'' ''epoch''" "\<not> fieldIs ''fingerprint'' ''epoch''"
  "fieldIs ''members'' ''members''" "\<not> fieldIs ''fingerprint'' ''members''" "fieldIs ''fingerprint'' ''fingerprint''"
  by (simp_all add: fieldIs_def foldCase_def between_def)

lemma unat_epoch: "unat (e :: u64) < 2 ^ 64"
  using unsigned_less [of e] by simp

lemma loadMembership_membershipJson:
  assumes "viewOk U n v"
  shows "loadMembership U (Holds (Some (membershipJson v))) n = Inr (Some v)"
proof -
  have "unmarshalStruct setMembershipField \<lparr>mfEpoch = 0, mfMembers = fmempty, mfFingerprint = []\<rparr> (membershipJson v) =
      Some \<lparr>mfEpoch = unat (vEpoch v), mfMembers = vMembers v, mfFingerprint = vFingerprint v\<rparr>"
    using assms setMembers_json [of "vMembers v"] toUtf8_valid [OF validUtf8_fingerprint [of U "vMembers v" n]]
      viewOk_fingerprint [OF assms]
    by (simp add: unmarshalStruct_def membershipJson_def setMembershipField_def fieldIs_simps setUint_def setString_def
        parseUint_itoa unat_epoch viewOk_def del: power_numeral)
  then show ?thesis using assms by (simp add: loadMembership_def viewOk_def)
qed

lemma loadHandoff_handoffJson:
  assumes "viewOk U n v"
  shows "loadHandoff U (Holds (Some (handoffJson v))) n = Inr (Some v)"
proof -
  have "unmarshalStruct setHandoffField \<lparr>mfEpoch = 0, mfMembers = fmempty, mfFingerprint = []\<rparr> (handoffJson v) =
      Some \<lparr>mfEpoch = unat (vEpoch v), mfMembers = vMembers v, mfFingerprint = []\<rparr>"
    using assms setMembers_json [of "vMembers v"]
    by (simp add: unmarshalStruct_def handoffJson_def setHandoffField_def fieldIs_simps setUint_def
        parseUint_itoa unat_epoch viewOk_def del: power_numeral)
  then show ?thesis using assms by (simp add: loadHandoff_def viewOk_def)
qed

section \<open>Properties\<close>

text \<open>
  C11: The text that is hashed into a fingerprint determines placement: two memberships and values of N
  give the same text only if they are the same, whatever bytes IDs and addresses hold.
\<close>

theorem placement_text_exact: "placementText U m n = placementText U m' n' \<longleftrightarrow> m = m' \<and> n = n'"
  using placementText_inj by blast

end
