(* ===== verification/VectorClock.thy ===== *)
theory VectorClock
  imports KV_Prelude
begin

text \<open>
  The vector clocks of src/internal/vectorclock. A clock's state is Go's
  \<open>map[string]uint32\<close>; a missing entry reads as 0, so two different maps can stand for the
  same clock (an explicit 0 against no entry). \<open>vcAt\<close> is that read; it maps a clock to the function
  from node ids to counters it stands for, and the pointwise order of those functions is the causal
  order that \<open>CompareSnapshots\<close> decides.

  The mutex of a clock protects single calls and is not part of the model: each operation here is
  one critical section.
\<close>

section \<open>Definitions\<close>

datatype Relation = Equal | Before | After | Concurrent

type_synonym vclock = "(nodeID, u32) fmap"

text \<open>Go's \<open>m[node]\<close> on a map of counters.\<close>

definition vcAt :: "vclock \<Rightarrow> nodeID \<Rightarrow> u32" where
  "vcAt vc node = (case fmlookup vc node of None \<Rightarrow> 0 | Some v \<Rightarrow> v)"

definition vcNew :: vclock where
  "vcNew = fmempty"

definition Increment :: "vclock \<Rightarrow> nodeID \<Rightarrow> vclock" where
  "Increment vc node = fmupd node (vcAt vc node + 1) vc"

text \<open>A copy of the state: the copying loop assigns each entry once.\<close>

definition Snapshot :: "vclock \<Rightarrow> vclock" where
  "Snapshot vc = fmadd fmempty vc"

text \<open>
  The loop over \<open>seen\<close> (the union of both key sets) only ever sets the two flags, so each flag is
  an existence test over \<open>seen\<close>.
\<close>

definition CompareSnapshots :: "vclock \<Rightarrow> vclock \<Rightarrow> Relation" where
  "CompareSnapshots this other =
     (let seen = fmdom this |\<union>| fmdom other;
          isThisGreater = fBex seen (\<lambda>node. vcAt other node < vcAt this node);
          isOtherGreater = fBex seen (\<lambda>node. \<not> vcAt other node < vcAt this node
                                             \<and> vcAt this node < vcAt other node)
      in if isThisGreater \<and> \<not> isOtherGreater then After
         else if \<not> isThisGreater \<and> isOtherGreater then Before
         else if \<not> isThisGreater \<and> \<not> isOtherGreater then Equal
         else Concurrent)"

definition Compare :: "vclock \<Rightarrow> vclock \<Rightarrow> Relation" where
  "Compare vc other = CompareSnapshots (Snapshot vc) (Snapshot other)"

text \<open>A nil context has no entries to copy, as an empty map has none.\<close>

definition BuildFromContext :: "vclock \<Rightarrow> nodeID \<Rightarrow> vclock" where
  "BuildFromContext context node = Increment (fmadd vcNew context) node"

definition FromSnapshot :: "vclock \<Rightarrow> vclock" where
  "FromSnapshot state = fmadd vcNew state"

section \<open>The causal order\<close>

lemma Snapshot_id [simp]: "Snapshot vc = vc"
  by (simp add: Snapshot_def)

lemma FromSnapshot_id [simp]: "FromSnapshot vc = vc"
  by (simp add: FromSnapshot_def vcNew_def)

lemma vcAt_New [simp]: "vcAt vcNew = (\<lambda>_. 0)"
  by (simp add: vcAt_def vcNew_def fun_eq_iff)

lemma vcAt_fmempty [simp]: "vcAt fmempty node = 0"
  by (simp add: vcAt_def)

lemma vcAt_fmupd [simp]: "vcAt (fmupd k v m) n = (if k = n then v else vcAt m n)"
  by (simp add: vcAt_def)

lemma vcAt_notin: "n |\<notin>| fmdom m \<Longrightarrow> vcAt m n = 0"
  by (simp add: vcAt_def fmdom_notD)

lemma vcAt_Increment: "vcAt (Increment vc node) = (vcAt vc)(node := vcAt vc node + 1)"
  by (auto simp: Increment_def fun_eq_iff)

lemma BuildFromContext_alt: "BuildFromContext ctx node = Increment ctx node"
  by (simp add: BuildFromContext_def vcNew_def)

lemma vc_witness:
  "(\<exists>node. node |\<in>| fmdom a |\<union>| fmdom b \<and> vcAt a node < vcAt b node)
    \<longleftrightarrow> (\<exists>node. vcAt a node < vcAt b node)"
  using vcAt_notin by (metis funionCI order_less_irrefl)

lemma vc_not_le: "\<not> vcAt a \<le> vcAt b \<longleftrightarrow> (\<exists>n. vcAt b n < vcAt a n)"
  by (simp add: le_fun_def not_le)

lemma CompareSnapshots_flags:
  "CompareSnapshots this other =
     (if vcAt other \<le> vcAt this then if vcAt this \<le> vcAt other then Equal else After
      else if vcAt this \<le> vcAt other then Before else Concurrent)"
proof -
  have 1: "fBex (fmdom this |\<union>| fmdom other) (\<lambda>n. vcAt other n < vcAt this n)
      \<longleftrightarrow> \<not> vcAt this \<le> vcAt other"
    using vc_witness [of other this] by (auto simp: vc_not_le)
  have 2: "fBex (fmdom this |\<union>| fmdom other)
        (\<lambda>n. \<not> vcAt other n < vcAt this n \<and> vcAt this n < vcAt other n)
      \<longleftrightarrow> \<not> vcAt other \<le> vcAt this"
    using vc_witness [of this other] by (auto simp: vc_not_le dest: order_less_asym)
  show ?thesis
    unfolding CompareSnapshots_def Let_def 1 2 by simp
qed

lemma Compare_cases:
  "Compare a b = Equal \<longleftrightarrow> vcAt a = vcAt b"
  "Compare a b = Before \<longleftrightarrow> vcAt a < vcAt b"
  "Compare a b = After \<longleftrightarrow> vcAt b < vcAt a"
  "Compare a b = Concurrent \<longleftrightarrow> \<not> vcAt a \<le> vcAt b \<and> \<not> vcAt b \<le> vcAt a"
  by (auto simp: Compare_def CompareSnapshots_flags less_le_not_le)

lemma Increment_greater:
  assumes "vcAt vc node \<noteq> - 1"
  shows "vcAt vc < vcAt (Increment vc node)"
proof -
  have "vcAt vc node < vcAt vc node + 1"
    using assms inc_less_eq_triv_imp not_le by blast
  then show ?thesis
    by (auto simp: vcAt_Increment less_fun_def le_fun_def not_le intro: exI [of _ node])
qed

section \<open>Properties\<close>

text \<open>
  C20: \<open>CompareSnapshots\<close> decides the causal order: for any two clock states, with entries missing on
  either side or written out as 0, the four answers mean equal, strictly below, strictly above and
  incomparable in the pointwise order of the counters.
\<close>

theorem compare_decides_causal_order:
  "(CompareSnapshots this other = Equal \<longleftrightarrow> (\<forall>n. vcAt this n = vcAt other n)) \<and>
   (CompareSnapshots this other = Before \<longleftrightarrow>
      (\<forall>n. vcAt this n \<le> vcAt other n) \<and> (\<exists>n. vcAt this n < vcAt other n)) \<and>
   (CompareSnapshots this other = After \<longleftrightarrow> CompareSnapshots other this = Before) \<and>
   (CompareSnapshots this other = Concurrent \<longleftrightarrow>
      (\<exists>n. vcAt this n < vcAt other n) \<and> (\<exists>n. vcAt other n < vcAt this n))"
proof -
  have 1: "(\<exists>n. vcAt a n < vcAt b n) \<longleftrightarrow> \<not> vcAt b \<le> vcAt a" for a b by (simp add: vc_not_le)
  have 2: "(\<forall>n. vcAt a n \<le> vcAt b n) \<longleftrightarrow> vcAt a \<le> vcAt b" for a b by (simp add: le_fun_def)
  have 3: "(\<forall>n. vcAt a n = vcAt b n) \<longleftrightarrow> vcAt a \<le> vcAt b \<and> vcAt b \<le> vcAt a" for a b
    by (auto simp flip: fun_eq_iff)
  show ?thesis unfolding 1 2 3 by (simp add: CompareSnapshots_flags)
qed

end
