(* ===== verification/Versioning.thy ===== *)
theory Versioning
  imports VectorClock Json
begin

text \<open>
  Data items (src/internal/model) and the sibling logic over them (src/internal/versioning).

  A \<open>DataItem\<close> holds a value of Go type \<open>any\<close>: what \<open>json.Unmarshal\<close> makes of a JSON text, so it
  is modelled by the JSON value. The values the program itself produces are nil (tombstones,
  delivery markers) and strings (client writes); a number stands for itself as its literal.
  Items are compared by their clocks only, so every lemma of this theory speaks of \<open>clk\<close>, the
  function from node ids to counters an item's clock stands for, and of the pointwise order on it.
\<close>

section \<open>Definitions\<close>

type_synonym goValue = json

record DataItem =
  Value :: goValue
  VectorClock :: vclock
  LastUpdatedBy :: nodeID
  IsDeleted :: bool

abbreviation clk :: "DataItem \<Rightarrow> nodeID \<Rightarrow> u32" where
  "clk item \<equiv> vcAt (VectorClock item)"

text \<open>The loop of \<open>Resolve\<close>: the survivors so far and whether the incoming item survives.\<close>

fun resolveLoop :: "DataItem list \<Rightarrow> DataItem \<Rightarrow> DataItem list \<times> bool \<Rightarrow> DataItem list \<times> bool" where
  "resolveLoop [] incoming acc = acc"
| "resolveLoop (item # existing) incoming (survivors, incomingSurvives) =
     resolveLoop existing incoming
       (case Compare (VectorClock item) (VectorClock incoming) of
          Concurrent \<Rightarrow> (survivors @ [item], incomingSurvives)
        | After \<Rightarrow> (survivors @ [item], False)
        | Before \<Rightarrow> (survivors, incomingSurvives)
        | Equal \<Rightarrow> (survivors @ [item], False))"

definition Resolve :: "DataItem list \<Rightarrow> DataItem \<Rightarrow> DataItem list" where
  "Resolve existing incoming =
     (case resolveLoop existing incoming ([], True) of
        (survivors, incomingSurvives) \<Rightarrow>
          if incomingSurvives then survivors @ [incoming] else survivors)"

text \<open>
  The inner loop of \<open>UnionVectorClock\<close> raises each entry of one clock that exceeds the union so
  far; the entries are independent of each other, so it is one map update.
\<close>

definition unionStep :: "vclock \<Rightarrow> DataItem \<Rightarrow> vclock" where
  "unionStep u item =
     (let snap = Snapshot (VectorClock item)
      in fmadd u (fmfilter (\<lambda>node. vcAt u node < vcAt snap node) snap))"

definition UnionVectorClock :: "DataItem list \<Rightarrow> vclock" where
  "UnionVectorClock items = foldl unionStep fmempty items"

definition MergeSiblings :: "DataItem list \<Rightarrow> DataItem list \<Rightarrow> DataItem list" where
  "MergeSiblings a b = foldl Resolve a b"

text \<open>
  The sibling-set invariant: no version is covered by another one of the set. \<open>covers xs c\<close>: some
  version of \<open>xs\<close> has seen everything \<open>c\<close> has. \<open>maxima\<close> is the abstract meaning of a
  sibling set: the maximal elements of a set of clocks.
\<close>

definition antichain :: "DataItem list \<Rightarrow> bool" where
  "antichain xs \<longleftrightarrow> sorted_wrt (\<lambda>x y. \<not> clk x \<le> clk y \<and> \<not> clk y \<le> clk x) xs"

definition covers :: "DataItem list \<Rightarrow> (nodeID \<Rightarrow> u32) \<Rightarrow> bool" where
  "covers xs c \<longleftrightarrow> (\<exists>x \<in> set xs. c \<le> clk x)"

definition maxima :: "(nodeID \<Rightarrow> u32) set \<Rightarrow> (nodeID \<Rightarrow> u32) set" where
  "maxima C = {c \<in> C. \<forall>d \<in> C. \<not> c < d}"

section \<open>Resolve as a filter\<close>

lemma resolveLoop_eq:
  "resolveLoop ex i (acc, b) =
     (acc @ filter (\<lambda>x. \<not> clk x < clk i) ex, b \<and> \<not> covers ex (clk i))"
proof (induction ex arbitrary: acc b)
  case Nil
  then show ?case by (simp add: covers_def)
next
  case (Cons x ex)
  show ?case
  proof (cases "Compare (VectorClock x) (VectorClock i)")
    case Equal
    then have "clk x = clk i" by (simp add: Compare_cases)
    with Equal Cons.IH show ?thesis by (simp add: covers_def)
  next
    case Before
    then have "clk x < clk i" by (simp add: Compare_cases)
    then have "\<not> clk i \<le> clk x" by (simp add: less_le_not_le)
    with Before \<open>clk x < clk i\<close> Cons.IH show ?thesis by (simp add: covers_def)
  next
    case After
    then have "clk i < clk x" by (simp add: Compare_cases)
    then have "clk i \<le> clk x" "\<not> clk x < clk i" by (auto simp: less_le_not_le)
    with After Cons.IH show ?thesis by (simp add: covers_def)
  next
    case Concurrent
    then have "\<not> clk x \<le> clk i" "\<not> clk i \<le> clk x" by (auto simp: Compare_cases)
    then have "\<not> clk x < clk i" by (auto simp: less_le_not_le)
    with Concurrent \<open>\<not> clk i \<le> clk x\<close> Cons.IH show ?thesis by (simp add: covers_def)
  qed
qed

lemma Resolve_eq:
  "Resolve ex i = filter (\<lambda>x. \<not> clk x < clk i) ex @ (if covers ex (clk i) then [] else [i])"
  by (simp add: Resolve_def resolveLoop_eq)

lemma set_Resolve:
  "set (Resolve ex i) = {x \<in> set ex. \<not> clk x < clk i} \<union> (if covers ex (clk i) then {} else {i})"
  by (simp add: Resolve_eq)

lemma MergeSiblings_Nil [simp]: "MergeSiblings a [] = a"
  by (simp add: MergeSiblings_def)

lemma MergeSiblings_Cons [simp]: "MergeSiblings a (i # b) = MergeSiblings (Resolve a i) b"
  by (simp add: MergeSiblings_def)

lemma MergeSiblings_append: "MergeSiblings a (b @ c) = MergeSiblings (MergeSiblings a b) c"
  by (simp add: MergeSiblings_def)

lemma set_MergeSiblings_subset: "set (MergeSiblings a b) \<subseteq> set a \<union> set b"
  by (induction b arbitrary: a) (fastforce simp: set_Resolve split: if_splits)+

section \<open>Coverage\<close>

lemma covers_mono: "covers xs d \<Longrightarrow> c \<le> d \<Longrightarrow> covers xs c"
  unfolding covers_def by (blast intro: order_trans)

lemma covers_Nil [simp]: "\<not> covers [] c"
  by (simp add: covers_def)

lemma covers_Cons [simp]: "covers (x # xs) c \<longleftrightarrow> c \<le> clk x \<or> covers xs c"
  by (simp add: covers_def)

lemma covers_append [simp]: "covers (xs @ ys) c \<longleftrightarrow> covers xs c \<or> covers ys c"
  by (auto simp: covers_def)

lemma covers_mem: "x \<in> set xs \<Longrightarrow> covers xs (clk x)"
  unfolding covers_def by blast

lemma covers_Resolve: "covers (Resolve ex i) c \<longleftrightarrow> covers ex c \<or> c \<le> clk i"
proof
  assume "covers (Resolve ex i) c"
  then show "covers ex c \<or> c \<le> clk i" by (auto simp: covers_def set_Resolve split: if_splits)
next
  assume h: "covers ex c \<or> c \<le> clk i"
  show "covers (Resolve ex i) c"
  proof (cases "covers ex (clk i)")
    case True
    then obtain y where y: "y \<in> set ex" "clk i \<le> clk y" by (auto simp: covers_def)
    then have "y \<in> set (Resolve ex i)" by (auto simp: set_Resolve less_le_not_le)
    with y have i: "covers (Resolve ex i) (clk i)" by (auto simp: covers_def)
    show ?thesis
    proof (cases "c \<le> clk i")
      case True
      with i show ?thesis by (rule covers_mono)
    next
      case False
      with h obtain x where x: "x \<in> set ex" "c \<le> clk x" by (auto simp: covers_def)
      with False have "\<not> clk x < clk i" by (meson order.strict_implies_order order_trans)
      with x show ?thesis by (auto simp: covers_def set_Resolve)
    qed
  next
    case False
    then have "i \<in> set (Resolve ex i)" by (simp add: set_Resolve)
    show ?thesis
    proof (cases "c \<le> clk i")
      case True
      with \<open>i \<in> set (Resolve ex i)\<close> show ?thesis by (auto simp: covers_def)
    next
      case False
      with h obtain x where x: "x \<in> set ex" "c \<le> clk x" by (auto simp: covers_def)
      with False have "\<not> clk x < clk i" by (meson order.strict_implies_order order_trans)
      with x show ?thesis by (auto simp: covers_def set_Resolve)
    qed
  qed
qed

lemma covers_Merge: "covers (MergeSiblings a b) c \<longleftrightarrow> covers a c \<or> covers b c"
  by (induction b arbitrary: a) (simp_all add: covers_Resolve disj_assoc)

section \<open>The invariant and the abstract meaning\<close>

lemma antichain_Nil [simp]: "antichain []"
  by (simp add: antichain_def)

lemma antichain_single [simp]: "antichain [x]"
  by (simp add: antichain_def)

lemma antichain_filter: "antichain xs \<Longrightarrow> antichain (filter P xs)"
  by (simp add: antichain_def)

lemma antichain_append:
  "antichain (xs @ ys) \<longleftrightarrow> antichain xs \<and> antichain ys \<and>
     (\<forall>x \<in> set xs. \<forall>y \<in> set ys. \<not> clk x \<le> clk y \<and> \<not> clk y \<le> clk x)"
  by (auto simp: antichain_def sorted_wrt_append)

lemma antichain_Resolve [kv_inv]: "antichain ex \<Longrightarrow> antichain (Resolve ex i)"
  by (auto simp: Resolve_eq antichain_append antichain_filter covers_def less_le_not_le)

lemma antichain_Merge [kv_inv]: "antichain a \<Longrightarrow> antichain (MergeSiblings a b)"
  by (induction b arbitrary: a) (auto intro: antichain_Resolve)

lemma antichain_mem_eq:
  assumes "antichain xs" "x \<in> set xs" "y \<in> set xs" "clk x \<le> clk y"
  shows "x = y"
  using assms by (induction xs) (auto simp: antichain_def)

lemma antichain_distinct: "antichain xs \<Longrightarrow> distinct xs"
  by (induction xs) (auto simp: antichain_def)

lemma Resolve_antichain_snoc:
  "antichain (xs @ [i]) \<Longrightarrow> Resolve xs i = xs @ [i]"
  by (auto simp: Resolve_eq antichain_append covers_def less_le_not_le filter_id_conv)

lemma Merge_append_antichain: "antichain (a @ b) \<Longrightarrow> MergeSiblings a b = a @ b"
proof (induction b arbitrary: a)
  case (Cons i b)
  from Cons.prems have "antichain (a @ [i])" "antichain ((a @ [i]) @ b)"
    by (auto simp: antichain_append)
  with Cons.IH [of "a @ [i]"] show ?case by (simp add: Resolve_antichain_snoc)
qed simp

lemma Merge_Nil_antichain: "antichain xs \<Longrightarrow> MergeSiblings [] xs = xs"
  using Merge_append_antichain [of "[]" xs] by simp

text \<open>A set of clocks with the same coverage has the same maxima, if it is an antichain itself.\<close>

lemma antichain_maxima:
  assumes anti: "antichain xs" and sub: "clk ` set xs \<subseteq> C"
    and cov: "\<And>c. c \<in> C \<Longrightarrow> covers xs c"
  shows "clk ` set xs = maxima C"
proof
  show "clk ` set xs \<subseteq> maxima C"
  proof
    fix c assume "c \<in> clk ` set xs"
    then obtain x where x: "x \<in> set xs" "c = clk x" by blast
    have "\<not> c < d" if "d \<in> C" for d
    proof
      assume "c < d"
      from cov [OF that] obtain y where y: "y \<in> set xs" "d \<le> clk y" by (auto simp: covers_def)
      with \<open>c < d\<close> x have "clk x \<le> clk y" "clk x \<noteq> clk y" by auto
      with antichain_mem_eq [OF anti x(1) y(1)] show False by simp
    qed
    with x sub show "c \<in> maxima C" by (auto simp: maxima_def)
  qed
  show "maxima C \<subseteq> clk ` set xs"
  proof
    fix c assume c: "c \<in> maxima C"
    then have "c \<in> C" by (simp add: maxima_def)
    with cov obtain y where y: "y \<in> set xs" "c \<le> clk y" by (auto simp: covers_def)
    with sub have "clk y \<in> C" by blast
    with c y(2) have "c = clk y" by (auto simp: maxima_def order.order_iff_strict)
    with y show "c \<in> clk ` set xs" by blast
  qed
qed

lemma Merge_maxima:
  assumes "antichain a"
  shows "clk ` set (MergeSiblings a b) = maxima (clk ` (set a \<union> set b))"
proof (rule antichain_maxima)
  show "antichain (MergeSiblings a b)" by (rule antichain_Merge [OF assms])
  show "clk ` set (MergeSiblings a b) \<subseteq> clk ` (set a \<union> set b)"
    using set_MergeSiblings_subset by (metis image_mono)
  fix c assume "c \<in> clk ` (set a \<union> set b)"
  then show "covers (MergeSiblings a b) c" by (auto simp: covers_Merge covers_mem)
qed

section \<open>Folding layers: associativity, list for list\<close>

text \<open>
  \<open>notBelow i\<close> drops what a version \<open>i\<close> supersedes. Dropping it before or after a merge makes no
  difference to what is left once \<open>i\<close> has been merged too: whatever a dropped version would have
  superseded or covered, \<open>i\<close> supersedes as well.
\<close>

abbreviation notBelow :: "(nodeID \<Rightarrow> u32) \<Rightarrow> DataItem list \<Rightarrow> DataItem list" where
  "notBelow c xs \<equiv> filter (\<lambda>x. \<not> clk x < c) xs"

lemma covers_old: "\<not> d < c \<Longrightarrow> covers (notBelow c xs) d \<longleftrightarrow> covers xs d"
  unfolding covers_def by (auto dest: order_le_less_trans)

lemma old_Resolve_skip:
  "clk i < c \<Longrightarrow> notBelow c (Resolve xs i) = notBelow c xs"
  by (auto simp: Resolve_eq filter_filter intro!: filter_cong dest: order_less_trans)

lemma old_Resolve_keep:
  "\<not> clk i < c \<Longrightarrow> notBelow c (Resolve xs i) = Resolve (notBelow c xs) i"
  by (simp add: Resolve_eq filter_filter conj_commute covers_old)

lemma old_Merge: "notBelow c (MergeSiblings a b) = MergeSiblings (notBelow c a) (notBelow c b)"
  by (induction b arbitrary: a) (auto simp: old_Resolve_skip old_Resolve_keep)

lemma old_old [simp]: "notBelow c (notBelow c xs) = notBelow c xs"
  by (simp add: filter_filter)

lemma old_covered: "c \<le> clk x \<Longrightarrow> notBelow c (notBelow (clk x) xs) = notBelow (clk x) xs"
  by (auto simp: filter_filter intro!: filter_cong dest: order_less_le_trans)

lemma Resolve_old_covered:
  assumes "c \<le> clk x"
  shows "notBelow c (Resolve a x) = Resolve a x"
proof -
  have "\<not> clk x < c" using assms by (meson leD)
  moreover have "\<not> clk y < c" if "\<not> clk y < clk x" for y
    using that assms by (meson order_less_le_trans)
  ultimately show ?thesis
    by (auto simp: Resolve_eq filter_filter intro!: filter_cong)
qed

lemma Merge_old_covered:
  assumes "covers b c" "notBelow c b = b"
  shows "notBelow c (MergeSiblings a b) = MergeSiblings a b"
  using assms
proof (induction b arbitrary: a)
  case (Cons x b)
  have "\<forall>y \<in> set (x # b). \<not> clk y < c"
    using Cons.prems(2) by (simp only: filter_id_conv) 
  then have b: "notBelow c b = b" and nx: "\<not> clk x < c"
    by (simp_all add: filter_id_conv)
  show ?case
  proof (cases "covers b c")
    case True
    from Cons.IH [OF True b] show ?thesis by simp
  next
    case False
    with Cons.prems(1) have "c \<le> clk x" by (auto simp: covers_def)
    have "notBelow c (MergeSiblings (Resolve a x) b) = MergeSiblings (notBelow c (Resolve a x)) (notBelow c b)"
      by (rule old_Merge)
    then show ?thesis using \<open>c \<le> clk x\<close> by (simp add: Resolve_old_covered b)
  qed
qed (simp add: covers_def)

lemma Merge_Resolve_assoc: "MergeSiblings a (Resolve y i) = Resolve (MergeSiblings a y) i"
proof (cases "covers y (clk i)")
  case True
  then have cov: "covers (MergeSiblings a y) (clk i)" by (simp add: covers_Merge)
  have "covers (notBelow (clk i) y) (clk i)"
    using True by (simp add: covers_old)
  then have "notBelow (clk i) (MergeSiblings a (notBelow (clk i) y)) = MergeSiblings a (notBelow (clk i) y)"
    by (rule Merge_old_covered) simp
  with True cov show ?thesis
    by (simp add: Resolve_eq old_Merge)
next
  case False
  have *: "Resolve (MergeSiblings a (notBelow (clk i) y)) i = Resolve (MergeSiblings a y) i"
  proof -
    have "covers (MergeSiblings a (notBelow (clk i) y)) (clk i) \<longleftrightarrow> covers (MergeSiblings a y) (clk i)"
      by (simp add: covers_Merge covers_old)
    then show ?thesis by (simp add: Resolve_eq old_Merge)
  qed
  with False show ?thesis
    by (simp add: Resolve_eq [of y] MergeSiblings_append)
qed

lemma Merge_assoc:
  "MergeSiblings a (MergeSiblings b c) = MergeSiblings (MergeSiblings a b) c"
proof (induction c rule: rev_induct)
  case Nil
  then show ?case by simp
next
  case (snoc i c)
  have "MergeSiblings a (MergeSiblings b (c @ [i])) = MergeSiblings a (Resolve (MergeSiblings b c) i)"
    by (simp add: MergeSiblings_append)
  also have "\<dots> = Resolve (MergeSiblings a (MergeSiblings b c)) i"
    by (rule Merge_Resolve_assoc)
  also have "\<dots> = MergeSiblings (MergeSiblings a b) (c @ [i])"
    by (simp add: snoc MergeSiblings_append)
  finally show ?case .
qed

lemma Merge_normal: "MergeSiblings a (MergeSiblings [] b) = MergeSiblings a b"
  by (simp add: Merge_assoc)

section \<open>The union clock\<close>

lemma vcAt_unionStep: "vcAt (unionStep u item) n = max (vcAt u n) (clk item n)"
  by (auto simp: unionStep_def Let_def vcAt_def max_def not_less split: option.splits)

lemma union_foldl_upper:
  "vcAt u \<le> vcAt (foldl unionStep u items) \<and>
    (\<forall>x \<in> set items. clk x \<le> vcAt (foldl unionStep u items))"
proof (induction items arbitrary: u)
  case Nil
  then show ?case by simp
next
  case (Cons i items)
  have "vcAt u \<le> vcAt (unionStep u i)" and "clk i \<le> vcAt (unionStep u i)"
    by (simp_all add: le_fun_def vcAt_unionStep)
  with Cons.IH [of "unionStep u i"] show ?case by (auto intro: order_trans)
qed

lemma union_upper: "x \<in> set items \<Longrightarrow> clk x \<le> vcAt (UnionVectorClock items)"
  using union_foldl_upper by (simp add: UnionVectorClock_def)

lemma union_foldl_least:
  "vcAt u \<le> c \<Longrightarrow> (\<forall>x \<in> set items. clk x \<le> c) \<Longrightarrow> vcAt (foldl unionStep u items) \<le> c"
  by (induction items arbitrary: u) (simp_all add: le_fun_def vcAt_unionStep)

lemma union_least:
  assumes "\<And>x. x \<in> set items \<Longrightarrow> clk x \<le> c"
  shows "vcAt (UnionVectorClock items) \<le> c"
  unfolding UnionVectorClock_def using assms
  by (intro union_foldl_least) (auto simp: le_fun_def)

section \<open>Any order of deliveries\<close>

lemma foldl_Merge_concat: "foldl MergeSiblings a bs = MergeSiblings a (concat bs)"
  by (induction bs arbitrary: a) (simp_all add: MergeSiblings_append)

lemma build_greater:
  assumes "vcAt ctx node \<noteq> - 1" "c \<le> vcAt ctx"
  shows "c < vcAt (BuildFromContext ctx node)"
  using assms(2) Increment_greater [OF assms(1)] by (simp add: BuildFromContext_alt)

lemma Resolve_supersedes:
  assumes "\<And>x. x \<in> set items \<Longrightarrow> clk x < clk new"
  shows "Resolve items new = [new]"
proof -
  have "\<not> covers items (clk new)" using assms by (force simp: covers_def)
  with assms show ?thesis by (simp add: Resolve_eq)
qed

section \<open>Properties\<close>

text \<open>
  C19: A client that read all siblings of a key and writes with their union as its context replaces
  every one of them: the clock built for the write dominates each sibling, so resolving the write
  against the siblings leaves the write alone. The counter of the coordinating node must not be at
  its maximum, where the increment wraps to 0.
\<close>

theorem write_on_union_supersedes:
  assumes "vcAt (UnionVectorClock items) node \<noteq> - 1"
    "VectorClock new = BuildFromContext (UnionVectorClock items) node"
  shows "Resolve items new = [new]"
  using build_greater [OF assms(1) union_upper] by (intro Resolve_supersedes) (simp add: assms(2))

theorem write_on_union_supersedes_witness:
  "let a = \<lparr>Value = JStr ''x'', VectorClock = fmap_of_list [(''n1'', 1)],
            LastUpdatedBy = ''n1'', IsDeleted = False\<rparr>;
       b = \<lparr>Value = JStr ''y'', VectorClock = fmap_of_list [(''n2'', 1)],
            LastUpdatedBy = ''n2'', IsDeleted = False\<rparr>;
       new = \<lparr>Value = JStr ''z'', VectorClock = BuildFromContext (UnionVectorClock [a, b]) ''n1'',
              LastUpdatedBy = ''n1'', IsDeleted = False\<rparr>
   in Resolve [a, b] new = [new]"
  unfolding Let_def
  by (rule write_on_union_supersedes [where node = "''n1''"])
    (simp_all add: UnionVectorClock_def vcAt_unionStep)

text \<open>
  C17: Merging sibling sets refines its specification: the clocks kept are exactly the maximal ones
  among both sides, no kept version is covered by another, and nothing is invented.
\<close>

theorem merge_keeps_maxima:
  assumes "antichain a"
  shows "clk ` set (MergeSiblings a b) = maxima (clk ` (set a \<union> set b)) \<and>
    antichain (MergeSiblings a b) \<and> set (MergeSiblings a b) \<subseteq> set a \<union> set b"
  by (intro conjI Merge_maxima antichain_Merge set_MergeSiblings_subset assms)

theorem merge_keeps_maxima_witness:
  "let a = \<lparr>Value = JStr ''x'', VectorClock = fmap_of_list [(''n1'', 1)],
            LastUpdatedBy = ''n1'', IsDeleted = False\<rparr>;
       b = \<lparr>Value = JStr ''y'', VectorClock = fmap_of_list [(''n2'', 1)],
            LastUpdatedBy = ''n2'', IsDeleted = False\<rparr>
   in antichain (MergeSiblings [a] [b]) \<and>
      clk ` set (MergeSiblings [a] [b]) = maxima (clk ` (set [a] \<union> set [b]))"
  unfolding Let_def using merge_keeps_maxima [OF antichain_single] by blast

text \<open>
  C16: Merging is associative as an operation on lists, order of the siblings included. This is what
  lets a flush or a compaction fold adjacent layers of one key without changing what a read of all
  layers returns.
\<close>

theorem merge_associative:
  "MergeSiblings a (MergeSiblings b c) = MergeSiblings (MergeSiblings a b) c"
  by (rule Merge_assoc)



end
