(* ===== verification/Memtable.thy ===== *)
theory Memtable
  imports Versioning
begin

text \<open>
  The in-memory table of src/internal/storage/memtable: the latest sibling sets by key, with a
  running size estimate. The tree that holds them is the package github.com/google/btree, which is
  not part of this repository: its operations are a record of functions that every operation here
  takes as its first argument, and what the table relies on is the locale \<open>btree\<close> (an ordered map:
  a read after a write, iteration in strictly ascending key order). The locale is interpreted on
  sorted association lists.

  Items have no address here. \<open>Put\<close> compares pointers to find out whether the incoming item is among
  the survivors; the model takes that answer from the loop of \<open>Resolve\<close>, which is the same unless
  the very item is already in the table (then the source only moves it to the front).
\<close>

section \<open>Definitions\<close>

record 't btree_ops =
  btNew :: 't
  btGet :: "'t \<Rightarrow> string \<Rightarrow> DataItem list option"
  btReplaceOrInsert :: "'t \<Rightarrow> string \<Rightarrow> DataItem list \<Rightarrow> 't"
  btDelete :: "'t \<Rightarrow> string \<Rightarrow> 't"
  btAscend :: "'t \<Rightarrow> (string \<times> DataItem list) list"

record 't MemTable =
  tree :: 't
  sizeSoFar :: int
  maxBytes :: int

type_synonym Entry = "string \<times> DataItem"

definition estimatedSize :: "string \<Rightarrow> DataItem \<Rightarrow> int" where
  "estimatedSize key item = int (length key) + int (length (jsonText (Value item))) + 64"

definition setSize :: "string \<Rightarrow> DataItem list \<Rightarrow> int" where
  "setSize key items = sum_list (map (estimatedSize key) items)"

definition mtNew :: "'t btree_ops \<Rightarrow> int \<Rightarrow> 't MemTable" where
  "mtNew B n = \<lparr>tree = btNew B, sizeSoFar = 0, maxBytes = n\<rparr>"

definition mtCurrent :: "'t btree_ops \<Rightarrow> 't MemTable \<Rightarrow> string \<Rightarrow> DataItem list" where
  "mtCurrent B m key = (case btGet B (tree m) key of None \<Rightarrow> [] | Some items \<Rightarrow> items)"

definition mtReplaceSet ::
  "'t btree_ops \<Rightarrow> 't MemTable \<Rightarrow> string \<Rightarrow> DataItem list \<Rightarrow> DataItem list \<Rightarrow> 't MemTable" where
  "mtReplaceSet B m key old items =
     m\<lparr>tree := btReplaceOrInsert B (tree m) key items,
       sizeSoFar := sizeSoFar m + (setSize key items - setSize key old)\<rparr>"

definition mtPut :: "'t btree_ops \<Rightarrow> 't MemTable \<Rightarrow> string \<Rightarrow> DataItem \<Rightarrow> 't MemTable \<times> bool" where
  "mtPut B m key item =
     (let old = mtCurrent B m key;
          (kept, survives) = resolveLoop old item ([], True);
          items = (if survives then item # kept else kept);
          m' = mtReplaceSet B m key old items
      in (m', sizeSoFar m' \<ge> maxBytes m'))"

text \<open>The first loop of \<open>PutBackOlder\<close>: the keys in order of appearance, and each key's items.\<close>

definition groupStep ::
  "string list \<times> (string, DataItem list) fmap \<Rightarrow> Entry \<Rightarrow> string list \<times> (string, DataItem list) fmap" where
  "groupStep st e =
     (let (keys, older) = st; (key, item) = e in
      case fmlookup older key of
        None \<Rightarrow> (keys @ [key], fmupd key [item] older)
      | Some items \<Rightarrow> (keys, fmupd key (items @ [item]) older))"

definition putBackKey ::
  "'t btree_ops \<Rightarrow> (string, DataItem list) fmap \<Rightarrow> 't MemTable \<Rightarrow> string \<Rightarrow> 't MemTable" where
  "putBackKey B older m key =
     (let old = mtCurrent B m key;
          back = (case fmlookup older key of None \<Rightarrow> [] | Some items \<Rightarrow> items)
      in mtReplaceSet B m key old (MergeSiblings old back))"

definition mtPutBackOlder :: "'t btree_ops \<Rightarrow> 't MemTable \<Rightarrow> Entry list \<Rightarrow> 't MemTable" where
  "mtPutBackOlder B m entries =
     (let (keys, older) = foldl groupStep ([], fmempty) entries
      in foldl (putBackKey B older) m keys)"

definition mtReplace :: "'t btree_ops \<Rightarrow> 't MemTable \<Rightarrow> string \<Rightarrow> DataItem list \<Rightarrow> 't MemTable" where
  "mtReplace B m key items =
     (let old = mtCurrent B m key
      in if items = [] then
           m\<lparr>tree := btDelete B (tree m) key, sizeSoFar := sizeSoFar m - setSize key old\<rparr>
         else mtReplaceSet B m key old items)"

definition mtKeys :: "'t btree_ops \<Rightarrow> 't MemTable \<Rightarrow> string list" where
  "mtKeys B m = map fst (btAscend B (tree m))"

definition mtGetAll :: "'t btree_ops \<Rightarrow> 't MemTable \<Rightarrow> string \<Rightarrow> DataItem list option" where
  "mtGetAll B m key =
     (let items = mtCurrent B m key in if items = [] then None else Some items)"

definition entriesLocked :: "'t btree_ops \<Rightarrow> 't MemTable \<Rightarrow> Entry list" where
  "entriesLocked B m = concat (map (\<lambda>(key, items). map (Pair key) items) (btAscend B (tree m)))"

definition mtSnapshotAndClear :: "'t btree_ops \<Rightarrow> 't MemTable \<Rightarrow> 't MemTable \<times> Entry list" where
  "mtSnapshotAndClear B m =
     (m\<lparr>tree := btNew B, sizeSoFar := 0\<rparr>, entriesLocked B m)"

definition mtSnapshot :: "'t btree_ops \<Rightarrow> 't MemTable \<Rightarrow> Entry list" where
  "mtSnapshot B m = entriesLocked B m"

definition mtLen :: "'t btree_ops \<Rightarrow> 't MemTable \<Rightarrow> nat" where
  "mtLen B m = length (btAscend B (tree m))"

definition mtSize :: "'t MemTable \<Rightarrow> int" where
  "mtSize m = sizeSoFar m"

section \<open>Entries by key\<close>

text \<open>The versions a list of entries holds for a key, in its order.\<close>

definition versionsOf :: "Entry list \<Rightarrow> string \<Rightarrow> DataItem list" where
  "versionsOf es key = map snd (filter (\<lambda>e. fst e = key) es)"

lemma versionsOf_Nil [simp]: "versionsOf [] key = []"
  by (simp add: versionsOf_def)

lemma versionsOf_Cons [simp]:
  "versionsOf (e # es) key = (if fst e = key then snd e # versionsOf es key else versionsOf es key)"
  by (simp add: versionsOf_def)

lemma versionsOf_append [simp]: "versionsOf (es @ fs) key = versionsOf es key @ versionsOf fs key"
  by (simp add: versionsOf_def)

lemma versionsOf_Pair [simp]:
  "versionsOf (map (Pair k) items) key = (if k = key then items else [])"
  by (induction items) auto

lemma versionsOf_flat:
  "distinct (map fst al) \<Longrightarrow>
    versionsOf (concat (map (\<lambda>(key, items). map (Pair key) items) al)) key =
      (case map_of al key of None \<Rightarrow> [] | Some items \<Rightarrow> items)"
proof (induction al)
  case (Cons p al)
  obtain k items where p: "p = (k, items)" by fastforce
  have "map_of al key = None" if "k = key" using Cons.prems p that by (auto simp: map_of_eq_None_iff)
  with Cons p show ?case by auto
qed simp

lemma versionsOf_notin: "key \<notin> fst ` set es \<longleftrightarrow> versionsOf es key = []"
  by (force simp: versionsOf_def filter_empty_conv)

lemma groupStep_foldl:
  "foldl groupStep ([], fmempty) es = (keys, older) \<Longrightarrow>
    distinct keys \<and> set keys = fst ` set es \<and>
    (\<forall>k. fmlookup older k = (if versionsOf es k = [] then None else Some (versionsOf es k)))"
proof (induction es arbitrary: keys older rule: rev_induct)
  case (snoc e es)
  obtain ks ol where st: "foldl groupStep ([], fmempty) es = (ks, ol)" by fastforce
  obtain k i where e: "e = (k, i)" by fastforce
  from snoc.IH [OF st] have IH: "distinct ks" "set ks = fst ` set es"
    "\<And>k. fmlookup ol k = (if versionsOf es k = [] then None else Some (versionsOf es k))" by auto
  have step: "groupStep (ks, ol) (k, i) = (keys, older)" using snoc.prems st e by simp
  show ?case
  proof (cases "versionsOf es k = []")
    case True
    with step IH(3) have "keys = ks @ [k]" "older = fmupd k [i] ol"
      by (auto simp: groupStep_def)
    with IH True e versionsOf_notin [of k es] show ?thesis by auto
  next
    case False
    with step IH(3) have "keys = ks" "older = fmupd k (versionsOf es k @ [i]) ol"
      by (auto simp: groupStep_def)
    with IH False e versionsOf_notin [of k es] show ?thesis by auto
  qed
qed auto

section \<open>The size of a table\<close>

definition tableSize :: "(string \<rightharpoonup> DataItem list) \<Rightarrow> int" where
  "tableSize mp = (\<Sum>k \<in> dom mp. setSize k (the (mp k)))"

lemma setSize_Nil [simp]: "setSize k [] = 0"
  by (simp add: setSize_def)

lemma tableSize_split:
  assumes "finite (dom mp)"
  shows "tableSize mp =
    (\<Sum>x \<in> dom mp - {k}. setSize x (the (mp x))) + setSize k (case mp k of None \<Rightarrow> [] | Some x \<Rightarrow> x)"
proof (cases "mp k")
  case None
  then have "dom mp - {k} = dom mp" by auto
  with None show ?thesis by (simp add: tableSize_def)
next
  case (Some v)
  then have "k \<in> dom mp" by blast
  with Some sum.remove [OF assms this, of "\<lambda>x. setSize x (the (mp x))"] show ?thesis
    by (simp add: tableSize_def)
qed

lemma tableSize_upd:
  assumes "finite (dom mp)"
  shows "tableSize (mp(k \<mapsto> v)) =
    tableSize mp + (setSize k v - setSize k (case mp k of None \<Rightarrow> [] | Some x \<Rightarrow> x))"
proof -
  have "tableSize (mp(k \<mapsto> v)) = setSize k v + (\<Sum>x \<in> dom mp - {k}. setSize x (the (mp x)))"
    using assms by (simp add: tableSize_def sum.insert_remove)
  with tableSize_split [OF assms, of k] show ?thesis by simp
qed

lemma tableSize_del:
  assumes "finite (dom mp)"
  shows "tableSize (mp(k := None)) =
    tableSize mp - setSize k (case mp k of None \<Rightarrow> [] | Some x \<Rightarrow> x)"
proof -
  have "tableSize (mp(k := None)) = (\<Sum>x \<in> dom mp - {k}. setSize x (the (mp x)))"
    unfolding tableSize_def dom_fun_upd by (auto intro: sum.cong)
  with tableSize_split [OF assms, of k] show ?thesis by simp
qed

lemma tableSize_flat:
  "distinct (map fst al) \<Longrightarrow>
    sum_list (map (\<lambda>(k, i). estimatedSize k i)
      (concat (map (\<lambda>(key, items). map (Pair key) items) al))) = tableSize (map_of al)"
proof (induction al)
  case (Cons p al)
  obtain k items where p: "p = (k, items)" by fastforce
  have "map_of al k = None" using Cons.prems p by (auto simp: map_of_eq_None_iff)
  then have "tableSize (map_of (p # al)) = setSize k items + tableSize (map_of al)"
    using tableSize_upd [of "map_of al" k items] by (simp add: p finite_dom_map_of)
  moreover have "sum_list (map (\<lambda>(k, i). estimatedSize k i) (map (Pair k) items)) = setSize k items"
    by (simp add: setSize_def comp_def)
  ultimately show ?case using Cons p unfolding p by (simp del: map_of.simps map_of_Cons_code)
qed (simp add: tableSize_def)

text \<open>The operations that change a table, for runs of any length.\<close>

datatype mtOp =
    MPut string DataItem
  | MPutBackOlder "Entry list"
  | MReplace string "DataItem list"
  | MSnapshotAndClear

fun mtApply :: "'t btree_ops \<Rightarrow> 't MemTable \<Rightarrow> mtOp \<Rightarrow> 't MemTable" where
  "mtApply B m (MPut k item) = fst (mtPut B m k item)"
| "mtApply B m (MPutBackOlder es) = mtPutBackOlder B m es"
| "mtApply B m (MReplace k items) = mtReplace B m k items"
| "mtApply B m MSnapshotAndClear = fst (mtSnapshotAndClear B m)"

text \<open>What the operations do to the sibling sets, read as a function from keys.\<close>

fun specApply :: "(string \<Rightarrow> DataItem list) \<Rightarrow> mtOp \<Rightarrow> string \<Rightarrow> DataItem list" where
  "specApply c (MPut k item) =
     c(k := (if covers (c k) (clk item) then [] else [item]) @
            filter (\<lambda>x. \<not> clk x < clk item) (c k))"
| "specApply c (MPutBackOlder es) = (\<lambda>k. MergeSiblings (c k) (versionsOf es k))"
| "specApply c (MReplace k items) = c(k := items)"
| "specApply c MSnapshotAndClear = (\<lambda>_. [])"

section \<open>The interface of the tree\<close>

locale btree =
  fixes B :: "'t btree_ops" and binv :: "'t \<Rightarrow> bool"
  assumes new_inv: "binv (btNew B)"
    and new_empty: "btAscend B (btNew B) = []"
    and ascend_sorted: "binv t \<Longrightarrow> sorted_wrt (<) (map fst (btAscend B t))"
    and get_ascend: "binv t \<Longrightarrow> btGet B t k = map_of (btAscend B t) k"
    and insert_inv: "binv t \<Longrightarrow> binv (btReplaceOrInsert B t k v)"
    and insert_ascend: "binv t \<Longrightarrow>
      map_of (btAscend B (btReplaceOrInsert B t k v)) = (map_of (btAscend B t))(k \<mapsto> v)"
    and delete_inv: "binv t \<Longrightarrow> binv (btDelete B t k)"
    and delete_ascend: "binv t \<Longrightarrow>
      map_of (btAscend B (btDelete B t k)) = (map_of (btAscend B t))(k := None)"
begin

lemma ascend_distinct: "binv t \<Longrightarrow> distinct (map fst (btAscend B t))"
  using ascend_sorted strict_sorted_iff by blast

lemma current_map:
  "binv (tree m) \<Longrightarrow> mtCurrent B m k =
    (case map_of (btAscend B (tree m)) k of None \<Rightarrow> [] | Some items \<Rightarrow> items)"
  by (simp add: mtCurrent_def get_ascend)

lemma binv_ops [simp]:
  "binv (tree (mtNew B n))"
  "binv (tree m) \<Longrightarrow> binv (tree (mtReplaceSet B m k old items))"
  "binv (tree m) \<Longrightarrow> binv (tree (mtReplace B m k items))"
  "binv (tree m) \<Longrightarrow> binv (tree (fst (mtPut B m k item)))"
  by (simp_all add: mtNew_def new_inv mtReplaceSet_def insert_inv mtReplace_def delete_inv mtPut_def
      Let_def split_def)

lemma current_New [simp]: "mtCurrent B (mtNew B n) k = []"
  by (simp add: current_map) (simp add: mtNew_def new_empty)

lemma current_ReplaceSet:
  "binv (tree m) \<Longrightarrow> mtCurrent B (mtReplaceSet B m k old items) = (mtCurrent B m)(k := items)"
  by (rule ext) (simp add: current_map, simp add: mtReplaceSet_def insert_ascend)

lemma current_Replace:
  "binv (tree m) \<Longrightarrow> mtCurrent B (mtReplace B m k items) = (mtCurrent B m)(k := items)"
  by (auto simp: fun_eq_iff mtReplace_def current_ReplaceSet Let_def)
    (simp_all add: mtCurrent_def get_ascend delete_inv delete_ascend)

lemma current_Put:
  "binv (tree m) \<Longrightarrow>
    mtCurrent B (fst (mtPut B m k item)) = (mtCurrent B m)
      (k := (if covers (mtCurrent B m k) (clk item) then [] else [item]) @
         filter (\<lambda>x. \<not> clk x < clk item) (mtCurrent B m k))"
  by (simp add: mtPut_def Let_def resolveLoop_eq current_ReplaceSet)

lemma putBackKey_foldl:
  "binv (tree m) \<Longrightarrow> distinct keys \<Longrightarrow>
    binv (tree (foldl (putBackKey B older) m keys)) \<and>
    mtCurrent B (foldl (putBackKey B older) m keys) =
      (\<lambda>k. if k \<in> set keys then MergeSiblings (mtCurrent B m k)
               (case fmlookup older k of None \<Rightarrow> [] | Some items \<Rightarrow> items)
           else mtCurrent B m k)"
proof (induction keys arbitrary: m)
  case (Cons k keys)
  let ?m = "putBackKey B older m k"
  have "binv (tree ?m)" using Cons.prems by (simp add: putBackKey_def Let_def)
  moreover have "mtCurrent B ?m = (mtCurrent B m)(k := MergeSiblings (mtCurrent B m k)
      (case fmlookup older k of None \<Rightarrow> [] | Some items \<Rightarrow> items))"
    using Cons.prems by (simp add: putBackKey_def Let_def current_ReplaceSet)
  ultimately show ?case using Cons.IH [of ?m] Cons.prems by (auto simp: fun_eq_iff)
qed simp

lemma PutBackOlder_current:
  assumes "binv (tree m)"
  shows "binv (tree (mtPutBackOlder B m es))"
    "mtCurrent B (mtPutBackOlder B m es) k = MergeSiblings (mtCurrent B m k) (versionsOf es k)"
proof -
  obtain keys older where g: "foldl groupStep ([], fmempty) es = (keys, older)" by fastforce
  note gs = groupStep_foldl [OF g]
  have "mtPutBackOlder B m es = foldl (putBackKey B older) m keys"
    by (simp add: mtPutBackOlder_def g)
  with putBackKey_foldl [OF assms, of keys older] gs versionsOf_notin [of k es]
  show "binv (tree (mtPutBackOlder B m es))"
    "mtCurrent B (mtPutBackOlder B m es) k = MergeSiblings (mtCurrent B m k) (versionsOf es k)"
    by auto
qed

lemma versionsOf_Snapshot: "binv (tree m) \<Longrightarrow> versionsOf (mtSnapshot B m) k = mtCurrent B m k"
  by (simp add: mtSnapshot_def entriesLocked_def versionsOf_flat ascend_distinct current_map)

lemma sorted_flat:
  "sorted_wrt (<) (map fst al) \<Longrightarrow>
    sorted (map fst (concat (map (\<lambda>(key, items). map (Pair key) items) al)))"
proof (induction al)
  case (Cons p al)
  obtain k items where p: "p = (k, items)" by fastforce
  have "sorted (map fst (map (Pair k) items))" by (simp add: comp_def sorted_map)
  with Cons p show ?case by (auto simp: sorted_append comp_def)
qed simp

lemma Snapshot_sorted: "binv (tree m) \<Longrightarrow> sorted (map fst (mtSnapshot B m))"
  unfolding mtSnapshot_def entriesLocked_def by (rule sorted_flat [OF ascend_sorted])

lemma size_ReplaceSet:
  assumes "binv (tree m)" "sizeSoFar m = tableSize (map_of (btAscend B (tree m)))"
  shows "sizeSoFar (mtReplaceSet B m k (mtCurrent B m k) items) =
    tableSize (map_of (btAscend B (tree (mtReplaceSet B m k (mtCurrent B m k) items))))"
  using assms
  by (simp add: mtReplaceSet_def insert_ascend tableSize_upd finite_dom_map_of current_map)

lemma size_putBack_foldl:
  "binv (tree m) \<Longrightarrow> sizeSoFar m = tableSize (map_of (btAscend B (tree m))) \<Longrightarrow>
    sizeSoFar (foldl (putBackKey B older) m keys) =
      tableSize (map_of (btAscend B (tree (foldl (putBackKey B older) m keys))))"
  by (induction keys arbitrary: m) (simp_all add: putBackKey_def Let_def size_ReplaceSet)

lemma mtApply_inv:
  assumes "binv (tree m)" "sizeSoFar m = tableSize (map_of (btAscend B (tree m)))"
  shows "binv (tree (mtApply B m op)) \<and>
    sizeSoFar (mtApply B m op) = tableSize (map_of (btAscend B (tree (mtApply B m op))))"
proof (cases op)
  case (MPut k item)
  with assms show ?thesis
    by (simp add: mtPut_def Let_def split_def size_ReplaceSet)
next
  case (MPutBackOlder es)
  with assms PutBackOlder_current(1) [of m es] show ?thesis
    by (simp add: mtPutBackOlder_def split_def Let_def size_putBack_foldl)
next
  case (MReplace k items)
  with assms show ?thesis
    by (cases "items = []")
      (simp add: mtReplace_def delete_inv delete_ascend tableSize_del finite_dom_map_of current_map,
        simp add: mtReplace_def size_ReplaceSet)
next
  case MSnapshotAndClear
  then show ?thesis
    by (simp add: mtSnapshotAndClear_def new_inv new_empty tableSize_def)
qed

lemma mtApply_current:
  "binv (tree m) \<Longrightarrow> mtCurrent B (mtApply B m op) = specApply (mtCurrent B m) op"
  by (cases op)
    (simp add: current_Put, rule ext, simp add: PutBackOlder_current, simp add: current_Replace,
      simp add: fun_eq_iff mtSnapshotAndClear_def mtCurrent_def get_ascend new_inv new_empty)

lemma mtRun:
  "binv (tree m) \<Longrightarrow> sizeSoFar m = tableSize (map_of (btAscend B (tree m))) \<Longrightarrow>
    binv (tree (foldl (mtApply B) m ops)) \<and>
    sizeSoFar (foldl (mtApply B) m ops) = tableSize (map_of (btAscend B (tree (foldl (mtApply B) m ops)))) \<and>
    mtCurrent B (foldl (mtApply B) m ops) = foldl specApply (mtCurrent B m) ops"
proof (induction ops arbitrary: m)
  case (Cons op ops)
  with mtApply_inv [OF Cons.prems, of op] mtApply_current [OF Cons.prems(1), of op]
  show ?case by simp
qed simp

lemma mtRun_New:
  "binv (tree (foldl (mtApply B) (mtNew B n) ops)) \<and>
    mtSize (foldl (mtApply B) (mtNew B n) ops) =
      sum_list (map (\<lambda>(k, i). estimatedSize k i) (mtSnapshot B (foldl (mtApply B) (mtNew B n) ops))) \<and>
    mtCurrent B (foldl (mtApply B) (mtNew B n) ops) = foldl specApply (\<lambda>_. []) ops"
proof -
  have "sizeSoFar (mtNew B n) = tableSize (map_of (btAscend B (tree (mtNew B n))))"
    by (simp add: mtNew_def new_empty tableSize_def)
  moreover have "mtCurrent B (mtNew B n) = (\<lambda>_. [])" by (rule ext) simp
  ultimately show ?thesis
    using mtRun [of "mtNew B n" ops]
    by (simp add: mtSize_def mtSnapshot_def entriesLocked_def tableSize_flat ascend_distinct)
qed

end

section \<open>Sorted association lists as a tree\<close>

fun alInsert :: "string \<Rightarrow> DataItem list \<Rightarrow> (string \<times> DataItem list) list \<Rightarrow> (string \<times> DataItem list) list" where
  "alInsert k v [] = [(k, v)]"
| "alInsert k v ((k', v') # xs) =
     (if k < k' then (k, v) # (k', v') # xs
      else if k = k' then (k, v) # xs
      else (k', v') # alInsert k v xs)"

definition alTree :: "(string \<times> DataItem list) list btree_ops" where
  "alTree = \<lparr>btNew = [], btGet = map_of, btReplaceOrInsert = (\<lambda>t k v. alInsert k v t),
     btDelete = (\<lambda>t k. filter (\<lambda>p. fst p \<noteq> k) t), btAscend = (\<lambda>t. t)\<rparr>"

definition alInv :: "(string \<times> DataItem list) list \<Rightarrow> bool" where
  "alInv t = sorted_wrt (<) (map fst t)"

lemma set_alInsert: "fst ` set (alInsert k v t) = insert k (fst ` set t)"
  by (induction k v t rule: alInsert.induct) (simp_all add: insert_commute)

lemma alInv_insert: "alInv t \<Longrightarrow> alInv (alInsert k v t)"
proof (induction t)
  case (Cons p t)
  obtain k' v' where p: "p = (k', v')" by fastforce
  have "set (map fst (alInsert k v t)) = insert k (set (map fst t))"
    using set_alInsert [of k v t] by simp
  with Cons p show ?case unfolding alInv_def
    by (auto simp del: set_map intro: less_trans simp: not_less_iff_gr_or_eq)
qed (simp add: alInv_def)

lemma map_of_alInsert: "alInv t \<Longrightarrow> map_of (alInsert k v t) = (map_of t)(k \<mapsto> v)"
  by (induction t) (auto simp: alInv_def fun_eq_iff)

interpretation al: btree alTree alInv
proof
  fix t :: "(string \<times> DataItem list) list" and k v
  assume t: "alInv t"
  show "sorted_wrt (<) (map fst (btAscend alTree t))" using t by (simp add: alTree_def alInv_def)
  show "btGet alTree t k = map_of (btAscend alTree t) k" by (simp add: alTree_def)
  show "alInv (btReplaceOrInsert alTree t k v)" using t by (simp add: alTree_def alInv_insert)
  show "map_of (btAscend alTree (btReplaceOrInsert alTree t k v)) = (map_of (btAscend alTree t))(k \<mapsto> v)"
    using t by (simp add: alTree_def map_of_alInsert)
  show "alInv (btDelete alTree t k)"
    using t by (auto simp: alTree_def alInv_def sorted_wrt_map intro: sorted_wrt_filter)
  show "map_of (btAscend alTree (btDelete alTree t k)) = (map_of (btAscend alTree t))(k := None)"
    by (induction t) (auto simp: alTree_def fun_eq_iff)
qed (simp_all add: alTree_def alInv_def)

section \<open>Properties\<close>

text \<open>
  C23: Whatever sequence of writes, put-backs, verbatim replacements and clears a table has gone
  through, its size is the sum of the estimates of the entries it holds, its snapshot lists the keys
  in ascending order, and the versions the snapshot has for a key are those the specification of the
  operations gives. The hypothesis is that the tree is an ordered map.
\<close>

theorem memtable_run:
  fixes B :: "'t btree_ops" and n ops
  assumes "btree B binv"
  defines "m \<equiv> foldl (mtApply B) (mtNew B n) ops"
  shows "mtSize m = sum_list (map (\<lambda>(k, i). estimatedSize k i) (mtSnapshot B m)) \<and>
    sorted (map fst (mtSnapshot B m)) \<and>
    versionsOf (mtSnapshot B m) key = foldl specApply (\<lambda>_. []) ops key \<and>
    mtCurrent B m key = foldl specApply (\<lambda>_. []) ops key"
  using btree.mtRun_New [OF assms(1), of n ops] btree.Snapshot_sorted [OF assms(1), of m]
    btree.versionsOf_Snapshot [OF assms(1), of m key]
  by (simp add: m_def)

theorem memtable_run_witness:
  "let a = \<lparr>Value = JStr ''x'', VectorClock = fmap_of_list [(''n1'', 1)],
            LastUpdatedBy = ''n1'', IsDeleted = False\<rparr>;
       m = foldl (mtApply alTree) (mtNew alTree 1000) [MPut ''k'' a, MReplace ''j'' [a]]
   in versionsOf (mtSnapshot alTree m) ''k'' = [a]"
  using memtable_run [OF al.btree_axioms, of 1000 "[MPut ''k'' a, MReplace ''j'' [a]]" "''k''" for a]
  by (simp add: Let_def)

text \<open>
  A write keeps what the shared conflict resolution keeps: after \<open>Put\<close> the key's set holds the
  same versions as \<open>Resolve\<close> of the old set, still an antichain, with a surviving write first, and
  no other key changes.
\<close>

theorem memtable_put_resolves:
  fixes B :: "'t btree_ops" and m key item
  assumes "btree B binv" "binv (tree m)" "antichain (mtCurrent B m key)"
  defines "m' \<equiv> fst (mtPut B m key item)"
  shows "mset (mtCurrent B m' key) = mset (Resolve (mtCurrent B m key) item) \<and>
    antichain (mtCurrent B m' key) \<and>
    (item \<in> set (mtCurrent B m' key) \<and> item \<notin> set (mtCurrent B m key) \<longrightarrow> hd (mtCurrent B m' key) = item) \<and>
    (key' \<noteq> key \<longrightarrow> mtCurrent B m' key' = mtCurrent B m key')"
proof -
  let ?c = "mtCurrent B m key"
  have c: "mtCurrent B m' = (mtCurrent B m)(key :=
      (if covers ?c (clk item) then [] else [item]) @ filter (\<lambda>x. \<not> clk x < clk item) ?c)"
    using btree.current_Put [OF assms(1,2)] by (simp add: m'_def)
  have "antichain (mtCurrent B m' key)"
    using assms(3) by (auto simp: c antichain_append antichain_filter covers_def less_le_not_le)
  then show ?thesis by (auto simp: c Resolve_eq)
qed

theorem memtable_put_resolves_witness:
  "let a = \<lparr>Value = JStr ''x'', VectorClock = fmap_of_list [(''n1'', 1)],
            LastUpdatedBy = ''n1'', IsDeleted = False\<rparr>
   in mset (mtCurrent alTree (fst (mtPut alTree (mtNew alTree 9) ''k'' a)) ''k'') =
        mset (Resolve (mtCurrent alTree (mtNew alTree 9) ''k'') a)"
  unfolding Let_def
  by (intro memtable_put_resolves [OF al.btree_axioms, THEN conjunct1]) simp_all

end
