(* ===== verification/Wal.thy ===== *)
theory Wal
  imports Versioning "HOL-Library.Sublist"
begin

text \<open>
  One segment of the write-ahead log (src/internal/storage/wal/wal.go): its records, the file they
  are appended to, and their replay.

  An entry's two forms are the constructors of \<open>walEntry\<close>: \<open>Item\<close> is used only by a put and \<open>Items\<close>
  only by a restore. A record on disk is the payload's length and CRC-32, big-endian, then the
  payload, a JSON object. A file is its contents and the contents that would survive a crash, which
  are those of the last successful \<open>Sync\<close>. The outcomes of the file operations are arguments: how
  many bytes a failing \<open>Write\<close> still wrote, whether a \<open>Sync\<close>, \<open>Truncate\<close>, \<open>Stat\<close> or \<open>Seek\<close> succeeds.
  Error messages are reduced to what their callers distinguish.
\<close>

section \<open>Records\<close>

datatype walEntry = OpPut string DataItem | OpRestore string "DataItem list"

record itemRecord =
  irValue :: "json option"
  irVectorClock :: "vclock option"
  irLastUpdatedBy :: string
  irIsDeleted :: bool

record walRecord =
  wrKey :: string
  wrValue :: "json option"
  wrVectorClock :: "vclock option"
  wrLastUpdatedBy :: string
  wrIsDeleted :: bool
  wrOp :: nat
  wrItems :: "itemRecord list"

datatype recordError = UnmarshalValue | UnknownOp nat string

text \<open>The zero value of each struct; a nil \<open>json.RawMessage\<close> or map is \<open>None\<close>.\<close>

definition zeroItemRecord :: itemRecord where
  "zeroItemRecord = \<lparr>irValue = None, irVectorClock = None, irLastUpdatedBy = [], irIsDeleted = False\<rparr>"

definition zeroWalRecord :: walRecord where
  "zeroWalRecord = \<lparr>wrKey = [], wrValue = None, wrVectorClock = None, wrLastUpdatedBy = [],
     wrIsDeleted = False, wrOp = 0, wrItems = []\<rparr>"

definition toItemRecord :: "DataItem \<Rightarrow> itemRecord" where
  "toItemRecord item =
     \<lparr>irValue = Some (Value item), irVectorClock = Some (Snapshot (VectorClock item)),
      irLastUpdatedBy = LastUpdatedBy item, irIsDeleted = IsDeleted item\<rparr>"

text \<open>\<open>FromSnapshot\<close> of a nil map is the empty clock.\<close>

definition clockOf :: "vclock option \<Rightarrow> vclock" where
  "clockOf c = FromSnapshot (case c of None \<Rightarrow> fmempty | Some m \<Rightarrow> m)"

definition fromItemRecord :: "itemRecord \<Rightarrow> DataItem option" where
  "fromItemRecord r =
     (case irValue r of
        None \<Rightarrow> None
      | Some v \<Rightarrow>
          Some \<lparr>Value = v, VectorClock = clockOf (irVectorClock r),
                LastUpdatedBy = irLastUpdatedBy r, IsDeleted = irIsDeleted r\<rparr>)"

fun toRecord :: "walEntry \<Rightarrow> walRecord" where
  "toRecord (OpPut key item) =
     (let ir = toItemRecord item
      in \<lparr>wrKey = key, wrValue = irValue ir, wrVectorClock = irVectorClock ir,
          wrLastUpdatedBy = irLastUpdatedBy ir, wrIsDeleted = irIsDeleted ir, wrOp = 0, wrItems = []\<rparr>)"
| "toRecord (OpRestore key items) =
     zeroWalRecord\<lparr>wrKey := key, wrOp := 1, wrItems := map toItemRecord items\<rparr>"

definition fromRecord :: "walRecord \<Rightarrow> recordError + walEntry" where
  "fromRecord r =
     (if wrOp r = 0 then
        (case fromItemRecord \<lparr>irValue = wrValue r, irVectorClock = wrVectorClock r,
             irLastUpdatedBy = wrLastUpdatedBy r, irIsDeleted = wrIsDeleted r\<rparr> of
           None \<Rightarrow> Inl UnmarshalValue
         | Some item \<Rightarrow> Inr (OpPut (wrKey r) item))
      else if wrOp r = 1 then
        (case those (map fromItemRecord (wrItems r)) of
           None \<Rightarrow> Inl UnmarshalValue
         | Some items \<Rightarrow> Inr (OpRestore (wrKey r) items))
      else Inl (UnknownOp (wrOp r) (wrKey r)))"

section \<open>JSON form of the records\<close>

definition marshalClock :: "vclock option \<Rightarrow> json" where
  "marshalClock c =
     (case c of
        None \<Rightarrow> JNull
      | Some m \<Rightarrow>
          JObj (map (\<lambda>n. (n, JNum (itoa (unat (vcAt m n))))) (sorted_list_of_fset (fmdom m))))"

definition marshalRaw :: "json option \<Rightarrow> json" where
  "marshalRaw v = (case v of None \<Rightarrow> JNull | Some j \<Rightarrow> j)"

definition itemRecordJson :: "itemRecord \<Rightarrow> json" where
  "itemRecordJson r =
     JObj [(''Value'', marshalRaw (irValue r)), (''VectorClock'', marshalClock (irVectorClock r)),
           (''LastUpdatedBy'', JStr (irLastUpdatedBy r)), (''IsDeleted'', JBool (irIsDeleted r))]"

definition walRecordJson :: "walRecord \<Rightarrow> json" where
  "walRecordJson r =
     JObj ([(''Key'', JStr (wrKey r)), (''Value'', marshalRaw (wrValue r)),
            (''VectorClock'', marshalClock (wrVectorClock r)),
            (''LastUpdatedBy'', JStr (wrLastUpdatedBy r)), (''IsDeleted'', JBool (wrIsDeleted r))] @
           (if wrOp r = 0 then [] else [(''Op'', JNum (itoa (wrOp r)))]) @
           (if wrItems r = [] then [] else [(''Items'', JArr (map itemRecordJson (wrItems r)))]))"

text \<open>A null counter is 0, as a map element is decoded into a fresh zero value.\<close>

definition setCounter :: "vclock option \<Rightarrow> string \<times> json \<Rightarrow> vclock option" where
  "setCounter acc m =
     (case (acc, setUint 32 (snd m) 0) of
        (Some c, Some n) \<Rightarrow> Some (fmupd (fst m) (word_of_nat n) c)
      | _ \<Rightarrow> None)"

definition setClock :: "json \<Rightarrow> vclock option \<Rightarrow> vclock option option" where
  "setClock j prev =
     (case j of
        JNull \<Rightarrow> Some None
      | JObj ms \<Rightarrow>
          map_option Some (foldl setCounter (Some (case prev of None \<Rightarrow> fmempty | Some m \<Rightarrow> m)) ms)
      | _ \<Rightarrow> None)"

definition setItemField :: "itemRecord \<Rightarrow> string \<Rightarrow> json \<Rightarrow> itemRecord option" where
  "setItemField r k j =
     (if fieldIs k ''Value'' then Some (r\<lparr>irValue := Some j\<rparr>)
      else if fieldIs k ''VectorClock'' then
        map_option (\<lambda>c. r\<lparr>irVectorClock := c\<rparr>) (setClock j (irVectorClock r))
      else if fieldIs k ''LastUpdatedBy'' then
        map_option (\<lambda>s. r\<lparr>irLastUpdatedBy := s\<rparr>) (setString j (irLastUpdatedBy r))
      else if fieldIs k ''IsDeleted'' then
        map_option (\<lambda>b. r\<lparr>irIsDeleted := b\<rparr>) (setBool j (irIsDeleted r))
      else Some r)"

definition setItems :: "json \<Rightarrow> itemRecord list option" where
  "setItems j =
     (case j of
        JNull \<Rightarrow> Some []
      | JArr js \<Rightarrow> those (map (unmarshalStruct setItemField zeroItemRecord) js)
      | _ \<Rightarrow> None)"

definition setRecordField :: "walRecord \<Rightarrow> string \<Rightarrow> json \<Rightarrow> walRecord option" where
  "setRecordField r k j =
     (if fieldIs k ''Key'' then map_option (\<lambda>s. r\<lparr>wrKey := s\<rparr>) (setString j (wrKey r))
      else if fieldIs k ''Value'' then Some (r\<lparr>wrValue := Some j\<rparr>)
      else if fieldIs k ''VectorClock'' then
        map_option (\<lambda>c. r\<lparr>wrVectorClock := c\<rparr>) (setClock j (wrVectorClock r))
      else if fieldIs k ''LastUpdatedBy'' then
        map_option (\<lambda>s. r\<lparr>wrLastUpdatedBy := s\<rparr>) (setString j (wrLastUpdatedBy r))
      else if fieldIs k ''IsDeleted'' then
        map_option (\<lambda>b. r\<lparr>wrIsDeleted := b\<rparr>) (setBool j (wrIsDeleted r))
      else if fieldIs k ''Op'' then map_option (\<lambda>n. r\<lparr>wrOp := n\<rparr>) (setUint 8 j (wrOp r))
      else if fieldIs k ''Items'' then map_option (\<lambda>is. r\<lparr>wrItems := is\<rparr>) (setItems j)
      else Some r)"

definition unmarshalRecord :: "string \<Rightarrow> walRecord option" where
  "unmarshalRecord payload =
     (case parseJson payload of
        None \<Rightarrow> None
      | Some j \<Rightarrow> unmarshalStruct setRecordField zeroWalRecord j)"

section \<open>The file and its operations\<close>

definition headerSize :: nat where
  "headerSize = 8"

definition Encode :: "walEntry \<Rightarrow> string" where
  "Encode entry =
     (let payload = jsonText (walRecordJson (toRecord entry))
      in putUint32 (word_of_nat (length payload)) @ putUint32 (crc32 payload) @ payload)"

record walFile =
  content :: string
  durable :: string

datatype walError = WriteFailed | SyncFailed | StatFailed | SeekFailed | TruncateFailed | BadOp nat string

text \<open>\<open>None\<close>: the write succeeds; \<open>Some n\<close>: it fails after \<open>n\<close> bytes.\<close>

type_synonym writeOutcome = "nat option"

definition fileWrite :: "walFile \<Rightarrow> string \<Rightarrow> writeOutcome \<Rightarrow> walFile \<times> bool" where
  "fileWrite f b wo =
     (case wo of
        None \<Rightarrow> (f\<lparr>content := content f @ b\<rparr>, True)
      | Some n \<Rightarrow> (f\<lparr>content := content f @ take n b\<rparr>, False))"

definition fileSync :: "walFile \<Rightarrow> bool \<Rightarrow> walFile \<times> bool" where
  "fileSync f ok = (if ok then (f\<lparr>durable := content f\<rparr>, True) else (f, False))"

definition writeAndSync :: "walFile \<Rightarrow> string \<Rightarrow> writeOutcome \<Rightarrow> bool \<Rightarrow> walFile \<times> walError option" where
  "writeAndSync f b wo so =
     (let (f1, written) = fileWrite f b wo in
      if \<not> written then (f1, Some WriteFailed)
      else
        let (f2, synced) = fileSync f1 so
        in if \<not> synced then (f2, Some SyncFailed) else (f2, None))"

definition Append :: "walFile \<Rightarrow> walEntry \<Rightarrow> writeOutcome \<Rightarrow> bool \<Rightarrow> walFile \<times> walError option" where
  "Append f entry wo so = writeAndSync f (Encode entry) wo so"

definition WriteBatch :: "walFile \<Rightarrow> string list \<Rightarrow> writeOutcome \<Rightarrow> bool \<Rightarrow> walFile \<times> walError option" where
  "WriteBatch f records wo so =
     (if records = [] then (f, None) else writeAndSync f (concat records) wo so)"

text \<open>
  The loop of \<open>Replay\<close> over what is left of the file; \<open>validEnd\<close> is the end of the last valid record,
  which is where the loop stands whenever it goes round.
\<close>

function replayLoop :: "string \<Rightarrow> nat \<Rightarrow> walEntry list \<Rightarrow> walError + (walEntry list \<times> nat)" where
  "replayLoop rest validEnd entries =
     (if length rest < headerSize then Inr (entries, validEnd)
      else
        let len = unat (getUint32 rest);
            wantChecksum = getUint32 (drop 4 rest);
            body = drop headerSize rest
        in if len > length body then Inr (entries, validEnd)
           else
             let payload = take len body
             in if crc32 payload \<noteq> wantChecksum then Inr (entries, validEnd)
                else
                  (case unmarshalRecord payload of
                     None \<Rightarrow> Inr (entries, validEnd)
                   | Some rec \<Rightarrow>
                       (case fromRecord rec of
                          Inl UnmarshalValue \<Rightarrow> Inr (entries, validEnd)
                        | Inl (UnknownOp op key) \<Rightarrow> Inl (BadOp op key)
                        | Inr entry \<Rightarrow>
                            replayLoop (drop len body) (validEnd + headerSize + len) (entries @ [entry]))))"
  by pat_completeness auto
termination
  by (relation "measure (\<lambda>(rest, _, _). length rest)") (auto simp: headerSize_def)

declare replayLoop.simps [simp del]

record replayIO =
  statOk :: bool
  seekStartOk :: bool
  truncateOk :: bool
  truncSyncOk :: bool
  seekEndOk :: bool

definition Replay :: "walFile \<Rightarrow> replayIO \<Rightarrow> walFile \<times> (walError + walEntry list)" where
  "Replay f io =
     (if \<not> statOk io then (f, Inl StatFailed)
      else if \<not> seekStartOk io then (f, Inl SeekFailed)
      else
        (case replayLoop (content f) 0 [] of
           Inl e \<Rightarrow> (f, Inl e)
         | Inr (entries, validEnd) \<Rightarrow>
             if validEnd < length (content f) \<and> \<not> truncateOk io then (f, Inl TruncateFailed)
             else
               let f1 = (if validEnd < length (content f)
                         then f\<lparr>content := take validEnd (content f)\<rparr> else f);
                   (f2, synced) = (if validEnd < length (content f)
                                   then fileSync f1 (truncSyncOk io) else (f1, True))
               in if \<not> synced then (f2, Inl SyncFailed)
                  else if \<not> seekEndOk io then (f2, Inl SeekFailed)
                  else (f2, Inr entries)))"

text \<open>
  What a crash can leave: the contents of the last successful \<open>Sync\<close>, followed by some of the bytes
  written since.
\<close>

definition crashLeaves :: "walFile \<Rightarrow> string \<Rightarrow> bool" where
  "crashLeaves f c \<longleftrightarrow> c = durable f \<or> prefix (durable f) c \<and> prefix c (content f)"

section \<open>A record parses back\<close>

definition itemOk :: "DataItem \<Rightarrow> bool" where
  "itemOk item \<longleftrightarrow> jsonOk (Value item) \<and> validUtf8 (LastUpdatedBy item) \<and>
     (\<forall>n \<in> fset (fmdom (VectorClock item)). validUtf8 n)"

fun entryOk :: "walEntry \<Rightarrow> bool" where
  "entryOk (OpPut key item) = (validUtf8 key \<and> itemOk item)"
| "entryOk (OpRestore key items) = (validUtf8 key \<and> list_all itemOk items)"

text \<open>An entry that the log can hold: its strings are UTF-8 and its payload's length fits 32 bits.\<close>

definition entryFits :: "walEntry \<Rightarrow> bool" where
  "entryFits e \<longleftrightarrow> entryOk e \<and> length (jsonText (walRecordJson (toRecord e))) < 2 ^ 32"

lemma fieldIs_refl [simp]: "fieldIs k k"
  by (simp add: fieldIs_def)

lemma fieldIs_names [simp]:
  "\<not> fieldIs ''Key'' ''Value''" "\<not> fieldIs ''Key'' ''VectorClock''" "\<not> fieldIs ''Key'' ''LastUpdatedBy''"
  "\<not> fieldIs ''Key'' ''IsDeleted''" "\<not> fieldIs ''Key'' ''Op''" "\<not> fieldIs ''Key'' ''Items''"
  "\<not> fieldIs ''Value'' ''Key''" "\<not> fieldIs ''Value'' ''VectorClock''" "\<not> fieldIs ''Value'' ''LastUpdatedBy''"
  "\<not> fieldIs ''Value'' ''IsDeleted''" "\<not> fieldIs ''Value'' ''Op''" "\<not> fieldIs ''Value'' ''Items''"
  "\<not> fieldIs ''VectorClock'' ''Key''" "\<not> fieldIs ''VectorClock'' ''Value''" "\<not> fieldIs ''VectorClock'' ''LastUpdatedBy''"
  "\<not> fieldIs ''VectorClock'' ''IsDeleted''" "\<not> fieldIs ''VectorClock'' ''Op''" "\<not> fieldIs ''VectorClock'' ''Items''"
  "\<not> fieldIs ''LastUpdatedBy'' ''Key''" "\<not> fieldIs ''LastUpdatedBy'' ''Value''" "\<not> fieldIs ''LastUpdatedBy'' ''VectorClock''"
  "\<not> fieldIs ''LastUpdatedBy'' ''IsDeleted''" "\<not> fieldIs ''LastUpdatedBy'' ''Op''" "\<not> fieldIs ''LastUpdatedBy'' ''Items''"
  "\<not> fieldIs ''IsDeleted'' ''Key''" "\<not> fieldIs ''IsDeleted'' ''Value''" "\<not> fieldIs ''IsDeleted'' ''VectorClock''"
  "\<not> fieldIs ''IsDeleted'' ''LastUpdatedBy''" "\<not> fieldIs ''IsDeleted'' ''Op''" "\<not> fieldIs ''IsDeleted'' ''Items''"
  "\<not> fieldIs ''Op'' ''Key''" "\<not> fieldIs ''Op'' ''Value''" "\<not> fieldIs ''Op'' ''VectorClock''"
  "\<not> fieldIs ''Op'' ''LastUpdatedBy''" "\<not> fieldIs ''Op'' ''IsDeleted''" "\<not> fieldIs ''Op'' ''Items''"
  "\<not> fieldIs ''Items'' ''Key''" "\<not> fieldIs ''Items'' ''Value''" "\<not> fieldIs ''Items'' ''VectorClock''"
  "\<not> fieldIs ''Items'' ''LastUpdatedBy''" "\<not> fieldIs ''Items'' ''IsDeleted''" "\<not> fieldIs ''Items'' ''Op''"
  by (simp_all add: fieldIs_def foldCase_def between_def char_of_eq_iff)

lemma setCounter_foldl:
  "foldl setCounter (Some c) (map (\<lambda>n. (n, JNum (itoa (unat (vcAt m n))))) ns) =
    Some (foldl (\<lambda>c n. fmupd n (vcAt m n) c) c ns)"
proof (induction ns arbitrary: c)
  case (Cons n ns)
  have "unat (vcAt m n) < 2 ^ 32" using unsigned_less [of "vcAt m n"] by simp
  then have "setUint 32 (JNum (itoa (unat (vcAt m n)))) 0 = Some (unat (vcAt m n))"
    by (simp add: setUint_def parseUint_itoa)
  with Cons show ?case by (simp add: setCounter_def)
qed simp

lemma fmlookup_foldl_upd:
  "fmlookup (foldl (\<lambda>c n. fmupd n (g n) c) c ns) x = (if x \<in> set ns then Some (g x) else fmlookup c x)"
  by (induction ns arbitrary: c) auto

lemma setClock_marshal [simp]: "setClock (marshalClock (Some m)) None = Some (Some m)"
proof -
  have "foldl (\<lambda>c n. fmupd n (vcAt m n) c) fmempty (sorted_list_of_fset (fmdom m)) = m"
    by (rule fmap_ext) (auto simp: fmlookup_foldl_upd vcAt_def fmlookup_dom_iff
        sorted_list_of_fset.rep_eq split: option.splits)
  then show ?thesis by (simp add: marshalClock_def setClock_def setCounter_foldl)
qed

lemma setClock_None [simp]: "setClock (marshalClock None) c = Some None"
  by (simp add: marshalClock_def setClock_def)

lemma unmarshalItem:
  "unmarshalStruct setItemField zeroItemRecord (itemRecordJson (toItemRecord item)) = Some (toItemRecord item)"
  by (simp add: unmarshalStruct_def itemRecordJson_def setItemField_def toItemRecord_def zeroItemRecord_def
      setString_def setBool_def marshalRaw_def)

lemma those_map: "(\<And>x. x \<in> set xs \<Longrightarrow> f x = Some (g x)) \<Longrightarrow> those (map f xs) = Some (map g xs)"
  by (induction xs) auto

lemma unmarshalStruct_toRecord:
  "unmarshalStruct setRecordField zeroWalRecord (walRecordJson (toRecord e)) =
    Some (case e of OpPut _ _ \<Rightarrow> toRecord e | OpRestore _ _ \<Rightarrow> (toRecord e)\<lparr>wrValue := Some JNull\<rparr>)"
proof (cases e)
  case (OpPut key item)
  then show ?thesis
    by (simp add: unmarshalStruct_def walRecordJson_def setRecordField_def toItemRecord_def
        zeroWalRecord_def setString_def setBool_def marshalRaw_def)
next
  case (OpRestore key items)
  have "those (map (unmarshalStruct setItemField zeroItemRecord)
      (map itemRecordJson (map toItemRecord items))) = Some (map toItemRecord items)"
    unfolding map_map comp_def by (rule those_map) (rule unmarshalItem)
  with OpRestore show ?thesis
    by (auto simp: unmarshalStruct_def walRecordJson_def setRecordField_def setItems_def
        zeroWalRecord_def setString_def setBool_def setUint_def parseUint_itoa marshalRaw_def)
qed

lemma fromItemRecord_to [simp]: "fromItemRecord (toItemRecord item) = Some item"
  by (simp add: fromItemRecord_def toItemRecord_def clockOf_def Snapshot_id FromSnapshot_id)

lemma fromRecord_toRecord:
  "fromRecord (case e of OpPut _ _ \<Rightarrow> toRecord e | OpRestore _ _ \<Rightarrow> (toRecord e)\<lparr>wrValue := Some JNull\<rparr>) = Inr e"
proof (cases e)
  case (OpPut key item)
  then show ?thesis
    using fromItemRecord_to [of item] by (simp add: fromRecord_def toItemRecord_def)
next
  case (OpRestore key items)
  have "those (map fromItemRecord (map toItemRecord items)) = Some items"
    unfolding map_map comp_def using those_map [of items "\<lambda>x. fromItemRecord (toItemRecord x)" "\<lambda>x. x"]
    by simp
  with OpRestore show ?thesis by (simp add: fromRecord_def zeroWalRecord_def)
qed

lemma jsonOk_marshalClock:
  "(\<And>n. n \<in> fset (fmdom m) \<Longrightarrow> validUtf8 n) \<Longrightarrow> jsonOk (marshalClock (Some m))"
  using jsonOk_itoa by (auto simp: marshalClock_def list_all_iff sorted_list_of_fset.rep_eq)

lemma names_utf8 [simp]:
  "validUtf8 ''Key''" "validUtf8 ''Value''" "validUtf8 ''VectorClock''" "validUtf8 ''LastUpdatedBy''"
  "validUtf8 ''IsDeleted''" "validUtf8 ''Op''" "validUtf8 ''Items''"
  by (simp_all add: validUtf8.simps utf8Len_ascii)

lemma jsonOk_item: "itemOk item \<Longrightarrow> jsonOk (itemRecordJson (toItemRecord item))"
  using jsonOk_marshalClock [of "VectorClock item"]
  by (simp add: itemOk_def itemRecordJson_def toItemRecord_def marshalRaw_def Snapshot_id)

lemma jsonOk_record: "entryOk e \<Longrightarrow> jsonOk (walRecordJson (toRecord e))"
proof (cases e)
  case (OpPut key item)
  moreover assume "entryOk e"
  ultimately show ?thesis
    using jsonOk_marshalClock [of "VectorClock item"]
    by (simp add: itemOk_def walRecordJson_def toItemRecord_def marshalRaw_def Snapshot_id)
next
  case (OpRestore key items)
  moreover assume "entryOk e"
  ultimately show ?thesis
    using jsonOk_item jsonOk_itoa [of 1]
    by (auto simp: walRecordJson_def zeroWalRecord_def marshalRaw_def marshalClock_def list_all_iff
        simp del: jsonOk_itoa)
qed

lemma unmarshal_fromRecord:
  assumes "entryOk e"
  shows "\<exists>rec. unmarshalRecord (jsonText (walRecordJson (toRecord e))) = Some rec \<and> fromRecord rec = Inr e"
  using jsonOk_record [OF assms]
  by (simp add: unmarshalRecord_def parseJson_jsonText unmarshalStruct_toRecord fromRecord_toRecord)

section \<open>Replay\<close>

abbreviation encodeAll :: "walEntry list \<Rightarrow> string" where
  "encodeAll es \<equiv> concat (map Encode es)"

lemma replayLoop_Encode:
  assumes "entryFits e"
  shows "replayLoop (Encode e @ rest) v acc = replayLoop rest (v + length (Encode e)) (acc @ [e])"
proof -
  define p where "p = jsonText (walRecordJson (toRecord e))"
  have len: "unat (word_of_nat (length p) :: u32) = length p"
    using assms by (simp add: entryFits_def p_def unat_of_nat)
  have enc: "Encode e @ rest = putUint32 (word_of_nat (length p)) @ putUint32 (crc32 p) @ p @ rest"
    by (simp add: Encode_def p_def Let_def)
  from unmarshal_fromRecord [of e] assms obtain rec
    where rec: "unmarshalRecord p = Some rec" "fromRecord rec = Inr e"
    by (auto simp: entryFits_def p_def)
  have "replayLoop (Encode e @ rest) v acc = replayLoop rest (v + headerSize + length p) (acc @ [e])"
    unfolding enc by (subst replayLoop.simps) (simp add: len rec headerSize_def)
  moreover have "length (Encode e) = headerSize + length p"
    by (simp add: Encode_def p_def headerSize_def Let_def)
  ultimately show ?thesis by (simp add: add.assoc)
qed

lemma replayLoop_all:
  "list_all entryFits es \<Longrightarrow>
    replayLoop (encodeAll es @ rest) v acc = replayLoop rest (v + length (encodeAll es)) (acc @ es)"
proof (induction es arbitrary: v acc)
  case (Cons e es)
  then show ?case by (simp add: replayLoop_Encode add.assoc)
qed simp

lemma replayLoop_torn:
  assumes "entryFits e" "strict_prefix t (Encode e)"
  shows "replayLoop t v acc = Inr (acc, v)"
proof (cases "length t < headerSize")
  case True
  then show ?thesis by (subst replayLoop.simps) simp
next
  case False
  define p where "p = jsonText (walRecordJson (toRecord e))"
  define h where "h = putUint32 (word_of_nat (length p)) @ putUint32 (crc32 p)"
  have enc: "Encode e = h @ p" by (simp add: Encode_def p_def h_def Let_def)
  have len: "unat (word_of_nat (length p) :: u32) = length p"
    using assms by (simp add: entryFits_def p_def unat_of_nat)
  from assms(2) obtain u where u: "Encode e = t @ u" "u \<noteq> []" by (auto simp: strict_prefix_def prefix_def)
  have "length h = headerSize" by (simp add: h_def headerSize_def)
  moreover have "prefix h (Encode e)" by (simp add: enc)
  moreover have "prefix t (Encode e)" by (simp add: u(1))
  ultimately have "prefix h t" using False prefix_length_prefix by fastforce
  then obtain b where b: "t = h @ b" by (auto simp: prefix_def)
  with u(1) enc have p: "p = b @ u" by simp
  have "getUint32 t = word_of_nat (length p)" by (simp add: b h_def)
  moreover have "length (drop headerSize t) < length p"
    using b p u(2) \<open>length h = headerSize\<close> by simp
  ultimately show ?thesis by (subst replayLoop.simps) (simp add: len)
qed

lemma replayLoop_Nil [simp]: "replayLoop [] v acc = Inr (acc, v)"
  by (subst replayLoop.simps) (simp add: headerSize_def)

lemma prefix_encodeAll:
  "prefix p (encodeAll es) \<Longrightarrow>
    \<exists>k t. p = encodeAll (take k es) @ t \<and> k \<le> length es \<and>
      (t = [] \<or> k < length es \<and> strict_prefix t (Encode (es ! k)))"
proof (induction es arbitrary: p)
  case (Cons e es)
  show ?case
  proof (cases "strict_prefix p (Encode e)")
    case True
    then show ?thesis by (intro exI [of _ 0] exI [of _ p]) simp
  next
    case False
    with Cons.prems obtain q where q: "p = Encode e @ q" "prefix q (encodeAll es)"
      by (force simp: prefix_append strict_prefix_def)
    with Cons.IH obtain k t where "q = encodeAll (take k es) @ t" "k \<le> length es"
      "t = [] \<or> k < length es \<and> strict_prefix t (Encode (es ! k))" by blast
    with q show ?thesis by (intro exI [of _ "Suc k"] exI [of _ t]) auto
  qed
qed simp

lemma replay_prefix:
  assumes "list_all entryFits es" "list_all entryFits batch" "prefix p (encodeAll batch)"
  shows "\<exists>k \<le> length batch. replayLoop (encodeAll es @ p) 0 [] =
      Inr (es @ take k batch, length (encodeAll (es @ take k batch))) \<and>
    prefix (encodeAll (take k batch)) p \<and> (p = encodeAll batch \<longrightarrow> k = length batch)"
proof -
  from prefix_encodeAll [OF assms(3)] obtain k t where k: "p = encodeAll (take k batch) @ t"
    "k \<le> length batch" "t = [] \<or> k < length batch \<and> strict_prefix t (Encode (batch ! k))" by blast
  have fits: "list_all entryFits (es @ take k batch)"
    using assms(1,2) by (auto simp: list_all_iff dest: in_set_takeD)
  have "replayLoop t v acc = Inr (acc, v)" for v acc
    using k(3) assms(2) replayLoop_torn [of "batch ! k" t] by (auto simp: list_all_length)
  with replayLoop_all [OF fits, of t 0 "[]"] k(1)
  have r: "replayLoop (encodeAll es @ p) 0 [] =
      Inr (es @ take k batch, length (encodeAll (es @ take k batch)))" by simp
  have "k = length batch" if "p = encodeAll batch"
  proof (rule ccontr)
    assume "k \<noteq> length batch"
    with k(2) have lt: "k < length batch" by simp
    have "encodeAll batch = encodeAll (take k batch) @ Encode (batch ! k) @ encodeAll (drop (Suc k) batch)"
      by (subst id_take_nth_drop [OF lt]) simp
    with that k(1) have "t = Encode (batch ! k) @ encodeAll (drop (Suc k) batch)" by simp
    moreover have "0 < length (Encode (batch ! k))" by (simp add: Encode_def Let_def)
    ultimately show False using k(3) by (auto simp: strict_prefix_def prefix_def)
  qed
  moreover have "prefix (encodeAll (take k batch)) p" by (simp add: k(1))
  ultimately show ?thesis using k(2) r by blast
qed

text \<open>What a batch write with any outcome, then a crash, leaves in the file.\<close>

lemma WriteBatch_crash:
  assumes "list_all entryFits es" "list_all entryFits batch"
    and "content f = encodeAll es" "durable f = encodeAll es"
    and "WriteBatch f (map Encode batch) wo so = (f', err)"
    and "crashLeaves f' c"
  shows "\<exists>k \<le> length batch. (err = None \<longrightarrow> k = length batch) \<and>
    prefix (encodeAll (es @ take k batch)) c \<and>
    replayLoop c 0 [] = Inr (es @ take k batch, length (encodeAll (es @ take k batch)))"
proof -
  have f': "prefix (content f') (encodeAll es @ encodeAll batch)" "prefix (encodeAll es) (durable f')"
    "prefix (durable f') (content f')" "err = None \<longrightarrow> durable f' = encodeAll es @ encodeAll batch"
    using assms(3-5)
    by (auto simp: WriteBatch_def writeAndSync_def fileWrite_def fileSync_def Let_def take_is_prefix
        split: if_splits option.splits)
  with assms(6) have "prefix (encodeAll es) c" "prefix c (encodeAll es @ encodeAll batch)"
    "err = None \<longrightarrow> c = encodeAll es @ encodeAll batch"
    by (auto simp: crashLeaves_def dest: prefix_order.order_trans prefix_order.order_antisym)
  then obtain p where p: "c = encodeAll es @ p" "prefix p (encodeAll batch)"
    "err = None \<longrightarrow> p = encodeAll batch" by (auto simp: prefix_def)
  from replay_prefix [OF assms(1,2) p(2)] obtain k where k: "k \<le> length batch"
    "replayLoop c 0 [] = Inr (es @ take k batch, length (encodeAll (es @ take k batch)))"
    "prefix (encodeAll (take k batch)) p" "p = encodeAll batch \<longrightarrow> k = length batch"
    unfolding p(1) by blast
  from k(3) have "prefix (encodeAll (es @ take k batch)) c" by (simp add: p(1))
  with k(1,2,4) p(3) show ?thesis by blast
qed

lemma fits_example: "list_all entryFits [OpRestore ''k'' []]"
proof -
  have "validUtf8 ''k''" by (simp add: validUtf8.simps utf8Len_ascii)
  moreover have "length (jsonText (walRecordJson (toRecord (OpRestore ''k'' [])))) < 2 ^ 32"
    by (simp add: walRecordJson_def zeroWalRecord_def marshalRaw_def marshalClock_def quoteString_def
        quoteBody.simps escapeASCII_def itoa.simps)
  ultimately show ?thesis by (simp add: entryFits_def)
qed

section \<open>Properties\<close>

text \<open>
  Replay returns exactly what was appended: the records of any entries, read back in order,
  give the same entries, operation, key, items and clocks included, and reach the end of the file.
  Entries are those the log can hold: UTF-8 strings, a payload shorter than 4 GiB.
\<close>

theorem wal_roundtrip:
  assumes "list_all entryFits es"
  shows "replayLoop (concat (map Encode es)) 0 [] = Inr (es, length (concat (map Encode es)))"
  using replayLoop_all [OF assms, of "[]" 0 "[]"] by simp

theorem wal_roundtrip_witness:
  "replayLoop (concat (map Encode [OpRestore ''k'' []])) 0 [] =
    Inr ([OpRestore ''k'' []], length (concat (map Encode [OpRestore ''k'' []])))"
  by (rule wal_roundtrip) (rule fits_example)

text \<open>
  C15: No acknowledged write is lost in a crash. Take a segment whose entries are durable, write a
  batch to it with any outcome of the write and the fsync, crash, and open the segment again: replay
  returns the old entries followed by the first \<open>k\<close> entries of the batch, all of them when the
  batch was acknowledged, and it leaves exactly their records in the file, so that nothing torn is
  left before later appends.
\<close>

theorem wal_crash_recovery:
  assumes "list_all entryFits es" "list_all entryFits batch"
    and "content f = encodeAll es" "durable f = encodeAll es"
    and "WriteBatch f (map Encode batch) wo so = (f', err)"
    and "crashLeaves f' c"
    and "statOk io" "seekStartOk io" "truncateOk io" "truncSyncOk io" "seekEndOk io"
  shows "\<exists>k \<le> length batch. \<exists>g. Replay \<lparr>content = c, durable = c\<rparr> io = (g, Inr (es @ take k batch)) \<and>
    content g = encodeAll (es @ take k batch) \<and> durable g = content g \<and>
    (err = None \<longrightarrow> k = length batch)"
proof -
  obtain k where k: "k \<le> length batch" "err = None \<longrightarrow> k = length batch"
    "prefix (encodeAll (es @ take k batch)) c"
    "replayLoop c 0 [] = Inr (es @ take k batch, length (encodeAll (es @ take k batch)))"
    using WriteBatch_crash [OF assms(1-6)] by blast
  from k(3) obtain t where t: "c = encodeAll (es @ take k batch) @ t" by (auto simp: prefix_def)
  have "\<exists>g. Replay \<lparr>content = c, durable = c\<rparr> io = (g, Inr (es @ take k batch)) \<and>
      content g = encodeAll (es @ take k batch) \<and> durable g = content g"
    using assms(7-11) k(4) t by (auto simp: Replay_def fileSync_def Let_def)
  with k(1,2) show ?thesis by blast
qed

theorem wal_crash_recovery_witness:
  "let c = take 3 (Encode (OpRestore ''k'' []));
       io = \<lparr>statOk = True, seekStartOk = True, truncateOk = True, truncSyncOk = True, seekEndOk = True\<rparr>
   in \<exists>k \<le> 1. \<exists>g. Replay \<lparr>content = c, durable = c\<rparr> io = (g, Inr (take k [OpRestore ''k'' []]))"
proof -
  have "WriteBatch \<lparr>content = [], durable = []\<rparr> (map Encode [OpRestore ''k'' []]) (Some 3) True =
      (\<lparr>content = take 3 (Encode (OpRestore ''k'' [])), durable = []\<rparr>, Some WriteFailed)"
    by (simp add: WriteBatch_def writeAndSync_def fileWrite_def)
  from wal_crash_recovery [of "[]", OF _ fits_example _ _ this, of "take 3 (Encode (OpRestore ''k'' []))"
      "\<lparr>statOk = True, seekStartOk = True, truncateOk = True, truncSyncOk = True, seekEndOk = True\<rparr>"]
  show ?thesis by (auto simp: Let_def crashLeaves_def)
qed

end
