(* ===== verification/Sstable.thy ===== *)
theory Sstable
  imports Memtable Wal
begin

text \<open>
  Sorted string tables (src/internal/storage/sstable): immutable files of records sorted by key,
  followed by a Bloom filter, an index of offsets and a footer. The Bloom filter is the package
  github.com/bits-and-blooms/bloom, which is not part of this repository: its operations are a record
  of functions, and what the tables rely on is the locale \<open>bloom\<close> (no false negatives, and a filter
  reads back as it was written). The locale is interpreted on a bit-array filter.

  A directory is a map from file names to contents; only published files are in it (the temporary
  file that \<open>WriteWithID\<close> renames is never read under its first name). The outcome of the
  file-system calls of one write is an argument.
\<close>

section \<open>Definitions\<close>

record 'f bloom_ops =
  bfNew :: "nat \<Rightarrow> 'f"
  bfAdd :: "'f \<Rightarrow> string \<Rightarrow> 'f"
  bfTest :: "'f \<Rightarrow> string \<Rightarrow> bool"
  bfWriteTo :: "'f \<Rightarrow> string"
  bfReadFrom :: "string \<Rightarrow> 'f option"

type_synonym sstDir = "(string, string) fmap"

type_synonym indexEntry = "string \<times> int"

record 'f SSTable =
  sstID :: string
  sstPath :: string
  MinKey :: string
  MaxKey :: string
  Size :: int
  index :: "indexEntry list"
  sstFilter :: 'f

record sstRecord =
  srKey :: string
  srValue :: "json option"
  srVectorClock :: "vclock option"
  srLastUpdatedBy :: string
  srIsDeleted :: bool

datatype sstError =
    SeekFailedAt | ShortHeader | ShortPayload | ChecksumMismatch | BadRecord | BadValue
  | InvalidID | EmptyTable | NotSorted
  | CreateFailed | RecordWriteFailed | FsyncFailed | SstCloseFailed | RenameFailed | PublishFailed
  | SstOpenFailed | TooSmall | CorruptFooter | BadBloom | BadIndex | EmptyIndex

definition sstToRecord :: "Entry \<Rightarrow> sstRecord" where
  "sstToRecord e =
     \<lparr>srKey = fst e, srValue = Some (Value (snd e)), srVectorClock = Some (Snapshot (VectorClock (snd e))),
      srLastUpdatedBy = LastUpdatedBy (snd e), srIsDeleted = IsDeleted (snd e)\<rparr>"

definition sstFromRecord :: "sstRecord \<Rightarrow> sstError + Entry" where
  "sstFromRecord r =
     (case srValue r of
        None \<Rightarrow> Inl BadValue
      | Some v \<Rightarrow>
          Inr (srKey r, \<lparr>Value = v, VectorClock = clockOf (srVectorClock r),
                         LastUpdatedBy = srLastUpdatedBy r, IsDeleted = srIsDeleted r\<rparr>))"

definition sstRecordJson :: "sstRecord \<Rightarrow> json" where
  "sstRecordJson r =
     JObj [(''Key'', JStr (srKey r)), (''Value'', marshalRaw (srValue r)),
           (''VectorClock'', marshalClock (srVectorClock r)),
           (''LastUpdatedBy'', JStr (srLastUpdatedBy r)), (''IsDeleted'', JBool (srIsDeleted r))]"

definition zeroSstRecord :: sstRecord where
  "zeroSstRecord = \<lparr>srKey = [], srValue = None, srVectorClock = None, srLastUpdatedBy = [], srIsDeleted = False\<rparr>"

definition setSstField :: "sstRecord \<Rightarrow> string \<Rightarrow> json \<Rightarrow> sstRecord option" where
  "setSstField r k j =
     (if fieldIs k ''Key'' then map_option (\<lambda>s. r\<lparr>srKey := s\<rparr>) (setString j (srKey r))
      else if fieldIs k ''Value'' then Some (r\<lparr>srValue := Some j\<rparr>)
      else if fieldIs k ''VectorClock'' then
        map_option (\<lambda>c. r\<lparr>srVectorClock := c\<rparr>) (setClock j (srVectorClock r))
      else if fieldIs k ''LastUpdatedBy'' then
        map_option (\<lambda>s. r\<lparr>srLastUpdatedBy := s\<rparr>) (setString j (srLastUpdatedBy r))
      else if fieldIs k ''IsDeleted'' then
        map_option (\<lambda>b. r\<lparr>srIsDeleted := b\<rparr>) (setBool j (srIsDeleted r))
      else Some r)"

definition recordHeaderSize :: nat where
  "recordHeaderSize = 8"

definition encodeRecord :: "Entry \<Rightarrow> string" where
  "encodeRecord e =
     (let payload = jsonText (sstRecordJson (sstToRecord e))
      in putUint32 (word_of_nat (length payload)) @ putUint32 (crc32 payload) @ payload)"

definition decodeRecordAt :: "string \<Rightarrow> int \<Rightarrow> sstError + Entry" where
  "decodeRecordAt f offset =
     (if offset < 0 then Inl SeekFailedAt
      else
        let rest = drop (nat offset) f in
        if length rest < recordHeaderSize then Inl ShortHeader
        else
          let len = unat (getUint32 rest);
              wantChecksum = getUint32 (drop 4 rest);
              body = drop recordHeaderSize rest
          in if length body < len then Inl ShortPayload
             else
               let payload = take len body
               in if crc32 payload \<noteq> wantChecksum then Inl ChecksumMismatch
                  else
                    (case parseJson payload of
                       None \<Rightarrow> Inl BadRecord
                     | Some j \<Rightarrow>
                         (case unmarshalStruct setSstField zeroSstRecord j of
                            None \<Rightarrow> Inl BadRecord
                          | Some rec \<Rightarrow> sstFromRecord rec)))"

text \<open>The data section: the records in order, and the index entry of each, from a first offset on.\<close>

fun writeDataSection :: "Entry list \<Rightarrow> nat \<Rightarrow> string \<times> indexEntry list" where
  "writeDataSection [] offset = ([], [])"
| "writeDataSection (e # es) offset =
     (let buf = encodeRecord e;
          (data, idx) = writeDataSection es (offset + length buf)
      in (buf @ data, (fst e, int offset) # idx))"

definition buildFilter :: "'f bloom_ops \<Rightarrow> Entry list \<Rightarrow> 'f" where
  "buildFilter F entries = foldl (\<lambda>f e. bfAdd F f (fst e)) (bfNew F (length entries)) entries"

definition writeFooter :: "nat \<Rightarrow> nat \<Rightarrow> string" where
  "writeFooter bloomStart indexStart =
     putUint64 (word_of_nat bloomStart) @ putUint64 (word_of_nat indexStart)"

definition itoaInt :: "int \<Rightarrow> string" where
  "itoaInt i = (if i < 0 then CHR ''-'' # itoa (nat (- i)) else itoa (nat i))"

definition indexJson :: "indexEntry list \<Rightarrow> json" where
  "indexJson idx = JArr (map (\<lambda>(k, off). JObj [(''Key'', JStr k), (''Offset'', JNum (itoaInt off))]) idx)"

text \<open>An \<open>int64\<close> field.\<close>

definition setInt64 :: "json \<Rightarrow> int \<Rightarrow> int option" where
  "setInt64 j prev =
     (case j of
        JNum n \<Rightarrow>
          if n \<noteq> [] \<and> hd n = CHR ''-'' then
            (case parseUint 64 (tl n) of
               Some x \<Rightarrow> if x \<le> 2 ^ 63 then Some (- int x) else None
             | None \<Rightarrow> None)
          else map_option int (parseUint 63 n)
      | JNull \<Rightarrow> Some prev
      | _ \<Rightarrow> None)"

definition setIndexField :: "indexEntry \<Rightarrow> string \<Rightarrow> json \<Rightarrow> indexEntry option" where
  "setIndexField ie k j =
     (if fieldIs k ''Key'' then map_option (\<lambda>s. (s, snd ie)) (setString j (fst ie))
      else if fieldIs k ''Offset'' then map_option (\<lambda>n. (fst ie, n)) (setInt64 j (snd ie))
      else Some ie)"

definition unmarshalIndex :: "string \<Rightarrow> indexEntry list option" where
  "unmarshalIndex s =
     (case parseJson s of
        Some (JArr js) \<Rightarrow> those (map (unmarshalStruct setIndexField ([], 0)) js)
      | Some JNull \<Rightarrow> Some []
      | _ \<Rightarrow> None)"

datatype sstIO =
    SstOk | SstCreateFails | SstWriteFails | SstSyncFails | SstCloseFails | SstRenameFails | SstSyncDirFails

definition sstName :: "string \<Rightarrow> string" where
  "sstName i = i @ ''.sst''"

text \<open>\<open>filepath.Base(id) == id\<close> for an id that is not empty.\<close>

definition isBase :: "string \<Rightarrow> bool" where
  "isBase i \<longleftrightarrow> CHR ''/'' \<notin> set i \<or> i = ''/''"

definition tableFile :: "'f bloom_ops \<Rightarrow> Entry list \<Rightarrow> string" where
  "tableFile F entries =
     (let (data, idx) = writeDataSection entries 0;
          bloomBytes = bfWriteTo F (buildFilter F entries);
          bloomStart = length data;
          indexStart = bloomStart + length bloomBytes
      in data @ bloomBytes @ jsonText (indexJson idx) @ writeFooter bloomStart indexStart)"

definition writeAndPublish ::
  "'f bloom_ops \<Rightarrow> sstDir \<Rightarrow> string \<Rightarrow> Entry list \<Rightarrow> sstIO \<Rightarrow> sstDir \<times> (sstError + 'f SSTable)" where
  "writeAndPublish F d i entries io =
     (let (data, idx) = writeDataSection entries 0;
          filter = buildFilter F entries;
          bloomStart = length data;
          indexStart = bloomStart + length (bfWriteTo F filter);
          size = indexStart + length (jsonText (indexJson idx)) + 16;
          d' = fmupd (sstName i) (tableFile F entries) d
      in if io = SstWriteFails then (d, Inl RecordWriteFailed)
         else if io = SstSyncFails then (d, Inl FsyncFailed)
         else if io = SstCloseFails then (d, Inl SstCloseFailed)
         else if io = SstRenameFails then (d, Inl RenameFailed)
         else if io = SstSyncDirFails then (d', Inl PublishFailed)
         else
           (d', Inr \<lparr>sstID = i, sstPath = sstName i, MinKey = fst (hd entries), MaxKey = fst (last entries),
                     Size = int size, index = idx, sstFilter = filter\<rparr>))"

definition WriteWithID ::
  "'f bloom_ops \<Rightarrow> sstDir \<Rightarrow> string \<Rightarrow> Entry list \<Rightarrow> sstIO \<Rightarrow> sstDir \<times> (sstError + 'f SSTable)" where
  "WriteWithID F d i entries io =
     (if i = [] \<or> \<not> isBase i then (d, Inl InvalidID)
      else if entries = [] then (d, Inl EmptyTable)
      else if \<not> sorted (map fst entries) then (d, Inl NotSorted)
      else if io = SstCreateFails then (d, Inl CreateFailed)
      else writeAndPublish F d i entries io)"

text \<open>\<open>Write\<close> names the table after the clock's nanoseconds.\<close>

definition sstWrite ::
  "'f bloom_ops \<Rightarrow> sstDir \<Rightarrow> nat \<Rightarrow> Entry list \<Rightarrow> sstIO \<Rightarrow> sstDir \<times> (sstError + 'f SSTable)" where
  "sstWrite F d now entries io = WriteWithID F d (''sst_'' @ itoa now) entries io"

definition trimSuffix :: "string \<Rightarrow> string" where
  "trimSuffix p = (if 4 \<le> length p \<and> drop (length p - 4) p = ''.sst'' then take (length p - 4) p else p)"

definition sstOpen :: "'f bloom_ops \<Rightarrow> sstDir \<Rightarrow> string \<Rightarrow> sstError + 'f SSTable" where
  "sstOpen F d path =
     (case fmlookup d path of
        None \<Rightarrow> Inl SstOpenFailed
      | Some f \<Rightarrow>
          if length f < 16 then Inl TooSmall
          else
            let footer = drop (length f - 16) f;
                bloomStart = sint (getUint64 footer);
                indexStart = sint (getUint64 (drop 8 footer))
            in if bloomStart < 0 \<or> indexStart < bloomStart \<or> indexStart > int (length f) - 16
               then Inl CorruptFooter
               else
                 (case bfReadFrom F (take (nat (indexStart - bloomStart)) (drop (nat bloomStart) f)) of
                    None \<Rightarrow> Inl BadBloom
                  | Some fl \<Rightarrow>
                      (case unmarshalIndex (take (length f - 16 - nat indexStart) (drop (nat indexStart) f)) of
                         None \<Rightarrow> Inl BadIndex
                       | Some idx \<Rightarrow>
                           if idx = [] then Inl EmptyIndex
                           else
                             Inr \<lparr>sstID = trimSuffix path, sstPath = path, MinKey = fst (hd idx),
                                  MaxKey = fst (last idx), Size = int (length f), index = idx, sstFilter = fl\<rparr>)))"

fun decodeAll :: "string \<Rightarrow> indexEntry list \<Rightarrow> sstError + Entry list" where
  "decodeAll f [] = Inr []"
| "decodeAll f (ie # idx) =
     (case decodeRecordAt f (snd ie) of
        Inl e \<Rightarrow> Inl e
      | Inr entry \<Rightarrow>
          (case decodeAll f idx of
             Inl e \<Rightarrow> Inl e
           | Inr entries \<Rightarrow> Inr (entry # entries)))"

definition sstGetAll :: "'f bloom_ops \<Rightarrow> sstDir \<Rightarrow> 'f SSTable \<Rightarrow> string \<Rightarrow> sstError + DataItem list option" where
  "sstGetAll F d s key =
     (if key < MinKey s \<or> key > MaxKey s then Inr None
      else if \<not> bfTest F (sstFilter s) key then Inr None
      else
        let start = goSearch (length (index s)) (\<lambda>i. key \<le> fst (index s ! i))
        in if start \<ge> length (index s) \<or> fst (index s ! start) \<noteq> key then Inr None
           else
             let run = takeWhile (\<lambda>ie. fst ie = key) (drop start (index s))
             in case fmlookup d (sstPath s) of
                  None \<Rightarrow> Inl SstOpenFailed
                | Some f \<Rightarrow>
                    (case decodeAll f run of
                       Inl e \<Rightarrow> Inl e
                     | Inr entries \<Rightarrow> Inr (Some (map snd entries))))"

fun distinctRuns :: "string list \<Rightarrow> string list \<Rightarrow> string list" where
  "distinctRuns acc [] = acc"
| "distinctRuns acc (k # ks) =
     distinctRuns (if acc = [] \<or> last acc \<noteq> k then acc @ [k] else acc) ks"

definition sstKeys :: "'f SSTable \<Rightarrow> string list" where
  "sstKeys s = distinctRuns [] (map fst (index s))"

definition sstGet :: "'f bloom_ops \<Rightarrow> sstDir \<Rightarrow> 'f SSTable \<Rightarrow> string \<Rightarrow> sstError + DataItem option" where
  "sstGet F d s key =
     (case sstGetAll F d s key of
        Inl e \<Rightarrow> Inl e
      | Inr None \<Rightarrow> Inr None
      | Inr (Some []) \<Rightarrow> Inr None
      | Inr (Some (item # _)) \<Rightarrow> Inr (Some item))"

definition sstAll :: "sstDir \<Rightarrow> 'f SSTable \<Rightarrow> sstError + Entry list" where
  "sstAll d s =
     (case fmlookup d (sstPath s) of
        None \<Rightarrow> Inl SstOpenFailed
      | Some f \<Rightarrow> decodeAll f (index s))"

section \<open>Records read back\<close>

definition sstFits :: "Entry \<Rightarrow> bool" where
  "sstFits e \<longleftrightarrow> validUtf8 (fst e) \<and> itemOk (snd e) \<and>
     length (jsonText (sstRecordJson (sstToRecord e))) < 2 ^ 32"

lemma unmarshal_sstRecord:
  assumes "validUtf8 (fst e)" "itemOk (snd e)"
  shows "parseJson (jsonText (sstRecordJson (sstToRecord e))) = Some (sstRecordJson (sstToRecord e))"
    "unmarshalStruct setSstField zeroSstRecord (sstRecordJson (sstToRecord e)) = Some (sstToRecord e)"
proof -
  have "jsonOk (sstRecordJson (sstToRecord e))"
    using assms jsonOk_marshalClock [of "VectorClock (snd e)"]
    by (simp add: itemOk_def sstRecordJson_def sstToRecord_def marshalRaw_def Snapshot_id)
  then show "parseJson (jsonText (sstRecordJson (sstToRecord e))) = Some (sstRecordJson (sstToRecord e))"
    by (rule parseJson_jsonText)
  show "unmarshalStruct setSstField zeroSstRecord (sstRecordJson (sstToRecord e)) = Some (sstToRecord e)"
    by (simp add: unmarshalStruct_def sstRecordJson_def setSstField_def sstToRecord_def zeroSstRecord_def
        setString_def setBool_def marshalRaw_def)
qed

lemma sstFromRecord_to [simp]: "sstFromRecord (sstToRecord e) = Inr e"
  by (cases e) (simp add: sstFromRecord_def sstToRecord_def clockOf_def Snapshot_id FromSnapshot_id)

lemma decodeRecordAt_shift: "decodeRecordAt (pre @ s) (int (length pre)) = decodeRecordAt s 0"
  by (simp add: decodeRecordAt_def)

lemma decodeRecordAt_encode:
  assumes "sstFits e"
  shows "decodeRecordAt (pre @ encodeRecord e @ post) (int (length pre)) = Inr e"
proof -
  define p where "p = jsonText (sstRecordJson (sstToRecord e))"
  have len: "unat (word_of_nat (length p) :: u32) = length p"
    using assms by (simp add: sstFits_def p_def unat_of_nat)
  have enc: "encodeRecord e @ post = putUint32 (word_of_nat (length p)) @ putUint32 (crc32 p) @ p @ post"
    by (simp add: encodeRecord_def p_def Let_def)
  have "parseJson p = Some (sstRecordJson (sstToRecord e))"
    using assms unmarshal_sstRecord(1) by (simp add: sstFits_def p_def)
  moreover have "unmarshalStruct setSstField zeroSstRecord (sstRecordJson (sstToRecord e)) = Some (sstToRecord e)"
    using assms unmarshal_sstRecord(2) by (simp add: sstFits_def)
  ultimately show ?thesis
    unfolding decodeRecordAt_shift enc by (simp add: decodeRecordAt_def len recordHeaderSize_def)
qed

text \<open>An index that leads to the entries of a file, one for one.\<close>

definition indexed :: "string \<Rightarrow> indexEntry list \<Rightarrow> Entry list \<Rightarrow> bool" where
  "indexed f = list_all2 (\<lambda>ie e. fst ie = fst e \<and> decodeRecordAt f (snd ie) = Inr e)"

lemma indexed_data:
  "list_all sstFits es \<Longrightarrow>
    indexed (pre @ fst (writeDataSection es (length pre)) @ post) (snd (writeDataSection es (length pre))) es"
proof (induction es arbitrary: pre)
  case (Cons e es)
  let ?w = "writeDataSection es (length pre + length (encodeRecord e))"
  have "indexed ((pre @ encodeRecord e) @ fst ?w @ post) (snd ?w) es"
    using Cons.IH [of "pre @ encodeRecord e"] Cons.prems by simp
  moreover have "decodeRecordAt (pre @ encodeRecord e @ fst ?w @ post) (int (length pre)) = Inr e"
    using Cons.prems by (intro decodeRecordAt_encode) simp
  ultimately show ?case by (simp add: indexed_def Let_def split_def)
qed (simp add: indexed_def)

lemma indexed_keys: "indexed f idx es \<Longrightarrow> map fst idx = map fst es"
  by (auto simp: indexed_def list_all2_conv_all_nth intro: nth_equalityI)

lemma indexed_decodeAll: "indexed f idx es \<Longrightarrow> decodeAll f idx = Inr es"
  unfolding indexed_def by (induction rule: list_all2_induct) simp_all

lemma indexed_filter:
  "indexed f idx es \<Longrightarrow> indexed f (filter (\<lambda>ie. fst ie = key) idx) (filter (\<lambda>e. fst e = key) es)"
  unfolding indexed_def by (induction rule: list_all2_induct) simp_all

section \<open>The table of a list of entries\<close>

definition sstOf :: "'f bloom_ops \<Rightarrow> sstDir \<Rightarrow> 'f SSTable \<Rightarrow> Entry list \<Rightarrow> bool" where
  "sstOf F d s es \<longleftrightarrow> es \<noteq> [] \<and> sorted (map fst es) \<and>
     MinKey s = fst (hd es) \<and> MaxKey s = fst (last es) \<and>
     (\<exists>f. fmlookup d (sstPath s) = Some f \<and> indexed f (index s) es) \<and>
     (\<forall>e \<in> set es. bfTest F (sstFilter s) (fst e))"

lemma sstOf_frame: "sstOf F d s es \<Longrightarrow> fmlookup d' (sstPath s) = fmlookup d (sstPath s) \<Longrightarrow> sstOf F d' s es"
  by (simp add: sstOf_def)

lemma sstOf_All: "sstOf F d s es \<Longrightarrow> sstAll d s = Inr es"
  by (auto simp: sstOf_def sstAll_def indexed_decodeAll)

lemma sorted_range:
  "sorted (map fst es) \<Longrightarrow> e \<in> set es \<Longrightarrow> fst (hd es) \<le> fst e \<and> fst e \<le> fst (last es)"
proof (induction es rule: rev_induct)
  case (snoc x es)
  then show ?case by (cases es) (auto simp: sorted_append)
qed simp

lemma versionsOf_empty: "versionsOf es key = [] \<longleftrightarrow> (\<forall>e \<in> set es. fst e \<noteq> key)"
  by (auto simp: versionsOf_def filter_empty_conv)

lemma sstOf_GetAll:
  assumes "sstOf F d s es"
  shows "sstGetAll F d s key = Inr (if versionsOf es key = [] then None else Some (versionsOf es key))"
proof -
  from assms obtain f where f: "fmlookup d (sstPath s) = Some f" "indexed f (index s) es"
    and es: "sorted (map fst es)" "MinKey s = fst (hd es)" "MaxKey s = fst (last es)"
    and bloom: "\<forall>e \<in> set es. bfTest F (sstFilter s) (fst e)"
    by (auto simp: sstOf_def)
  let ?start = "goSearch (length (index s)) (\<lambda>i. key \<le> fst (index s ! i))"
  let ?run = "takeWhile (\<lambda>ie. fst ie = key) (drop ?start (index s))"
  have run: "?run = filter (\<lambda>ie. fst ie = key) (index s)"
    using goSearch_run [of fst "index s" key] es(1) indexed_keys [OF f(2)] by simp
  have dec: "decodeAll f ?run = Inr (filter (\<lambda>e. fst e = key) es)"
    unfolding run by (rule indexed_decodeAll [OF indexed_filter [OF f(2)]])
  have none: "?start \<ge> length (index s) \<or> fst (index s ! ?start) \<noteq> key \<longleftrightarrow> ?run = []"
    by (cases "drop ?start (index s)") (auto dest: nth_via_drop)
  have runv: "?run = [] \<longleftrightarrow> versionsOf es key = []"
  proof -
    have "?run = [] \<longleftrightarrow> key \<notin> set (map fst (index s))" by (auto simp: run filter_empty_conv)
    also have "\<dots> \<longleftrightarrow> versionsOf es key = []"
      by (auto simp: indexed_keys [OF f(2)] versionsOf_empty)
    finally show ?thesis .
  qed
  show ?thesis
  proof (cases "versionsOf es key = []")
    case True
    with none runv show ?thesis by (simp add: sstGetAll_def Let_def)
  next
    case False
    then obtain e where e: "e \<in> set es" "fst e = key" by (auto simp: versionsOf_empty)
    with sorted_range [OF es(1) e(1)] es(2,3) bloom
    have "\<not> (key < MinKey s \<or> key > MaxKey s)" "bfTest F (sstFilter s) key" by auto
    with False none runv dec f(1) show ?thesis by (simp add: sstGetAll_def Let_def versionsOf_def)
  qed
qed

lemma distinctRuns_sorted:
  "sorted (acc @ ks) \<Longrightarrow> distinct acc \<Longrightarrow>
    sorted (distinctRuns acc ks) \<and> distinct (distinctRuns acc ks) \<and>
    set (distinctRuns acc ks) = set acc \<union> set ks"
proof (induction ks arbitrary: acc)
  case (Cons k ks)
  show ?case
  proof (cases "acc = [] \<or> last acc \<noteq> k")
    case True
    have "k \<notin> set acc"
    proof
      assume "k \<in> set acc"
      with True have ne: "acc \<noteq> []" "last acc \<noteq> k" by auto
      have "last acc \<le> k" using Cons.prems(1) ne(1) by (simp add: sorted_append)
      moreover have "k \<le> last acc" using Cons.prems(1) \<open>k \<in> set acc\<close>
        by (cases acc rule: rev_cases) (auto simp: sorted_append)
      ultimately show False using ne(2) by simp
    qed
    with Cons.IH [of "acc @ [k]"] Cons.prems True show ?thesis by simp
  next
    case False
    then have "k \<in> set acc" by auto
    with Cons.IH [of acc] Cons.prems False show ?thesis by (auto simp: sorted_append)
  qed
qed simp

lemma sstOf_Keys:
  assumes "sstOf F d s es"
  shows "sorted (sstKeys s) \<and> distinct (sstKeys s) \<and> set (sstKeys s) = fst ` set es"
proof -
  from assms obtain f where "indexed f (index s) es" "sorted (map fst es)" by (auto simp: sstOf_def)
  with indexed_keys [of f "index s" es] distinctRuns_sorted [of "[]" "map fst es"] show ?thesis
    by (simp add: sstKeys_def)
qed

section \<open>The interface of the Bloom filter\<close>

locale bloom =
  fixes F :: "'f bloom_ops" and finv :: "'f \<Rightarrow> bool"
  assumes new_inv: "finv (bfNew F n)"
    and add_inv: "finv f \<Longrightarrow> finv (bfAdd F f k)"
    and test_add: "finv f \<Longrightarrow> bfTest F (bfAdd F f k) k"
    and test_mono: "finv f \<Longrightarrow> bfTest F f k \<Longrightarrow> bfTest F (bfAdd F f k') k"
    and read_write: "finv f \<Longrightarrow> bfReadFrom F (bfWriteTo F f) = Some f"
begin

lemma foldl_add:
  "finv f \<Longrightarrow>
    finv (foldl (\<lambda>f e. bfAdd F f (fst e)) f es) \<and>
    (\<forall>k. bfTest F f k \<or> k \<in> fst ` set es \<longrightarrow> bfTest F (foldl (\<lambda>f e. bfAdd F f (fst e)) f es) k)"
proof (induction es arbitrary: f)
  case (Cons e es)
  from Cons.IH [of "bfAdd F f (fst e)"] Cons.prems show ?case
    by (auto simp: add_inv test_add test_mono)
qed simp

lemma buildFilter_inv: "finv (buildFilter F es)"
  and buildFilter_test: "e \<in> set es \<Longrightarrow> bfTest F (buildFilter F es) (fst e)"
  using foldl_add [OF new_inv, of "length es" es] by (auto simp: buildFilter_def)

lemma Write_sstOf:
  assumes "WriteWithID F d i es io = (d', Inr s)" "list_all sstFits es"
  shows "sstOf F d' s es \<and> sstPath s = sstName i \<and> sstID s = i \<and> d' = fmupd (sstName i) (tableFile F es) d"
proof -
  let ?w = "writeDataSection es 0"
  from assms(1) have w: "es \<noteq> []" "sorted (map fst es)" "d' = fmupd (sstName i) (tableFile F es) d"
    "sstPath s = sstName i" "sstID s = i" "MinKey s = fst (hd es)" "MaxKey s = fst (last es)"
    "index s = snd ?w" "sstFilter s = buildFilter F es"
    by (auto simp: WriteWithID_def writeAndPublish_def Let_def split_def split: if_splits)
  have "\<exists>post. tableFile F es = fst ?w @ post" by (simp add: tableFile_def Let_def split_def)
  then have "indexed (tableFile F es) (index s) es"
    using indexed_data [OF assms(2), of "[]"] w(8) by auto
  with w buildFilter_test show ?thesis by (auto simp: sstOf_def)
qed

end

section \<open>Reopening a table\<close>

lemma sint_word_of_nat: "n < 2 ^ 63 \<Longrightarrow> sint (word_of_nat n :: u64) = int n"
  by (simp add: signed_of_nat signed_take_bit_int_eq_self)

lemma getUint64_exact: "getUint64 (putUint64 w) = w"
  using getUint64_put [of w "[]"] by simp

lemma fieldIs_index [simp]: "\<not> fieldIs ''Key'' ''Offset''" "\<not> fieldIs ''Offset'' ''Key''"
  by (simp_all add: fieldIs_def foldCase_def between_def char_of_eq_iff)

lemma unmarshalIndex_json:
  assumes "\<forall>ie \<in> set idx. validUtf8 (fst ie) \<and> 0 \<le> snd ie \<and> snd ie < 2 ^ 63"
  shows "unmarshalIndex (jsonText (indexJson idx)) = Some idx"
proof -
  have digit: "hd (itoa n) \<noteq> CHR ''-''" for n
    using itoa_digits [of n] itoa_nonempty [of n]
    by (cases "itoa n") (auto simp: isDigit_def between_def)
  have one: "unmarshalStruct setIndexField ([], 0) (JObj [(''Key'', JStr k), (''Offset'', JNum (itoaInt off))]) =
      Some (k, off)" if "0 \<le> off" "off < 2 ^ 63" for k off
  proof -
    have "nat off < 2 ^ 63" using that by simp
    then have "setInt64 (JNum (itoaInt off)) 0 = Some off"
      using that digit by (simp add: setInt64_def itoaInt_def parseUint_itoa)
    then show ?thesis by (simp add: unmarshalStruct_def setIndexField_def setString_def)
  qed
  have "validUtf8 ''Offset''" by (simp add: validUtf8.simps utf8Len_ascii)
  then have "jsonOk (indexJson idx)"
    using assms jsonOk_itoa by (auto simp: indexJson_def list_all_iff itoaInt_def)
  moreover have "those (map (unmarshalStruct setIndexField ([], 0))
      (map (\<lambda>(k, off). JObj [(''Key'', JStr k), (''Offset'', JNum (itoaInt off))]) idx)) = Some idx"
  proof -
    have "those (map (unmarshalStruct setIndexField ([], 0) \<circ>
        (\<lambda>(k, off). JObj [(''Key'', JStr k), (''Offset'', JNum (itoaInt off))])) idx) = Some (map (\<lambda>x. x) idx)"
    proof (rule those_map)
      fix x assume "x \<in> set idx"
      with assms one [of "snd x" "fst x"]
      show "(unmarshalStruct setIndexField ([], 0) \<circ>
          (\<lambda>(k, off). JObj [(''Key'', JStr k), (''Offset'', JNum (itoaInt off))])) x = Some x"
        by (simp add: split_def)
    qed
    then show ?thesis by simp
  qed
  ultimately show ?thesis by (simp add: unmarshalIndex_def parseJson_jsonText) (simp add: indexJson_def)
qed

lemma writeDataSection_offsets:
  "ie \<in> set (snd (writeDataSection es off)) \<Longrightarrow>
    fst ie \<in> fst ` set es \<and> 0 \<le> snd ie \<and> snd ie \<le> int (off + length (fst (writeDataSection es off)))"
proof (induction es arbitrary: off)
  case (Cons e es)
  then show ?case by (fastforce simp: Let_def split_def)
qed simp

lemma writeDataSection_keys: "map fst (snd (writeDataSection es off)) = map fst es"
  by (induction es arbitrary: off) (simp_all add: Let_def split_def)

lemma trimSuffix_sstName: "trimSuffix (sstName i) = i"
  by (simp add: trimSuffix_def sstName_def)

lemma hd_last_fst:
  assumes "map fst xs = map fst ys" "ys \<noteq> []"
  shows "fst (hd xs) = fst (hd ys)" "fst (last xs) = fst (last ys)" "xs \<noteq> []"
proof -
  show ne: "xs \<noteq> []" using assms by auto
  show "fst (hd xs) = fst (hd ys)" using assms ne by (metis hd_map)
  show "fst (last xs) = fst (last ys)" using assms ne by (metis last_map)
qed

lemma footer_parts:
  assumes "f = body @ writeFooter b i" "b < 2 ^ 63" "i < 2 ^ 63"
  shows "length f = length body + 16" "drop (length f - 16) f = writeFooter b i"
    "sint (getUint64 (writeFooter b i)) = int b" "sint (getUint64 (drop 8 (writeFooter b i))) = int i"
  using assms by (simp_all add: writeFooter_def getUint64_exact sint_word_of_nat)

context bloom
begin

lemma Open_Write:
  assumes "WriteWithID F d i es io = (d', Inr s)" "list_all sstFits es" "length (tableFile F es) < 2 ^ 63"
  shows "sstOpen F d' (sstName i) = Inr s"
proof -
  let ?w = "writeDataSection es 0" and ?bl = "bfWriteTo F (buildFilter F es)"
  let ?ix = "jsonText (indexJson (snd ?w))"
  let ?b = "length (fst ?w)" and ?i = "length (fst ?w) + length ?bl"
  from assms(1) have w: "es \<noteq> []" "d' = fmupd (sstName i) (tableFile F es) d"
    "s = \<lparr>sstID = i, sstPath = sstName i, MinKey = fst (hd es), MaxKey = fst (last es),
      Size = int (?i + length ?ix + 16), index = snd ?w, sstFilter = buildFilter F es\<rparr>"
    by (auto simp: WriteWithID_def writeAndPublish_def Let_def split_def split: if_splits)
  have f: "tableFile F es = (fst ?w @ ?bl @ ?ix) @ writeFooter ?b ?i"
    by (simp add: tableFile_def Let_def split_def)
  have lt: "?b < 2 ^ 63" "?i < 2 ^ 63" using assms(3) by (simp_all add: f)
  note ft = footer_parts [OF f lt]
  have len: "length (tableFile F es) = ?i + length ?ix + 16" using ft(1) by simp
  have "\<forall>ie \<in> set (snd ?w). validUtf8 (fst ie) \<and> 0 \<le> snd ie \<and> snd ie < 2 ^ 63"
  proof
    fix ie assume "ie \<in> set (snd ?w)"
    from writeDataSection_offsets [OF this] lt(1) assms(2)
    show "validUtf8 (fst ie) \<and> 0 \<le> snd ie \<and> snd ie < 2 ^ 63"
      by (auto simp: list_all_iff sstFits_def)
  qed
  then have idx: "unmarshalIndex ?ix = Some (snd ?w)" by (rule unmarshalIndex_json)
  have bl: "take (nat (int ?i - int ?b)) (drop ?b (tableFile F es)) = ?bl" by (simp add: f)
  have ix: "take (length (tableFile F es) - 16 - ?i) (drop ?i (tableFile F es)) = ?ix"
    unfolding len by (simp add: f)
  note ends = hd_last_fst [OF writeDataSection_keys w(1), of 0]
  have look: "fmlookup d' (sstName i) = Some (tableFile F es)" by (simp add: w(2))
  have ok: "\<not> length (tableFile F es) < 16" "\<not> (int ?b < 0 \<or> int ?i < int ?b \<or> int ?i > int (length (tableFile F es)) - 16)"
    using len by simp_all
  show ?thesis
    unfolding sstOpen_def look option.case Let_def ft(2-4) nat_int bl ix
      read_write [OF buildFilter_inv] idx
    using ok ends by (simp add: w(3) len trimSuffix_sstName)
qed

end

section \<open>A bit-array filter\<close>

text \<open>A filter of eight bits and eight more per expected key, with two hash functions.\<close>

definition bitPositions :: "bool list \<Rightarrow> string \<Rightarrow> nat list" where
  "bitPositions f k = [unat (fnv32a k) mod length f, unat (fnv32a (CHR ''#'' # k)) mod length f]"

definition bitFilter :: "bool list bloom_ops" where
  "bitFilter = \<lparr>bfNew = (\<lambda>n. replicate (8 * n + 8) False),
     bfAdd = (\<lambda>f k. foldl (\<lambda>g i. g[i := True]) f (bitPositions f k)),
     bfTest = (\<lambda>f k. list_all (\<lambda>i. f ! i) (bitPositions f k)),
     bfWriteTo = map (\<lambda>b. if b then CHR ''1'' else CHR ''0''),
     bfReadFrom = (\<lambda>s. if list_all (\<lambda>c. c = CHR ''0'' \<or> c = CHR ''1'') s
                       then Some (map (\<lambda>c. c = CHR ''1'') s) else None)\<rparr>"

interpretation bits: bloom bitFilter "\<lambda>f. f \<noteq> []"
proof
  fix f :: "bool list" and k k' and n :: nat
  show "bfNew bitFilter n \<noteq> []" by (simp add: bitFilter_def)
  assume f: "f \<noteq> []"
  then have lt: "\<And>m. m mod length f < length f" by simp
  show "bfAdd bitFilter f k \<noteq> []" using f by (simp add: bitFilter_def bitPositions_def)
  show "bfTest bitFilter (bfAdd bitFilter f k) k"
    using lt by (simp add: bitFilter_def bitPositions_def nth_list_update)
  show "bfTest bitFilter f k \<Longrightarrow> bfTest bitFilter (bfAdd bitFilter f k') k"
    using lt by (simp add: bitFilter_def bitPositions_def nth_list_update)
  show "bfReadFrom bitFilter (bfWriteTo bitFilter f) = Some f"
    by (auto simp: bitFilter_def list_all_iff comp_def intro: map_idI)
qed

text \<open>A table with one tombstone, as a concrete example.\<close>

definition tombExample :: Entry where
  "tombExample = (''k'', \<lparr>Value = JNull, VectorClock = fmempty, LastUpdatedBy = ''n'', IsDeleted = True\<rparr>)"

lemma tomb_text:
  "length (jsonText (sstRecordJson (sstToRecord tombExample))) = 78"
  by (simp add: sstRecordJson_def sstToRecord_def tombExample_def marshalRaw_def marshalClock_def
      sorted_list_of_fset.rep_eq Snapshot_id quoteString_def quoteBody.simps escapeASCII_def)

lemma tomb_fits: "list_all sstFits [tombExample]"
proof -
  have "validUtf8 ''k''" "validUtf8 ''n''" by (simp_all add: validUtf8.simps utf8Len_ascii)
  then show ?thesis
    using tomb_text by (simp add: sstFits_def) (simp add: tombExample_def itemOk_def)
qed

lemma tomb_write:
  "\<exists>s. WriteWithID bitFilter fmempty ''a'' [tombExample] SstOk =
    (fmupd ''a.sst'' (tableFile bitFilter [tombExample]) fmempty, Inr s)"
  by (simp add: WriteWithID_def writeAndPublish_def isBase_def sstName_def Let_def split_def)

lemma tomb_length: "length (tableFile bitFilter [tombExample]) < 2 ^ 63"
proof -
  have "length (encodeRecord tombExample) = 86" using tomb_text by (simp add: encodeRecord_def Let_def)
  moreover have "length (bfWriteTo bitFilter (buildFilter bitFilter [tombExample])) = 16"
    by (simp add: bitFilter_def buildFilter_def bitPositions_def)
  moreover have "length (jsonText (indexJson [(''k'', 0)])) = 24"
    by (simp add: indexJson_def itoaInt_def quoteString_def quoteBody.simps escapeASCII_def itoa.simps)
  ultimately show ?thesis
    by (simp add: tableFile_def writeFooter_def Let_def) (simp add: tombExample_def)
qed

section \<open>Properties\<close>

text \<open>
  C32: A table holds exactly what was written. If writing a list of entries succeeds, then for every
  key \<open>GetAll\<close> returns the versions the list has for it, in its order, and finds nothing for any
  other key; \<open>All\<close> returns the whole list and \<open>Keys\<close> its keys in ascending order. Neither the range
  check, the Bloom filter, the binary search over the index nor the record codec drops or adds a
  version. The hypothesis on the filter is that it has no false negatives.
\<close>

theorem sstable_reads_back:
  assumes "bloom F finv" "WriteWithID F d i es io = (d', Inr s)" "list_all sstFits es"
  shows "sstGetAll F d' s key = Inr (if versionsOf es key = [] then None else Some (versionsOf es key)) \<and>
    sstAll d' s = Inr es \<and> sorted (sstKeys s) \<and> distinct (sstKeys s) \<and> set (sstKeys s) = fst ` set es"
  using bloom.Write_sstOf [OF assms] sstOf_GetAll [of F d' s es key] sstOf_All [of F d' s es]
    sstOf_Keys [of F d' s es] by blast

theorem sstable_reads_back_witness:
  "\<exists>d s. WriteWithID bitFilter fmempty ''a'' [tombExample] SstOk = (d, Inr s) \<and>
     sstGetAll bitFilter d s ''k'' = Inr (Some [snd tombExample]) \<and> sstAll d s = Inr [tombExample]"
proof -
  obtain d s where w: "WriteWithID bitFilter fmempty ''a'' [tombExample] SstOk = (d, Inr s)"
    using tomb_write by blast
  from sstable_reads_back [OF bits.bloom_axioms w tomb_fits, of "''k''"] w show ?thesis
    by (auto simp: tombExample_def)
qed

text \<open>
  Round trip through the file: opening the file of a table just written gives the same table,
  with its id, key range, size, index and filter. The file must be shorter than 2^63 bytes.
\<close>

theorem sstable_reopens:
  assumes "bloom F finv" "WriteWithID F d i es io = (d', Inr s)" "list_all sstFits es"
    "length (tableFile F es) < 2 ^ 63"
  shows "sstOpen F d' (sstName i) = Inr s"
  using assms by (rule bloom.Open_Write)

theorem sstable_reopens_witness:
  "\<exists>d s. WriteWithID bitFilter fmempty ''a'' [tombExample] SstOk = (d, Inr s) \<and>
     sstOpen bitFilter d ''a.sst'' = Inr s"
proof -
  obtain d s where w: "WriteWithID bitFilter fmempty ''a'' [tombExample] SstOk = (d, Inr s)"
    using tomb_write by blast
  from sstable_reopens [OF bits.bloom_axioms w tomb_fits tomb_length] w show ?thesis
    by (auto simp: sstName_def)
qed

end
