(* ===== verification/Compaction.thy ===== *)
theory Compaction
  imports Sstable
begin

text \<open>
  Size-tiered compaction (src/internal/storage/compaction): which SSTables to merge next, and their
  merge. The lemmas show that a selection is a maximal run of adjacent tables of one size tier, the
  longest there is, and that the merge holds for every key exactly what folding the tables one after
  the other gives.
\<close>

section \<open>Definitions\<close>

definition minTierSize :: nat where
  "minTierSize = 4"

function tierOf :: "int \<Rightarrow> nat" where
  "tierOf n = (if n \<ge> 1000 then Suc (tierOf (n div 10)) else 0)"
  by pat_completeness auto
termination
  by (relation "measure nat") auto

declare tierOf.simps [simp del]

text \<open>The outer loop of \<open>SelectTierForCompaction\<close>, on the tables from \<open>start\<close> on.\<close>

function selectLoop :: "'f SSTable list \<Rightarrow> 'f SSTable list \<Rightarrow> 'f SSTable list" where
  "selectLoop best [] = best"
| "selectLoop best (s # rest) =
     (let run = s # takeWhile (\<lambda>t. tierOf (Size t) = tierOf (Size s)) rest;
          best' = (if length run \<ge> minTierSize \<and> length run > length best then run else best)
      in selectLoop best' (dropWhile (\<lambda>t. tierOf (Size t) = tierOf (Size s)) rest))"
  by pat_completeness auto
termination
  by (relation "measure (\<lambda>(_, rest). length rest)") (auto simp: less_Suc_eq_le length_dropWhile_le)

definition SelectTierForCompaction :: "'f SSTable list \<Rightarrow> 'f SSTable list" where
  "SelectTierForCompaction sstables = selectLoop [] sstables"

definition mergeEntry :: "(string, DataItem list) fmap \<Rightarrow> Entry \<Rightarrow> (string, DataItem list) fmap" where
  "mergeEntry byKey e =
     fmupd (fst e)
       (MergeSiblings (case fmlookup byKey (fst e) of None \<Rightarrow> [] | Some items \<Rightarrow> items) [snd e]) byKey"

fun mergeSources ::
  "sstDir \<Rightarrow> 'f SSTable list \<Rightarrow> (string, DataItem list) fmap \<Rightarrow> sstError + (string, DataItem list) fmap" where
  "mergeSources d [] byKey = Inr byKey"
| "mergeSources d (src # srcs) byKey =
     (case sstAll d src of
        Inl e \<Rightarrow> Inl e
      | Inr entries \<Rightarrow> mergeSources d srcs (foldl mergeEntry byKey entries))"

definition flattenSorted :: "(string, DataItem list) fmap \<Rightarrow> Entry list" where
  "flattenSorted byKey =
     concat (map (\<lambda>k. map (Pair k) (case fmlookup byKey k of None \<Rightarrow> [] | Some items \<Rightarrow> items))
       (sorted_list_of_fset (fmdom byKey)))"

definition Merge :: "sstDir \<Rightarrow> 'f SSTable list \<Rightarrow> sstError + Entry list" where
  "Merge d sources =
     (case mergeSources d sources fmempty of
        Inl e \<Rightarrow> Inl e
      | Inr byKey \<Rightarrow> Inr (flattenSorted byKey))"

section \<open>Tiers\<close>

lemma tierOf_small: "n < 1000 \<Longrightarrow> tierOf n = 0"
  by (simp add: tierOf.simps)

lemma tierOf_bounds:
  "tierOf n = 0 \<and> n < 1000 \<or>
   0 < tierOf n \<and> 10 ^ (tierOf n + 2) \<le> n \<and> n < 10 ^ (tierOf n + 3)"
proof (induction n rule: tierOf.induct)
  case (1 n)
  show ?case
  proof (cases "n \<ge> 1000")
    case True
    have t: "tierOf n = Suc (tierOf (n div 10))" using True by (simp add: tierOf.simps [of n])
    from 1 [OF True] show ?thesis
    proof
      assume a: "tierOf (n div 10) = 0 \<and> n div 10 < 1000"
      then have "n < 10000" by linarith
      with a True t show ?thesis by simp
    next
      assume a: "0 < tierOf (n div 10) \<and> 10 ^ (tierOf (n div 10) + 2) \<le> n div 10 \<and>
        n div 10 < 10 ^ (tierOf (n div 10) + 3)"
      let ?p = "10 ^ (tierOf (n div 10) + 2) :: int"
      from a have "?p \<le> n div 10" "n div 10 < 10 * ?p" by (simp_all add: power_add)
      then have "10 * ?p \<le> n" "n < 100 * ?p" by linarith+
      with t show ?thesis by (simp add: power_add)
    qed
  qed (simp add: tierOf_small)
qed

section \<open>Selection\<close>

abbreviation sameTier :: "'f SSTable \<Rightarrow> 'f SSTable \<Rightarrow> bool" where
  "sameTier s t \<equiv> tierOf (Size t) = tierOf (Size s)"

text \<open>A run: adjacent tables of one tier, with none of that tier next to it on either side.\<close>

definition maximalRun :: "'f SSTable list \<Rightarrow> 'f SSTable list \<Rightarrow> 'f SSTable list \<Rightarrow> bool" where
  "maximalRun pre run post \<longleftrightarrow> run \<noteq> [] \<and> (\<forall>s \<in> set run. sameTier (hd run) s) \<and>
     (pre = [] \<or> \<not> sameTier (hd run) (last pre)) \<and> (post = [] \<or> \<not> sameTier (hd run) (hd post))"

lemma selectLoop_run:
  assumes "pre = [] \<or> rest = [] \<or> \<not> sameTier (hd rest) (last pre)"
    and "best = [] \<or> (minTierSize \<le> length best \<and>
      (\<exists>p q. pre @ rest = p @ best @ q \<and> maximalRun p best q))"
  shows "selectLoop best rest = [] \<or>
    (minTierSize \<le> length (selectLoop best rest) \<and>
      (\<exists>p q. pre @ rest = p @ selectLoop best rest @ q \<and> maximalRun p (selectLoop best rest) q))"
  using assms
proof (induction best rest arbitrary: pre rule: selectLoop.induct)
  case (2 best s rest)
  let ?run = "s # takeWhile (sameTier s) rest" and ?rest = "dropWhile (sameTier s) rest"
  let ?best = "if length ?run \<ge> minTierSize \<and> length ?run > length best then ?run else best"
  have split: "pre @ s # rest = (pre @ ?run) @ ?rest" by simp
  have post: "?rest = [] \<or> \<not> sameTier s (hd ?rest)"
    using hd_dropWhile [of "sameTier s" rest] by blast
  have tw: "sameTier s t" if "t \<in> set (takeWhile (sameTier s) rest)" for t
    using set_takeWhileD [OF that] by (rule conjunct2)
  have all: "\<forall>t \<in> set ?run. sameTier s t"
  proof
    show "sameTier s t" if "t \<in> set ?run" for t using that tw [of t] by (cases "t = s") simp_all
  qed
  have run: "maximalRun pre ?run ?rest"
    unfolding maximalRun_def list.sel using "2.prems"(1) [unfolded list.sel] post all by blast
  have tier: "sameTier s (last (pre @ ?run))"
    unfolding last_appendR [OF list.distinct(2)] using last_in_set [of ?run] all by blast
  have next_run: "pre @ ?run = [] \<or> ?rest = [] \<or> \<not> sameTier (hd ?rest) (last (pre @ ?run))"
    using post tier by metis
  have next_best: "?best = [] \<or> (minTierSize \<le> length ?best \<and>
      (\<exists>p q. (pre @ ?run) @ ?rest = p @ ?best @ q \<and> maximalRun p ?best q))"
  proof (cases "length ?run \<ge> minTierSize \<and> length ?run > length best")
    case True
    then have b: "?best = ?run" by simp
    have "(pre @ ?run) @ ?rest = pre @ ?run @ ?rest" by simp
    with True run show ?thesis unfolding b by blast
  next
    case False
    then have b: "?best = best" by argo
    show ?thesis using "2.prems"(2) unfolding split b .
  qed
  have step: "selectLoop best (s # rest) = selectLoop ?best ?rest" by (simp add: Let_def)
  show ?case
    unfolding step split by (rule "2.IH" [OF refl refl next_run next_best])
qed auto

lemma selectLoop_longest:
  "length best \<le> length (selectLoop best rest) \<and>
   (\<forall>p b q. rest = p @ b @ q \<longrightarrow> (\<forall>t \<in> set b. sameTier (hd b) t) \<longrightarrow> minTierSize \<le> length b \<longrightarrow>
      length b \<le> length (selectLoop best rest))"
proof (induction best rest rule: selectLoop.induct)
  case (1 best)
  then show ?case by (simp add: minTierSize_def)
next
  case (2 best s rest)
  let ?run = "s # takeWhile (sameTier s) rest" and ?rest = "dropWhile (sameTier s) rest"
  let ?best = "if length ?run \<ge> minTierSize \<and> length ?run > length best then ?run else best"
  have step: "selectLoop best (s # rest) = selectLoop ?best ?rest" by (simp add: Let_def)
  have IH: "length ?best \<le> length (selectLoop ?best ?rest)"
    "\<And>p b q. ?rest = p @ b @ q \<Longrightarrow> \<forall>t \<in> set b. sameTier (hd b) t \<Longrightarrow> minTierSize \<le> length b \<Longrightarrow>
      length b \<le> length (selectLoop ?best ?rest)"
    using "2.IH" [OF refl refl] by blast+
  have best: "length best \<le> length ?best" by simp
  have run: "length ?run \<le> length ?best" if "minTierSize \<le> length ?run" using that by simp
  have tw: "takeWhile (sameTier s) (s # rest) = ?run" by simp
  have split: "s # rest = ?run @ ?rest" by simp
  have "length b \<le> length (selectLoop ?best ?rest)"
    if b: "s # rest = p @ b @ q" "\<forall>t \<in> set b. sameTier (hd b) t" "minTierSize \<le> length b" for p b q
  proof (cases "length p < length ?run")
    case True
    have "p = take (length p) (?run @ ?rest)" unfolding split [symmetric] b(1) by simp
    also have "\<dots> = take (length p) ?run" unfolding take_append using True by simp
    finally have p: "p = take (length p) ?run" .
    have pt: "sameTier s t" if "t \<in> set p" for t
    proof -
      have "t \<in> set ?run" using that p by (metis in_set_takeD)
      then show ?thesis using set_takeWhileD [of t "sameTier s" "s # rest"] unfolding tw by blast
    qed
    have ne: "b \<noteq> []" using b(3) by (auto simp: minTierSize_def)
    have "hd b = ?run ! length p"
    proof -
      have "hd b = (p @ b @ q) ! length p" using ne by (simp add: hd_conv_nth nth_append)
      also have "\<dots> = (?run @ ?rest) ! length p" using b(1) split by argo
      also have "\<dots> = ?run ! length p" using True by (rule nth_append_left)
      finally show ?thesis .
    qed
    then have "hd b \<in> set ?run" using True by (metis nth_mem)
    then have "sameTier s (hd b)" using set_takeWhileD [of "hd b" "sameTier s" "s # rest"] unfolding tw by blast
    then have bt: "sameTier s t" if "t \<in> set b" for t using b(2) that by metis
    have "takeWhile (sameTier s) (s # rest) = (p @ b) @ takeWhile (sameTier s) q"
      unfolding b(1) append_assoc [symmetric] by (rule takeWhile_append2) (use pt bt in auto)
    then have "length ?run = length p + length b + length (takeWhile (sameTier s) q)"
      unfolding tw by simp
    with b(3) run IH(1) show ?thesis by linarith
  next
    case False
    have "?rest = drop (length ?run) (?run @ ?rest)" unfolding drop_append by simp
    also have "\<dots> = drop (length ?run) (p @ b @ q)" unfolding split [symmetric] b(1) ..
    also have "\<dots> = drop (length ?run) p @ b @ q" unfolding drop_append using False by simp
    finally have "?rest = drop (length ?run) p @ b @ q" .
    from IH(2) [OF this b(2,3)] show ?thesis .
  qed
  with best IH(1) show ?case unfolding step by (blast intro: order_trans)
qed

section \<open>Merging\<close>

definition itemsAt :: "(string, DataItem list) fmap \<Rightarrow> string \<Rightarrow> DataItem list" where
  "itemsAt byKey k = (case fmlookup byKey k of None \<Rightarrow> [] | Some items \<Rightarrow> items)"

lemma itemsAt_empty [simp]: "itemsAt fmempty k = []"
  by (simp add: itemsAt_def)

lemma itemsAt_mergeEntry:
  "itemsAt (mergeEntry byKey e) k =
     (if k = fst e then MergeSiblings (itemsAt byKey k) [snd e] else itemsAt byKey k)"
  by (simp add: itemsAt_def mergeEntry_def)

lemma itemsAt_foldl:
  "itemsAt (foldl mergeEntry byKey es) k = MergeSiblings (itemsAt byKey k) (versionsOf es k)"
  by (induction es arbitrary: byKey) (auto simp: itemsAt_mergeEntry)

lemma fmdom_foldl_mergeEntry:
  "fset (fmdom (foldl mergeEntry byKey es)) = fset (fmdom byKey) \<union> fst ` set es"
  by (induction es arbitrary: byKey) (auto simp: mergeEntry_def)

lemma versionsOf_flattenSorted: "versionsOf (flattenSorted byKey) k = itemsAt byKey k"
proof -
  have "versionsOf (concat (map (\<lambda>k. map (Pair k) (itemsAt byKey k)) ks)) k =
      (if k \<in> set ks then itemsAt byKey k else [])" if "distinct ks" for ks
    using that by (induction ks) auto
  from this [of "sorted_list_of_fset (fmdom byKey)"] show ?thesis
    by (auto simp: flattenSorted_def itemsAt_def sorted_list_of_fset.rep_eq dest: fmdom_notD)
qed

lemma flattenSorted_sorted: "sorted (map fst (flattenSorted byKey))"
proof -
  have "sorted (map fst (concat (map (\<lambda>k. map (Pair k) (f k)) ks)))"
    if "sorted ks" for ks and f :: "string \<Rightarrow> DataItem list"
    using that by (induction ks) (auto simp: sorted_append o_def map_replicate_const)
  then show ?thesis by (simp add: flattenSorted_def sorted_list_of_fset.rep_eq)
qed

lemma mergeSources_tables:
  assumes "list_all2 (sstOf F d) sources ess"
  shows "mergeSources d sources byKey = Inr (foldl mergeEntry byKey (concat ess))"
  using assms
  by (induction arbitrary: byKey rule: list_all2_induct) (simp_all add: sstOf_All)

lemma Merge_tables:
  assumes "list_all2 (sstOf F d) sources ess"
  shows "Merge d sources = Inr (flattenSorted (foldl mergeEntry fmempty (concat ess)))"
  by (simp add: Merge_def mergeSources_tables [OF assms])

lemma versionsOf_concat: "versionsOf (concat ess) k = concat (map (\<lambda>es. versionsOf es k) ess)"
  by (induction ess) simp_all

lemma Resolve_not_Nil: "Resolve a i \<noteq> []"
proof (cases "covers a (clk i)")
  case True
  then obtain x where "x \<in> set a" "\<not> clk x < clk i" by (auto simp: covers_def dest: leD)
  then have "x \<in> set (Resolve a i)" by (simp add: Resolve_eq)
  then show ?thesis by auto
qed (simp add: Resolve_eq)

lemma Merge_spec:
  assumes "list_all2 (sstOf F d) sources ess"
  obtains es where "Merge d sources = Inr es" "sorted (map fst es)"
    "\<And>k. versionsOf es k = MergeSiblings [] (versionsOf (concat ess) k)"
  using that Merge_tables [OF assms]
  by (simp add: flattenSorted_sorted versionsOf_flattenSorted itemsAt_foldl)

lemma Merge_error:
  "sstAll d s = Inl e \<Longrightarrow> \<forall>t \<in> set pre. \<exists>es. sstAll d t = Inr es \<Longrightarrow> Merge d (pre @ s # post) = Inl e"
proof -
  have "mergeSources d (pre @ s # post) byKey = Inl e"
    if "sstAll d s = Inl e" "\<forall>t \<in> set pre. \<exists>es. sstAll d t = Inr es" for byKey
    using that by (induction pre arbitrary: byKey) auto
  then show "sstAll d s = Inl e \<Longrightarrow> \<forall>t \<in> set pre. \<exists>es. sstAll d t = Inr es \<Longrightarrow> Merge d (pre @ s # post) = Inl e"
    by (simp add: Merge_def)
qed

section \<open>Properties\<close>

text \<open>
  C31: The size tiers are the decades the documentation gives. Tier 0 is every size under 1000 bytes
  and tier t > 0 is the sizes from 10^(t+2) up to but not including 10^(t+3), so the loop of \<open>tierOf\<close>
  ends and two tables of one tier above 0 are within a factor ten of each other.
\<close>

theorem tier_bounds:
  "tierOf n = 0 \<and> n < 1000 \<or>
   0 < tierOf n \<and> 10 ^ (tierOf n + 2) \<le> n \<and> n < 10 ^ (tierOf n + 3)"
  by (rule tierOf_bounds)

text \<open>
  C30: What is selected for compaction. The selection is empty, or at least four tables that are
  adjacent in age order, of one tier, and flanked by tables of other tiers; and no stretch of four
  or more adjacent tables of one tier is longer than the selection (so it is empty only when there
  is no such stretch).
\<close>

theorem select_longest_run:
  fixes sstables :: "'f SSTable list"
  shows "(SelectTierForCompaction sstables = [] \<or>
      minTierSize \<le> length (SelectTierForCompaction sstables) \<and>
      (\<exists>pre post. sstables = pre @ SelectTierForCompaction sstables @ post \<and>
        maximalRun pre (SelectTierForCompaction sstables) post)) \<and>
    (\<forall>pre run post. sstables = pre @ run @ post \<longrightarrow> (\<forall>t \<in> set run. sameTier (hd run) t) \<longrightarrow>
      minTierSize \<le> length run \<longrightarrow> length run \<le> length (SelectTierForCompaction sstables))"
  using selectLoop_run [of "[]" sstables "[]"] selectLoop_longest [of "[]" sstables]
  by (simp add: SelectTierForCompaction_def)

definition sizedExample :: "int \<Rightarrow> unit SSTable" where
  "sizedExample n = \<lparr>sstID = ''a'', sstPath = ''a.sst'', MinKey = ''k'', MaxKey = ''k'', Size = n,
     index = [], sstFilter = ()\<rparr>"

theorem select_longest_run_witness:
  "4 \<le> length (SelectTierForCompaction
     [sizedExample 5000, sizedExample 90, sizedExample 1, sizedExample 999, sizedExample 0])"
proof -
  let ?ts = "[sizedExample 5000, sizedExample 90, sizedExample 1, sizedExample 999, sizedExample 0]"
  let ?run = "[sizedExample 90, sizedExample 1, sizedExample 999, sizedExample 0]"
  have "?ts = [sizedExample 5000] @ ?run @ []" "\<forall>t \<in> set ?run. sameTier (hd ?run) t" "minTierSize \<le> length ?run"
    by (simp_all add: sizedExample_def tierOf_small minTierSize_def)
  then have "length ?run \<le> length (SelectTierForCompaction ?ts)" using select_longest_run [of ?ts] by blast
  then show ?thesis by simp
qed

text \<open>
  C29: The merge of tables, newest first, holds for every key exactly the list that folding the
  tables' versions of the key in that order with \<open>MergeSiblings\<close> gives: the same versions in the
  same order, tombstones included, and nothing else. It is sorted by key, ready to be written.
\<close>

theorem merge_folds_versions:
  assumes "list_all2 (sstOf F d) sources ess"
  shows "\<exists>es. Merge d sources = Inr es \<and> sorted (map fst es) \<and>
    (\<forall>key. versionsOf es key = foldl MergeSiblings [] (map (\<lambda>es. versionsOf es key) ess))"
proof -
  obtain es where "Merge d sources = Inr es" "sorted (map fst es)"
    "\<And>k. versionsOf es k = MergeSiblings [] (versionsOf (concat ess) k)"
    by (rule Merge_spec [OF assms]) (rule that)
  then show ?thesis by (simp add: foldl_Merge_concat versionsOf_concat)
qed

theorem merge_folds_versions_witness:
  "\<exists>d s es. WriteWithID bitFilter fmempty ''a'' [tombExample] SstOk = (d, Inr s) \<and>
     Merge d [s, s] = Inr es \<and> versionsOf es ''k'' = [snd tombExample]"
proof -
  obtain s where w: "WriteWithID bitFilter fmempty ''a'' [tombExample] SstOk =
    (fmupd ''a.sst'' (tableFile bitFilter [tombExample]) fmempty, Inr s)" using tomb_write by blast
  let ?d = "fmupd ''a.sst'' (tableFile bitFilter [tombExample]) fmempty"
  have "sstOf bitFilter ?d s [tombExample]"
    using bloom.Write_sstOf [OF bits.bloom_axioms w tomb_fits] by blast
  then have "list_all2 (sstOf bitFilter ?d) [s, s] [[tombExample], [tombExample]]" by simp
  from merge_folds_versions [OF this] obtain es where es: "Merge ?d [s, s] = Inr es"
    "versionsOf es ''k'' = foldl MergeSiblings [] (map (\<lambda>es. versionsOf es ''k'') [[tombExample], [tombExample]])"
    by blast
  have "versionsOf es ''k'' = [snd tombExample]"
    unfolding es(2) by (simp add: Resolve_eq covers_def) (simp add: tombExample_def)
  with w es(1) show ?thesis by blast
qed

end
