(* ===== verification/WalLog.thy ===== *)
theory WalLog
  imports Wal
begin

text \<open>
  The segmented log (src/internal/storage/wal/log.go): numbered segment files in one directory,
  opened by replaying all of them in order. The directory is a finite map from file names to files,
  with the files that were removed since the last fsync of the directory kept apart, because a crash
  may bring any of them back. The outcomes of the file-system calls are arguments.
\<close>

section \<open>Definitions\<close>

definition legacyName :: string where
  "legacyName = ''wal.log''"

text \<open>\<open>fmt.Sprintf("wal_%020d.log", seq)\<close>; paths are names inside the log's directory.\<close>

definition segmentPath :: "u64 \<Rightarrow> string" where
  "segmentPath seq =
     ''wal_'' @ replicate (20 - length (itoa (unat seq))) (CHR ''0'') @ itoa (unat seq) @ ''.log''"

text \<open>The regular expression \<open>^wal_(\d{20})\.log$\<close>.\<close>

definition segmentName :: "string \<Rightarrow> string option" where
  "segmentName name =
     (let digits = take 20 (drop 4 name)
      in if length name = 28 \<and> take 4 name = ''wal_'' \<and> list_all isDigit digits \<and> drop 24 name = ''.log''
         then Some digits else None)"

record segment =
  segSeq :: u64
  segPath :: string

record walDir =
  files :: "(string, walFile) fmap"
  unlinked :: "(string, walFile) fmap"

record Log =
  logDir :: walDir
  current :: string
  logSeq :: u64
  sealed :: "segment list"

datatype logError =
    MkdirFailed | ReadDirFailed | BadSegmentName string | OpenFailed string
  | ReplayFailed string walError | CloseFailed string | SyncDirFailed

record logIO =
  mkdirOk :: bool
  readDirOk :: bool
  openOk :: "string \<Rightarrow> bool"
  replayOk :: "string \<Rightarrow> replayIO"
  closeOk :: "string \<Rightarrow> bool"
  removeOk :: "string \<Rightarrow> bool"
  syncDirOk :: bool

text \<open>File-system calls: create on open, remove, and fsync of the directory.\<close>

definition dirOpen :: "walDir \<Rightarrow> string \<Rightarrow> walDir" where
  "dirOpen d name =
     (case fmlookup (files d) name of
        Some f \<Rightarrow> d
      | None \<Rightarrow> d\<lparr>files := fmupd name \<lparr>content = [], durable = []\<rparr> (files d)\<rparr>)"

definition dirRemove :: "walDir \<Rightarrow> string \<Rightarrow> bool \<Rightarrow> walDir" where
  "dirRemove d name ok =
     (case fmlookup (files d) name of
        Some f \<Rightarrow>
          if ok then d\<lparr>files := fmdrop name (files d), unlinked := fmupd name f (unlinked d)\<rparr> else d
      | None \<Rightarrow> d)"

definition dirSync :: "walDir \<Rightarrow> walDir" where
  "dirSync d = d\<lparr>unlinked := fmempty\<rparr>"

definition dirWrite :: "walDir \<Rightarrow> string \<Rightarrow> walFile \<Rightarrow> walDir" where
  "dirWrite d name f = d\<lparr>files := fmupd name f (files d)\<rparr>"

definition dirFile :: "walDir \<Rightarrow> string \<Rightarrow> walFile" where
  "dirFile d name =
     (case fmlookup (files d) name of None \<Rightarrow> \<lparr>content = [], durable = []\<rparr> | Some f \<Rightarrow> f)"

text \<open>
  The loop of \<open>listSegments\<close> over the names \<open>os.ReadDir\<close> gives, which come in ascending order.
\<close>

fun collectSegments :: "string list \<Rightarrow> logError + segment list" where
  "collectSegments [] = Inr []"
| "collectSegments (name # names) =
     (if name = legacyName then
        (case collectSegments names of
           Inl e \<Rightarrow> Inl e
         | Inr segs \<Rightarrow> Inr (\<lparr>segSeq = 0, segPath = name\<rparr> # segs))
      else
        (case segmentName name of
           None \<Rightarrow> collectSegments names
         | Some m \<Rightarrow>
             (case parseUint 64 m of
                None \<Rightarrow> Inl (BadSegmentName name)
              | Some seq \<Rightarrow>
                  (case collectSegments names of
                     Inl e \<Rightarrow> Inl e
                   | Inr segs \<Rightarrow> Inr (\<lparr>segSeq = word_of_nat seq, segPath = name\<rparr> # segs)))))"

definition listSegments :: "walDir \<Rightarrow> bool \<Rightarrow> logError + segment list" where
  "listSegments d ok =
     (if \<not> ok then Inl ReadDirFailed
      else
        (case collectSegments (sorted_list_of_fset (fmdom (files d))) of
           Inl e \<Rightarrow> Inl e
         | Inr segs \<Rightarrow> Inr (sort_key segSeq segs)))"

definition replayFile :: "walDir \<Rightarrow> string \<Rightarrow> logIO \<Rightarrow> walDir \<times> (logError + walEntry list)" where
  "replayFile d path io =
     (if \<not> openOk io path then (d, Inl (OpenFailed path))
      else
        let d1 = dirOpen d path;
            (f, res) = Replay (dirFile d1 path) (replayOk io path);
            d2 = dirWrite d1 path f
        in case res of
             Inl e \<Rightarrow> (d2, Inl (ReplayFailed path e))
           | Inr entries \<Rightarrow>
               if \<not> closeOk io path then (d2, Inl (CloseFailed path)) else (d2, Inr entries))"

definition startSegment :: "Log \<Rightarrow> u64 \<Rightarrow> logIO \<Rightarrow> Log \<times> logError option" where
  "startSegment l seq io =
     (let path = segmentPath seq in
      if \<not> openOk io path then (l, Some (OpenFailed path))
      else
        let d = dirOpen (logDir l) path
        in if \<not> syncDirOk io then (l\<lparr>logDir := dirRemove d path (removeOk io path)\<rparr>, Some SyncDirFailed)
           else (l\<lparr>logDir := dirSync d, current := path, logSeq := seq\<rparr>, None))"

text \<open>The loop of \<open>OpenLog\<close> over the existing segments: directory, entries, next number, sealed.\<close>

fun openSegments ::
  "logIO \<Rightarrow> segment list \<Rightarrow> walDir \<Rightarrow> walEntry list \<Rightarrow> u64 \<Rightarrow> segment list \<Rightarrow>
    walDir \<times> (logError + (walEntry list \<times> u64 \<times> segment list))" where
  "openSegments io [] d entries next seals = (d, Inr (entries, next, seals))"
| "openSegments io (seg # segs) d entries next seals =
     (case replayFile d (segPath seg) io of
        (d1, Inl e) \<Rightarrow> (d1, Inl e)
      | (d1, Inr segEntries) \<Rightarrow>
          let next' = (if segSeq seg \<ge> next then segSeq seg + 1 else next)
          in if segEntries = [] then
               openSegments io segs (dirRemove d1 (segPath seg) (removeOk io (segPath seg)))
                 (entries @ segEntries) next' seals
             else openSegments io segs d1 (entries @ segEntries) next' (seals @ [seg]))"

definition OpenLog :: "walDir \<Rightarrow> logIO \<Rightarrow> walDir \<times> (logError + (Log \<times> walEntry list))" where
  "OpenLog d io =
     (if \<not> mkdirOk io then (d, Inl MkdirFailed)
      else
        (case listSegments d (readDirOk io) of
           Inl e \<Rightarrow> (d, Inl e)
         | Inr existing \<Rightarrow>
             (case openSegments io existing d [] 1 [] of
                (d1, Inl e) \<Rightarrow> (d1, Inl e)
              | (d1, Inr (entries, next, seals)) \<Rightarrow>
                  let l = \<lparr>logDir = d1, current = [], logSeq = 0, sealed = seals\<rparr>
                  in case startSegment l next io of
                       (l', Some e) \<Rightarrow> (logDir l', Inl e)
                     | (l', None) \<Rightarrow> (logDir l', Inr (l', entries)))))"

definition logWriteBatch :: "Log \<Rightarrow> string list \<Rightarrow> writeOutcome \<Rightarrow> bool \<Rightarrow> Log \<times> walError option" where
  "logWriteBatch l records wo so =
     (let (f, err) = WriteBatch (dirFile (logDir l) (current l)) records wo so
      in (l\<lparr>logDir := dirWrite (logDir l) (current l) f\<rparr>, err))"

definition logAppend :: "Log \<Rightarrow> walEntry \<Rightarrow> writeOutcome \<Rightarrow> bool \<Rightarrow> Log \<times> walError option" where
  "logAppend l entry wo so =
     (let (f, err) = Append (dirFile (logDir l) (current l)) entry wo so
      in (l\<lparr>logDir := dirWrite (logDir l) (current l) f\<rparr>, err))"

definition Rotate :: "Log \<Rightarrow> logIO \<Rightarrow> Log \<times> (logError + u64)" where
  "Rotate l io =
     (let oldPath = current l; oldSeq = logSeq l in
      case startSegment l (oldSeq + 1) io of
        (l1, Some e) \<Rightarrow> (l1, Inl e)
      | (l1, None) \<Rightarrow>
          let l2 = l1\<lparr>sealed := sealed l1 @ [\<lparr>segSeq = oldSeq, segPath = segmentPath oldSeq\<rparr>]\<rparr>
          in if \<not> closeOk io oldPath then (l2, Inl (CloseFailed oldPath)) else (l2, Inr oldSeq))"

text \<open>
  The loop of \<open>DeleteThrough\<close>: the directory, how many segments were deleted, and whether a deletion
  failed. A file that is already gone counts as deleted.
\<close>

fun deleteLoop :: "logIO \<Rightarrow> u64 \<Rightarrow> segment list \<Rightarrow> walDir \<Rightarrow> nat \<Rightarrow> walDir \<times> nat \<times> bool" where
  "deleteLoop io seq [] d deleted = (d, deleted, True)"
| "deleteLoop io seq (seg # segs) d deleted =
     (if segSeq seg > seq then (d, deleted, True)
      else if segPath seg |\<in>| fmdom (files d) \<and> \<not> removeOk io (segPath seg) then (d, deleted, False)
      else deleteLoop io seq segs (dirRemove d (segPath seg) True) (deleted + 1))"

definition DeleteThrough :: "Log \<Rightarrow> u64 \<Rightarrow> logIO \<Rightarrow> Log \<times> bool" where
  "DeleteThrough l seq io =
     (let (d, deleted, ok) = deleteLoop io seq (sealed l) (logDir l) 0
      in (l\<lparr>logDir := d, sealed := drop deleted (sealed l)\<rparr>, ok))"

text \<open>
  A crash: each file keeps what \<open>crashLeaves\<close> allows, and any of the removed files may be back with
  its durable contents.
\<close>

definition dirCrash :: "walDir \<Rightarrow> walDir \<Rightarrow> bool" where
  "dirCrash d d' \<longleftrightarrow> unlinked d' = fmempty \<and>
     (\<forall>name. case fmlookup (files d') name of
        None \<Rightarrow> name |\<notin>| fmdom (files d)
      | Some f' \<Rightarrow> durable f' = content f' \<and>
          ((\<exists>f. fmlookup (files d) name = Some f \<and> crashLeaves f (content f')) \<or>
           name |\<notin>| fmdom (files d) \<and>
           (\<exists>f. fmlookup (unlinked d) name = Some f \<and> crashLeaves f (content f'))))"

section \<open>Segment names\<close>

lemma length_itoa: "n < 10 ^ Suc k \<Longrightarrow> length (itoa n) \<le> Suc k"
proof (induction k arbitrary: n)
  case 0
  then show ?case by (simp add: itoa.simps)
next
  case (Suc k)
  show ?case
  proof (cases "n < 10")
    case True
    then show ?thesis by (simp add: itoa.simps)
  next
    case False
    from Suc.prems have "n div 10 < 10 ^ Suc k" by (simp add: less_mult_imp_div_less)
    with Suc.IH [of "n div 10"] False show ?thesis by (simp add: itoa_rec)
  qed
qed

lemma length_itoa_u64: "length (itoa (unat (w :: u64))) \<le> 20"
proof -
  have "unat w < 2 ^ 64" using unsigned_less [of w] by simp
  then have "unat w < 10 ^ Suc 19" by simp
  from length_itoa [OF this] show ?thesis by simp
qed

lemma parseDec_zeros: "parseDec (replicate k (CHR ''0'') @ s) = parseDec s"
  by (induction k) (simp_all add: parseDec_def)

lemma segmentName_digits:
  "length ds = 20 \<Longrightarrow> list_all isDigit ds \<Longrightarrow> segmentName (''wal_'' @ ds @ ''.log'') = Some ds"
  by (simp add: segmentName_def)

definition digits20 :: "u64 \<Rightarrow> string" where
  "digits20 s = replicate (20 - length (itoa (unat s))) (CHR ''0'') @ itoa (unat s)"

lemma digits20: "length (digits20 s) = 20" "list_all isDigit (digits20 s)"
proof -
  show "length (digits20 s) = 20" using length_itoa_u64 [of s] by (simp add: digits20_def)
  have "isDigit (CHR ''0'')" by (simp add: isDigit_def between_def)
  then show "list_all isDigit (digits20 s)"
    using itoa_digits [of "unat s"] by (auto simp: list_all_iff digits20_def)
qed

lemma segmentName_path: "segmentName (segmentPath s) = Some (digits20 s)"
  using segmentName_digits [OF digits20] by (simp add: segmentPath_def digits20_def)

lemma parse_segmentPath:
  "\<exists>m. segmentName (segmentPath s) = Some m \<and> parseUint 64 m = Some (unat s)"
proof -
  have "unat s < 2 ^ 64" using unsigned_less [of s] by simp
  moreover have "digits20 s \<noteq> []" using digits20(1) [of s] by auto
  moreover have "parseDec (digits20 s) = unat s"
    by (simp add: digits20_def parseDec_zeros parseDec_itoa)
  ultimately show ?thesis
    using digits20(2) [of s] by (simp add: segmentName_path parseUint_def)
qed

lemma segmentPath_inj: "segmentPath s = segmentPath t \<Longrightarrow> s = t"
  using parse_segmentPath [of s] parse_segmentPath [of t] by (auto intro: unsigned_word_eqI)

lemma segmentPath_eq [simp]: "segmentPath s = segmentPath t \<longleftrightarrow> s = t"
  using segmentPath_inj by blast

lemma segmentPath_mem [simp]: "segmentPath s \<in> segmentPath ` S \<longleftrightarrow> s \<in> S"
  by auto

lemma segmentPath_not_legacy: "segmentPath s \<noteq> legacyName"
  by (simp add: segmentPath_def legacyName_def)

abbreviation seg :: "u64 \<Rightarrow> segment" where
  "seg s \<equiv> \<lparr>segSeq = s, segPath = segmentPath s\<rparr>"

lemma collectSegments_paths:
  "collectSegments (map segmentPath ss) = Inr (map seg ss)"
proof (induction ss)
  case (Cons s ss)
  obtain m where "segmentName (segmentPath s) = Some m" "parseUint 64 m = Some (unat s)"
    using parse_segmentPath by blast
  with Cons show ?case by (simp add: segmentPath_not_legacy)
qed simp

lemma listSegments_sorted:
  assumes "fmdom' (files d) = segmentPath ` S" "finite S"
  shows "listSegments d True = Inr (map seg (sorted_list_of_set S))"
proof -
  let ?names = "sorted_list_of_fset (fmdom (files d))"
  have names: "set ?names = segmentPath ` S" "distinct ?names"
    using assms(1) by (simp_all add: fmdom'_alt_def sorted_list_of_fset.rep_eq)
  then obtain ss where ss: "?names = map segmentPath ss" using ex_map_conv [of ?names segmentPath] by auto
  have img: "segmentPath ` set ss = segmentPath ` S" using names(1) by (simp add: ss)
  have inj: "inj segmentPath" by (rule injI) (rule segmentPath_inj)
  have S: "set ss = S" using inj_image_eq_iff [OF inj] img by blast
  have ds: "distinct ss" using names(2) by (simp add: ss distinct_map)
  have keys: "map segSeq (sort_key segSeq (map seg ss)) = sorted_list_of_set S"
  proof (rule sorted_distinct_set_unique)
    show "distinct (map segSeq (sort_key segSeq (map seg ss)))"
      using ds by (auto simp: distinct_map inj_on_def)
    show "set (map segSeq (sort_key segSeq (map seg ss))) = set (sorted_list_of_set S)"
      using S assms(2) by (simp add: image_image)
  qed (rule sorted_sort_key, simp_all)
  have "map seg (map segSeq (sort_key segSeq (map seg ss))) = sort_key segSeq (map seg ss)"
    unfolding map_map by (rule map_idI) auto
  with keys have "sort_key segSeq (map seg ss) = map seg (sorted_list_of_set S)" by simp
  then show ?thesis by (simp add: listSegments_def ss collectSegments_paths)
qed

section \<open>Opening a directory of segments\<close>

text \<open>A segment file whose replay gives \<open>es\<close>: their records, then possibly a torn tail.\<close>

definition segFile :: "walEntry list \<Rightarrow> walFile \<Rightarrow> bool" where
  "segFile es f \<longleftrightarrow> list_all entryFits es \<and> prefix (encodeAll es) (content f) \<and>
     replayLoop (content f) 0 [] = Inr (es, length (encodeAll es))"

definition dirSegs :: "walDir \<Rightarrow> (u64 \<Rightarrow> walEntry list) \<Rightarrow> u64 set \<Rightarrow> bool" where
  "dirSegs d h S \<longleftrightarrow> finite S \<and> fmdom' (files d) = segmentPath ` S \<and>
     (\<forall>s \<in> S. segFile (h s) (dirFile d (segmentPath s)))"

definition replayAllOk :: "replayIO \<Rightarrow> bool" where
  "replayAllOk io \<longleftrightarrow> statOk io \<and> seekStartOk io \<and> truncateOk io \<and> truncSyncOk io \<and> seekEndOk io"

definition logAllOk :: "logIO \<Rightarrow> bool" where
  "logAllOk io \<longleftrightarrow> mkdirOk io \<and> readDirOk io \<and> syncDirOk io \<and>
     (\<forall>p. openOk io p \<and> closeOk io p \<and> removeOk io p \<and> replayAllOk (replayOk io p))"

lemma segFile_clean: "list_all entryFits es \<Longrightarrow> content f = encodeAll es \<Longrightarrow> segFile es f"
  using replayLoop_all [of es "[]" 0 "[]"] by (simp add: segFile_def)

lemma Replay_segFile:
  assumes "segFile es f" "replayAllOk io"
  shows "\<exists>g. Replay f io = (g, Inr es) \<and> content g = encodeAll es \<and> segFile es g"
proof -
  obtain t where t: "content f = encodeAll es @ t" using assms(1) by (auto simp: segFile_def prefix_def)
  have "\<exists>g. Replay f io = (g, Inr es) \<and> content g = encodeAll es"
    using assms t by (auto simp: Replay_def replayAllOk_def segFile_def fileSync_def Let_def)
  with assms(1) segFile_clean show ?thesis by (metis segFile_def)
qed

lemma dirFile_simps [simp]:
  "dirFile (dirWrite d p f) q = (if p = q then f else dirFile d q)"
  "p \<noteq> q \<Longrightarrow> dirFile (dirRemove d p ok) q = dirFile d q"
  by (auto simp: dirFile_def dirWrite_def dirRemove_def split: option.split)

lemma dirOpen_present [simp]: "p \<in> fmdom' (files d) \<Longrightarrow> dirOpen d p = d"
  by (auto simp: dirOpen_def fmdom'I split: option.split dest: fmdom'_notI)

lemma fmdom_dirs [simp]:
  "fmdom' (files (dirWrite d p f)) = insert p (fmdom' (files d))"
  "fmdom' (files (dirRemove d p True)) = fmdom' (files d) - {p}"
  "fmdom' (files (dirOpen d p)) = insert p (fmdom' (files d))"
  "files (dirSync d) = files d"
  by (auto simp: dirWrite_def dirRemove_def dirOpen_def dirSync_def fmdom'I
      split: option.split dest: fmdom'_notI)

lemma replayFile_segFile:
  assumes "logAllOk io" "p \<in> fmdom' (files d)" "segFile es (dirFile d p)"
  shows "\<exists>g. replayFile d p io = (dirWrite d p g, Inr es) \<and> segFile es g"
  using Replay_segFile [OF assms(3), of "replayOk io p"] assms(1,2)
  by (auto simp: replayFile_def logAllOk_def)

definition nextSeq :: "u64 \<Rightarrow> u64 \<Rightarrow> u64" where
  "nextSeq n s = (if n \<le> s then s + 1 else n)"

lemma openSegments_ok:
  assumes "logAllOk io" "distinct ss"
    "\<forall>s \<in> set ss. segmentPath s \<in> fmdom' (files d) \<and> segFile (h s) (dirFile d (segmentPath s))"
  shows "\<exists>d'. openSegments io (map seg ss) d es n seals =
      (d', Inr (es @ concat (map h ss), foldl nextSeq n ss, seals @ map seg (filter (\<lambda>s. h s \<noteq> []) ss))) \<and>
    fmdom' (files d') = fmdom' (files d) - segmentPath ` {s \<in> set ss. h s = []} \<and>
    (\<forall>s. h s \<noteq> [] \<longrightarrow> segFile (h s) (dirFile d (segmentPath s)) \<longrightarrow> segFile (h s) (dirFile d' (segmentPath s)))"
  using assms(2,3)
proof (induction ss arbitrary: d es n seals)
  case (Cons s ss)
  from Cons.prems(2) have s: "segmentPath s \<in> fmdom' (files d)" "segFile (h s) (dirFile d (segmentPath s))"
    by simp_all
  from replayFile_segFile [OF assms(1) s] obtain g
    where g: "replayFile d (segmentPath s) io = (dirWrite d (segmentPath s) g, Inr (h s))" "segFile (h s) g"
    by blast
  define d1 where "d1 = (if h s = [] then dirRemove (dirWrite d (segmentPath s) g) (segmentPath s) True
    else dirWrite d (segmentPath s) g)"
  have keep: "dirFile d1 (segmentPath t) = dirFile d (segmentPath t)" if "t \<noteq> s" for t
    using that by (auto simp: d1_def)
  have mem: "segmentPath t \<in> fmdom' (files d1) \<longleftrightarrow> segmentPath t \<in> fmdom' (files d)" if "t \<noteq> s" for t
    using that by (auto simp: d1_def)
  have "\<forall>t \<in> set ss. segmentPath t \<in> fmdom' (files d1) \<and> segFile (h t) (dirFile d1 (segmentPath t))"
  proof
    fix t assume t: "t \<in> set ss"
    with Cons.prems(1) have "t \<noteq> s" by auto
    with keep mem Cons.prems(2) t
    show "segmentPath t \<in> fmdom' (files d1) \<and> segFile (h t) (dirFile d1 (segmentPath t))" by simp
  qed
  from Cons.IH [OF _ this, of "es @ h s" "nextSeq n s" "seals @ (if h s = [] then [] else [seg s])"]
    Cons.prems(1)
  obtain d' where d': "openSegments io (map seg ss) d1 (es @ h s) (nextSeq n s)
      (seals @ (if h s = [] then [] else [seg s])) = (d', Inr ((es @ h s) @ concat (map h ss),
      foldl nextSeq (nextSeq n s) ss,
      (seals @ (if h s = [] then [] else [seg s])) @ map seg (filter (\<lambda>s. h s \<noteq> []) ss)))"
    "fmdom' (files d') = fmdom' (files d1) - segmentPath ` {s \<in> set ss. h s = []}"
    "\<forall>s. h s \<noteq> [] \<longrightarrow> segFile (h s) (dirFile d1 (segmentPath s)) \<longrightarrow> segFile (h s) (dirFile d' (segmentPath s))"
    by auto
  have 1: "openSegments io (map seg (s # ss)) d es n seals = openSegments io (map seg ss) d1 (es @ h s)
      (nextSeq n s) (seals @ (if h s = [] then [] else [seg s]))"
    using g(1) assms(1) by (simp add: d1_def nextSeq_def logAllOk_def Let_def)
  have 2: "fmdom' (files d1) = fmdom' (files d) - (if h s = [] then {segmentPath s} else {})"
    using s(1) by (auto simp: d1_def)
  have 3: "segFile (h t) (dirFile d1 (segmentPath t))"
    if "h t \<noteq> []" "segFile (h t) (dirFile d (segmentPath t))" for t
    using that g(2) keep by (cases "t = s") (simp_all add: d1_def)
  have 4: "{t \<in> set (s # ss). h t = []} = (if h s = [] then {s} else {}) \<union> {t \<in> set ss. h t = []}"
    by auto
  show ?case
  proof (intro exI [of _ d'] conjI allI impI)
    show "openSegments io (map seg (s # ss)) d es n seals = (d', Inr (es @ concat (map h (s # ss)),
        foldl nextSeq n (s # ss), seals @ map seg (filter (\<lambda>s. h s \<noteq> []) (s # ss))))"
      unfolding 1 d'(1) by simp
    show "fmdom' (files d') = fmdom' (files d) - segmentPath ` {t \<in> set (s # ss). h t = []}"
      unfolding d'(2) 2 4 image_Un by (cases "h s = []") auto
    fix t assume t: "h t \<noteq> []" "segFile (h t) (dirFile d (segmentPath t))"
    show "segFile (h t) (dirFile d' (segmentPath t))"
      using d'(3) [rule_format, OF t(1) 3 [OF t]] .
  qed
qed simp

lemma nextSeq_foldl:
  "(\<forall>s \<in> set ss. s \<noteq> - 1) \<Longrightarrow>
    n \<le> foldl nextSeq n ss \<and> (\<forall>s \<in> set ss. s < foldl nextSeq n ss)"
proof (induction ss arbitrary: n)
  case (Cons s ss)
  from Cons.prems have "s \<noteq> - 1" by simp
  then have "s < s + 1" using inc_less_eq_triv_imp not_le by blast
  then have "n \<le> nextSeq n s" "s < nextSeq n s" by (auto simp: nextSeq_def)
  moreover from Cons.IH [of "nextSeq n s"] Cons.prems
  have "nextSeq n s \<le> foldl nextSeq (nextSeq n s) ss" "\<forall>t \<in> set ss. t < foldl nextSeq (nextSeq n s) ss"
    by auto
  ultimately show ?case by (auto intro: less_le_trans)
qed simp

lemma OpenLog_segs:
  assumes "logAllOk io" "dirSegs d h S" "\<forall>s \<in> S. s \<noteq> - 1"
  shows "\<exists>l. OpenLog d io = (logDir l, Inr (l, concat (map h (sorted_list_of_set S)))) \<and>
    (\<forall>s \<in> S. s < logSeq l) \<and> current l = segmentPath (logSeq l) \<and>
    sealed l = map seg (filter (\<lambda>s. h s \<noteq> []) (sorted_list_of_set S)) \<and>
    unlinked (logDir l) = fmempty \<and>
    dirSegs (logDir l) (h(logSeq l := [])) (insert (logSeq l) {s \<in> S. h s \<noteq> []}) \<and>
    content (dirFile (logDir l) (current l)) = []"
proof -
  let ?ss = "sorted_list_of_set S"
  have fin: "finite S" and dom: "fmdom' (files d) = segmentPath ` S"
    and sf: "\<forall>s \<in> S. segFile (h s) (dirFile d (segmentPath s))"
    using assms(2) by (simp_all add: dirSegs_def)
  have list: "listSegments d True = Inr (map seg ?ss)" by (rule listSegments_sorted [OF dom fin])
  obtain d' where d': "openSegments io (map seg ?ss) d [] 1 [] =
      (d', Inr (concat (map h ?ss), foldl nextSeq 1 ?ss, map seg (filter (\<lambda>s. h s \<noteq> []) ?ss)))"
    "fmdom' (files d') = fmdom' (files d) - segmentPath ` {s \<in> set ?ss. h s = []}"
    "\<forall>s. h s \<noteq> [] \<longrightarrow> segFile (h s) (dirFile d (segmentPath s)) \<longrightarrow> segFile (h s) (dirFile d' (segmentPath s))"
    using openSegments_ok [OF assms(1), of ?ss d h "[]" 1 "[]"] fin dom sf by auto
  define n where "n = foldl nextSeq 1 ?ss"
  have n: "\<forall>s \<in> S. s < n" using nextSeq_foldl [of ?ss 1] assms(3) fin by (simp add: n_def)
  then have new: "segmentPath n \<notin> fmdom' (files d')"
    unfolding d'(2) dom by auto
  define l where "l = \<lparr>logDir = dirSync (dirOpen d' (segmentPath n)), current = segmentPath n, logSeq = n,
    sealed = map seg (filter (\<lambda>s. h s \<noteq> []) ?ss)\<rparr>"
  have open_: "OpenLog d io = (logDir l, Inr (l, concat (map h ?ss)))"
    using assms(1) list d'(1) by (simp add: OpenLog_def logAllOk_def startSegment_def Let_def l_def n_def)
  have look: "dirFile (logDir l) p = (if p = segmentPath n then \<lparr>content = [], durable = []\<rparr> else dirFile d' p)" for p
    using new by (auto simp: l_def dirSync_def dirOpen_def dirFile_def fmdom'I split: option.split)
  have "fmdom' (files (logDir l)) = segmentPath ` insert n {s \<in> S. h s \<noteq> []}"
    using fin by (auto simp: l_def d'(2) dom)
  moreover have "segFile ((h(n := [])) s) (dirFile (logDir l) (segmentPath s))"
    if "s \<in> insert n {s \<in> S. h s \<noteq> []}" for s
  proof (cases "s = n")
    case True
    then show ?thesis using segFile_clean [of "[]"] by (simp add: look)
  next
    case False
    with that sf d'(3) show ?thesis by (auto simp: look)
  qed
  ultimately have "dirSegs (logDir l) (h(n := [])) (insert n {s \<in> S. h s \<noteq> []})"
    using fin by (simp add: dirSegs_def)
  then show ?thesis
    using open_ n look by (intro exI [of _ l]) (simp add: l_def dirSync_def)
qed

section \<open>Crashes\<close>

text \<open>
  A directory at rest: the segments \<open>S\<close> hold \<open>h\<close>, all of it durable, and the segments \<open>U\<close> have been
  deleted since the last fsync of the directory.
\<close>

definition cleanFile :: "walEntry list \<Rightarrow> walFile" where
  "cleanFile es = \<lparr>content = encodeAll es, durable = encodeAll es\<rparr>"

definition cleanDir :: "walDir \<Rightarrow> (u64 \<Rightarrow> walEntry list) \<Rightarrow> u64 set \<Rightarrow> u64 set \<Rightarrow> bool" where
  "cleanDir d h S U \<longleftrightarrow> finite S \<and> finite U \<and> S \<inter> U = {} \<and>
     (\<forall>s \<in> S \<union> U. list_all entryFits (h s)) \<and>
     fmdom' (files d) = segmentPath ` S \<and> fmdom' (unlinked d) = segmentPath ` U \<and>
     (\<forall>s \<in> S. fmlookup (files d) (segmentPath s) = Some (cleanFile (h s))) \<and>
     (\<forall>s \<in> U. fmlookup (unlinked d) (segmentPath s) = Some (cleanFile (h s)))"

lemma crash_clean: "crashLeaves (cleanFile es) c \<longleftrightarrow> c = encodeAll es"
  by (auto simp: crashLeaves_def cleanFile_def)

lemma dirCrash_Some:
  assumes "dirCrash d d'" "fmlookup (files d') n = Some f'"
  shows "\<exists>f. crashLeaves f (content f') \<and>
    (fmlookup (files d) n = Some f \<or> fmlookup (files d) n = None \<and> fmlookup (unlinked d) n = Some f)"
proof -
  note c = conjunct2 [OF assms(1) [unfolded dirCrash_def], rule_format, of n]
  show ?thesis using c unfolding assms(2) by (auto simp: fmdom_notD)
qed

lemma dirCrash_None:
  assumes "dirCrash d d'" "fmlookup (files d') n = None"
  shows "fmlookup (files d) n = None"
proof -
  note c = conjunct2 [OF assms(1) [unfolded dirCrash_def], rule_format, of n]
  show ?thesis using c unfolding assms(2) by (simp add: fmdom_notD)
qed

lemma cleanDir_crash:
  assumes clean: "cleanDir d h S U" and cur: "s0 \<in> S"
    and wrote: "WriteBatch (cleanFile (h s0)) (map Encode batch) wo so = (f, err)"
    and crash: "dirCrash (dirWrite d (segmentPath s0) f) d'"
    and fits: "list_all entryFits batch"
  shows "\<exists>k \<le> length batch. \<exists>R \<subseteq> U. (err = None \<longrightarrow> k = length batch) \<and>
    dirSegs d' (h(s0 := h s0 @ take k batch)) (S \<union> R)"
proof -
  define R where "R = {s \<in> U. segmentPath s \<in> fmdom' (files d')}"
  have old: "fmlookup (files (dirWrite d (segmentPath s0) f)) (segmentPath s) =
      (if s \<in> S then Some (if s = s0 then f else cleanFile (h s)) else None)" for s
    using clean cur by (auto simp: cleanDir_def dirWrite_def intro: fmdom'_notD)
  have names: "name \<in> segmentPath ` (S \<union> U)" if "name \<in> fmdom' (files d')" for name
  proof -
    from that obtain f' where "fmlookup (files d') name = Some f'" by (auto simp: fmlookup_dom'_iff)
    from dirCrash_Some [OF crash this] have "name \<in> fmdom' (files (dirWrite d (segmentPath s0) f)) \<or>
        name \<in> fmdom' (unlinked (dirWrite d (segmentPath s0) f))"
      by (auto simp: fmlookup_dom'_iff simp del: fmdom_dirs)
    with clean cur show ?thesis by (auto simp: cleanDir_def dirWrite_def)
  qed
  have live: "segmentPath s \<in> fmdom' (files d')" if "s \<in> S" for s
  proof (rule ccontr)
    assume "segmentPath s \<notin> fmdom' (files d')"
    then have "fmlookup (files d') (segmentPath s) = None" by (rule fmdom'_notD)
    from dirCrash_None [OF crash this] old [of s] that show False by simp
  qed
  have dom: "fmdom' (files d') = segmentPath ` (S \<union> R)"
    using names live by (auto simp: R_def)
  have at: "crashLeaves (if s = s0 then f else cleanFile (h s)) (content (dirFile d' (segmentPath s)))"
    if s: "s \<in> S \<union> R" for s
  proof -
    from s dom have "segmentPath s \<in> fmdom' (files d')" by simp
    then obtain f' where f': "fmlookup (files d') (segmentPath s) = Some f'" by (auto simp: fmlookup_dom'_iff)
    have ul: "fmlookup (unlinked (dirWrite d (segmentPath s0) f)) (segmentPath s) = Some (cleanFile (h s))"
      if "s \<in> U" using that clean by (simp add: cleanDir_def dirWrite_def)
    have "s \<notin> U" if "s \<in> S" using that clean by (auto simp: cleanDir_def)
    with dirCrash_Some [OF crash f'] old [of s] ul s cur f' show ?thesis
      by (cases "s \<in> S") (auto simp: dirFile_def R_def)
  qed
  have s0: "crashLeaves f (content (dirFile d' (segmentPath s0)))" using at [of s0] cur by simp
  have hfits: "list_all entryFits (h s)" if "s \<in> S \<union> R" for s
    using that clean by (auto simp: cleanDir_def R_def)
  have s0S: "s0 \<in> S \<union> R" using cur by simp
  have "content (cleanFile (h s0)) = encodeAll (h s0)" "durable (cleanFile (h s0)) = encodeAll (h s0)"
    by (simp_all add: cleanFile_def)
  from WriteBatch_crash [OF hfits [OF s0S] fits this wrote s0]
  obtain k where k: "k \<le> length batch" "err = None \<longrightarrow> k = length batch"
    "prefix (encodeAll (h s0 @ take k batch)) (content (dirFile d' (segmentPath s0)))"
    "replayLoop (content (dirFile d' (segmentPath s0))) 0 [] =
      Inr (h s0 @ take k batch, length (encodeAll (h s0 @ take k batch)))"
    by blast
  have "list_all entryFits (h s0 @ take k batch)"
    using hfits [of s0] cur fits by (auto simp: list_all_iff dest: in_set_takeD)
  with k(3,4) have f0: "segFile (h s0 @ take k batch) (dirFile d' (segmentPath s0))"
    unfolding segFile_def by blast
  have fs: "segFile (h s) (dirFile d' (segmentPath s))" if s: "s \<in> S \<union> R" "s \<noteq> s0" for s
  proof (rule segFile_clean [OF hfits [OF s(1)]])
    show "content (dirFile d' (segmentPath s)) = encodeAll (h s)"
      using at [OF s(1)] s(2) by (simp add: crash_clean)
  qed
  have "finite (S \<union> R)" using clean by (simp add: cleanDir_def R_def)
  then have "dirSegs d' (h(s0 := h s0 @ take k batch)) (S \<union> R)"
    unfolding dirSegs_def using dom f0 fs by simp
  moreover have "R \<subseteq> U" by (auto simp: R_def)
  ultimately show ?thesis using k(1,2) by blast
qed

section \<open>Deleting sealed segments\<close>

lemma deleteLoop_suffix:
  "deleteLoop io seq segs d n = (d', m, ok) \<Longrightarrow>
    \<exists>k \<le> length segs. m = n + k \<and> (\<forall>x \<in> set (take k segs). segSeq x \<le> seq) \<and>
      (ok \<longrightarrow> k < length segs \<longrightarrow> seq < segSeq (segs ! k)) \<and>
      (\<forall>p. p \<notin> segPath ` set (take k segs) \<longrightarrow> fmlookup (files d') p = fmlookup (files d) p) \<and>
      (\<forall>p \<in> segPath ` set (take k segs). p \<notin> fmdom' (files d'))"
proof (induction segs arbitrary: d n)
  case (Cons x segs)
  let ?stuck = "segPath x |\<in>| fmdom (files d) \<and> \<not> removeOk io (segPath x)"
  show ?case
  proof (cases "segSeq x > seq \<or> ?stuck")
    case True
    with Cons.prems have "d' = d" "m = n" "ok \<longrightarrow> seq < segSeq x" by (simp_all split: if_splits)
    then show ?thesis by (intro exI [of _ 0]) simp
  next
    case False
    with Cons.prems have del: "\<not> segSeq x > seq"
      "deleteLoop io seq segs (dirRemove d (segPath x) True) (n + 1) = (d', m, ok)" by (simp_all split: if_splits)
    from Cons.IH [OF del(2)] obtain k where k: "k \<le> length segs" "m = n + 1 + k"
      "\<forall>x \<in> set (take k segs). segSeq x \<le> seq"
      "ok \<longrightarrow> k < length segs \<longrightarrow> seq < segSeq (segs ! k)"
      "\<forall>p. p \<notin> segPath ` set (take k segs) \<longrightarrow>
        fmlookup (files d') p = fmlookup (files (dirRemove d (segPath x) True)) p"
      "\<forall>p \<in> segPath ` set (take k segs). p \<notin> fmdom' (files d')" by blast
    have keep: "fmlookup (files (dirRemove d (segPath x) True)) p = (if p = segPath x then None else fmlookup (files d) p)" for p
      by (auto simp: dirRemove_def split: option.split)
    have gone: "p \<notin> fmdom' (files d')" if p: "p \<in> segPath ` set (take (Suc k) (x # segs))" for p
    proof (cases "p \<in> segPath ` set (take k segs)")
      case False
      with p have "p = segPath x" by auto
      with k(5) False keep have "fmlookup (files d') p = None" by simp
      then show ?thesis by (rule fmdom'_notI)
    qed (use k(6) in blast)
    show ?thesis
    proof (intro exI [of _ "Suc k"] conjI)
      show "\<forall>p \<in> segPath ` set (take (Suc k) (x # segs)). p \<notin> fmdom' (files d')" using gone by blast
      show "\<forall>y \<in> set (take (Suc k) (x # segs)). segSeq y \<le> seq" using k(3) del(1) by (simp add: not_less)
      show "\<forall>p. p \<notin> segPath ` set (take (Suc k) (x # segs)) \<longrightarrow> fmlookup (files d') p = fmlookup (files d) p"
        using k(5) keep by simp
    qed (use k(1,2,4) in simp_all)
  qed
qed simp

section \<open>Properties\<close>

text \<open>
  C14: Crash recovery of the whole log. Segments \<open>S\<close> are on disk and segments \<open>U\<close> were deleted but
  the deletions are not yet durable; a batch is written to the current segment with any outcome of
  the write and the fsync; then the machine crashes. Opening the log replays, in the order of the
  segment numbers, every entry of \<open>S\<close>, the entries of those deleted segments the crash brought back,
  and a prefix of the batch, the whole of it if it was acknowledged. New writes go to a fresh segment
  numbered above all of them.
\<close>

theorem log_crash_recovery:
  assumes "cleanDir (logDir l) h S U" "current l = segmentPath s0" "s0 \<in> S"
    and "list_all entryFits batch"
    and "logWriteBatch l (map Encode batch) wo so = (l', err)"
    and "dirCrash (logDir l') d'"
    and "logAllOk io" "\<forall>s \<in> S \<union> U. s \<noteq> - 1"
  shows "\<exists>k R l2. k \<le> length batch \<and> R \<subseteq> U \<and> (err = None \<longrightarrow> k = length batch) \<and>
    OpenLog d' io = (logDir l2, Inr (l2,
      concat (map (h(s0 := h s0 @ take k batch)) (sorted_list_of_set (S \<union> R))))) \<and>
    (\<forall>s \<in> S \<union> R. s < logSeq l2) \<and> current l2 = segmentPath (logSeq l2)"
proof -
  have f: "dirFile (logDir l) (segmentPath s0) = cleanFile (h s0)"
    using assms(1,3) by (simp add: cleanDir_def dirFile_def)
  obtain f where wrote: "WriteBatch (cleanFile (h s0)) (map Encode batch) wo so = (f, err)"
    and l': "logDir l' = dirWrite (logDir l) (segmentPath s0) f"
    using assms(2,5) f by (auto simp: logWriteBatch_def Let_def split: prod.splits)
  obtain k R where k: "k \<le> length batch" "R \<subseteq> U" "err = None \<longrightarrow> k = length batch"
    "dirSegs d' (h(s0 := h s0 @ take k batch)) (S \<union> R)"
    using cleanDir_crash [OF assms(1,3) wrote _ assms(4)] assms(6) unfolding l' by blast
  have "\<forall>s \<in> S \<union> R. s \<noteq> - 1" using assms(8) k(2) by blast
  from OpenLog_segs [OF assms(7) k(4) this] k(1-3) show ?thesis by blast
qed

theorem log_crash_recovery_witness:
  "let d = \<lparr>files = fmap_of_list [(segmentPath 1, cleanFile [])], unlinked = fmempty\<rparr>;
       l = \<lparr>logDir = d, current = segmentPath 1, logSeq = 1, sealed = []\<rparr>;
       io = \<lparr>mkdirOk = True, readDirOk = True, openOk = \<lambda>_. True,
             replayOk = \<lambda>_. \<lparr>statOk = True, seekStartOk = True, truncateOk = True, truncSyncOk = True, seekEndOk = True\<rparr>,
             closeOk = \<lambda>_. True, removeOk = \<lambda>_. True, syncDirOk = True\<rparr>;
       d' = \<lparr>files = fmap_of_list [(segmentPath 1, cleanFile [OpRestore ''k'' []])], unlinked = fmempty\<rparr>
   in \<exists>l2. OpenLog d' io = (logDir l2, Inr (l2, [OpRestore ''k'' []]))"
proof -
  let ?e = "OpRestore ''k'' []"
  let ?d = "\<lparr>files = fmap_of_list [(segmentPath 1, cleanFile [])], unlinked = fmempty\<rparr>"
  let ?d' = "\<lparr>files = fmap_of_list [(segmentPath 1, cleanFile [?e])], unlinked = fmempty\<rparr>"
  let ?l = "\<lparr>logDir = ?d, current = segmentPath 1, logSeq = 1, sealed = []\<rparr>"
  let ?io = "\<lparr>mkdirOk = True, readDirOk = True, openOk = \<lambda>_. True,
             replayOk = \<lambda>_. \<lparr>statOk = True, seekStartOk = True, truncateOk = True, truncSyncOk = True, seekEndOk = True\<rparr>,
             closeOk = \<lambda>_. True, removeOk = \<lambda>_. True, syncDirOk = True\<rparr>"
  have clean: "cleanDir (logDir ?l) (\<lambda>_. []) {1} {}" by (auto simp: cleanDir_def)
  have wrote: "logWriteBatch ?l (map Encode [?e]) None True = (?l\<lparr>logDir := ?d'\<rparr>, None)"
    by (simp add: logWriteBatch_def WriteBatch_def writeAndSync_def fileWrite_def fileSync_def dirFile_def
        dirWrite_def cleanFile_def)
  have crash: "dirCrash (logDir (?l\<lparr>logDir := ?d'\<rparr>)) ?d'"
    by (auto simp: dirCrash_def crash_clean split: option.split) (auto simp: cleanFile_def crashLeaves_def)
  have ok: "logAllOk ?io" by (simp add: logAllOk_def replayAllOk_def)
  from log_crash_recovery [OF clean _ _ fits_example wrote crash ok] show ?thesis
    by (auto simp: Let_def)
qed

text \<open>
  C24: \<open>DeleteThrough\<close> deletes sealed segments from the oldest on and stops at the first one numbered
  above its argument or at the first failure: what stays sealed is a suffix, every segment numbered
  above the argument stays, with its file, and a call without a failure leaves none at or below it.
  The current segment's file is untouched.
\<close>

theorem delete_through_suffix:
  assumes "DeleteThrough l seq io = (l', ok)"
    and "sorted (map segSeq (sealed l))" "distinct (map segPath (sealed l))"
    and "current l \<notin> segPath ` set (sealed l)"
  shows "suffix (sealed l') (sealed l) \<and>
    (\<forall>x \<in> set (sealed l). seq < segSeq x \<longrightarrow> x \<in> set (sealed l')) \<and>
    (ok \<longrightarrow> (\<forall>x \<in> set (sealed l'). seq < segSeq x)) \<and>
    (\<forall>x \<in> set (sealed l'). fmlookup (files (logDir l')) (segPath x) = fmlookup (files (logDir l)) (segPath x)) \<and>
    fmlookup (files (logDir l')) (current l) = fmlookup (files (logDir l)) (current l)"
proof -
  obtain d' m where del: "deleteLoop io seq (sealed l) (logDir l) 0 = (d', m, ok)"
    and l': "l' = l\<lparr>logDir := d', sealed := drop m (sealed l)\<rparr>"
    using assms(1) by (auto simp: DeleteThrough_def Let_def split: prod.splits)
  let ?s = "sealed l"
  from deleteLoop_suffix [OF del] have m: "m \<le> length ?s" "\<forall>x \<in> set (take m ?s). segSeq x \<le> seq"
    "ok \<longrightarrow> m < length ?s \<longrightarrow> seq < segSeq (?s ! m)"
    "\<And>p. p \<notin> segPath ` set (take m ?s) \<Longrightarrow> fmlookup (files d') p = fmlookup (files (logDir l)) p" by auto
  have part: "x \<in> set (take m ?s) \<or> x \<in> set (drop m ?s)" if "x \<in> set ?s" for x
    using that by (metis Un_iff append_take_drop_id set_append)
  have "segPath x \<notin> segPath ` set (take m ?s)" if "x \<in> set (drop m ?s)" for x
    using assms(3) that append_take_drop_id [of m ?s] distinct_append [of "map segPath (take m ?s)" "map segPath (drop m ?s)"]
    by (metis (no_types, lifting) disjoint_iff imageI list.set_map map_append)
  then have same: "\<forall>x \<in> set (drop m ?s). fmlookup (files d') (segPath x) = fmlookup (files (logDir l)) (segPath x)"
    using m(4) by blast
  have cur: "fmlookup (files d') (current l) = fmlookup (files (logDir l)) (current l)"
    using assms(4) by (intro m(4)) (auto dest: in_set_takeD)
  have above: "seq < segSeq x" if "ok" "x \<in> set (drop m ?s)" for x
  proof -
    from that(2) obtain i where "i < length ?s - m" "x = ?s ! (m + i)"
      using m(1) by (auto simp: in_set_conv_nth)
    then have i: "m + i < length ?s" "x = ?s ! (m + i)" by simp_all
    with assms(2) have "segSeq (?s ! m) \<le> segSeq x"
      using sorted_nth_mono [of "map segSeq ?s" m "m + i"] by simp
    with m(3) that(1) i(1) show ?thesis by (auto intro: less_le_trans)
  qed
  have kept: "x \<in> set (drop m ?s)" if "x \<in> set ?s" "seq < segSeq x" for x
    using part [OF that(1)] m(2) that(2) by (auto simp: not_less [symmetric])
  show ?thesis unfolding l' using suffix_drop kept above same cur by simp
qed

theorem delete_through_suffix_witness:
  "let f = (segmentPath 1, cleanFile []); g = (segmentPath 2, cleanFile []); h = (segmentPath 3, cleanFile []);
       l = \<lparr>logDir = \<lparr>files = fmap_of_list [f, g, h], unlinked = fmempty\<rparr>, current = segmentPath 3,
            logSeq = 3, sealed = [seg 1, seg 2]\<rparr>;
       io = \<lparr>mkdirOk = True, readDirOk = True, openOk = \<lambda>_. True, replayOk = \<lambda>_. undefined,
             closeOk = \<lambda>_. True, removeOk = \<lambda>_. True, syncDirOk = True\<rparr>
   in suffix (sealed (fst (DeleteThrough l 1 io))) [seg 1, seg 2] \<and>
      seg 2 \<in> set (sealed (fst (DeleteThrough l 1 io)))"
proof -
  define l where "l = \<lparr>logDir = \<lparr>files = fmap_of_list [(segmentPath 1, cleanFile []),
      (segmentPath 2, cleanFile []), (segmentPath 3, cleanFile [])], unlinked = fmempty\<rparr>,
    current = segmentPath 3, logSeq = 3, sealed = [seg 1, seg 2]\<rparr>"
  define io where "io = \<lparr>mkdirOk = True, readDirOk = True, openOk = \<lambda>_. True, replayOk = \<lambda>_. undefined,
    closeOk = \<lambda>_. True, removeOk = \<lambda>_. True, syncDirOk = True\<rparr>"
  have "DeleteThrough l 1 io = (fst (DeleteThrough l 1 io), snd (DeleteThrough l 1 io))" by simp
  moreover have "sorted (map segSeq (sealed l))" "distinct (map segPath (sealed l))"
    "current l \<notin> segPath ` set (sealed l)" by (simp_all add: l_def)
  ultimately have "suffix (sealed (fst (DeleteThrough l 1 io))) (sealed l) \<and>
      (\<forall>x \<in> set (sealed l). 1 < segSeq x \<longrightarrow> x \<in> set (sealed (fst (DeleteThrough l 1 io))))"
    using delete_through_suffix by blast
  then show ?thesis by (simp add: Let_def l_def io_def)
qed

end
