(* ===== verification/Manifest.thy ===== *)
theory Manifest
  imports Wal "HOL-Library.FSet"
begin

text \<open>
  The manifest (src/internal/storage/manifest): an append-only text file of \<open>ADD\<close> and \<open>REMOVE\<close> lines
  that records which SSTables are live. Its file is the one of the log, contents with a durable part;
  the set of live ids is a finite set. White space is the ASCII white space that \<open>strings.Fields\<close>
  splits at; the lines hold names of files only.

  The lemmas show that reopening reads back what was recorded, also after a crash in the middle of a
  line, and that a line recorded after such a crash is glued to the torn one, because opening does not
  cut the torn text off: it is then lost or the manifest cannot be opened again.
\<close>

section \<open>Definitions\<close>

abbreviation newline :: char where
  "newline \<equiv> CHR 0x0A"

definition isSpace :: "char \<Rightarrow> bool" where
  "isSpace c \<longleftrightarrow> c = CHR 0x20 \<or> between 9 13 c"

text \<open>\<open>strings.Fields\<close>.\<close>

function goFields :: "string \<Rightarrow> string list" where
  "goFields s =
     (case dropWhile isSpace s of
        [] \<Rightarrow> []
      | c # r \<Rightarrow> (c # takeWhile (\<lambda>x. \<not> isSpace x) r) # goFields (dropWhile (\<lambda>x. \<not> isSpace x) r))"
  by pat_completeness auto
termination
proof (relation "measure length")
  fix s :: string and c r
  assume "dropWhile isSpace s = c # r"
  then have "Suc (length r) \<le> length s" using length_dropWhile_le [of isSpace s] by simp
  moreover have "length (dropWhile (\<lambda>x. \<not> isSpace x) r) \<le> length r" by (rule length_dropWhile_le)
  ultimately show "(dropWhile (\<lambda>x. \<not> isSpace x) r, s) \<in> measure length" by simp
qed simp

declare goFields.simps [simp del]

text \<open>\<open>strings.Split(s, "\n")\<close> and \<open>strings.LastIndexByte(s, '\n')\<close>.\<close>

fun splitLines :: "string \<Rightarrow> string list" where
  "splitLines [] = [[]]"
| "splitLines (c # s) =
     (if c = newline then [] # splitLines s
      else (case splitLines s of [] \<Rightarrow> [[c]] | l # ls \<Rightarrow> (c # l) # ls))"

definition lastNewline :: "string \<Rightarrow> nat option" where
  "lastNewline s =
     (if newline \<in> set s then Some (length s - 1 - length (takeWhile (\<lambda>c. c \<noteq> newline) (rev s))) else None)"

fun joinSpace :: "string list \<Rightarrow> string" where
  "joinSpace [] = []"
| "joinSpace [x] = x"
| "joinSpace (x # y # ys) = x @ CHR 0x20 # joinSpace (y # ys)"

record Manifest =
  mfFile :: walFile
  live :: "string fset"

datatype manifestError =
    TooFewFields | AddWrongFields | UnknownOperation string
  | ManifestWriteFailed | ManifestSyncFailed | ManifestOpenFailed

definition applyLine :: "string fset \<Rightarrow> string \<Rightarrow> manifestError + string fset" where
  "applyLine lv line =
     (let fs = goFields line in
      if length fs < 2 then Inl TooFewFields
      else if hd fs = ''ADD'' then
        (if length fs \<noteq> 2 then Inl AddWrongFields else Inr (finsert (fs ! 1) lv))
      else if hd fs = ''REMOVE'' then Inr (lv |-| fset_of_list (tl fs))
      else Inl (UnknownOperation (hd fs)))"

fun applyLines :: "string fset \<Rightarrow> string list \<Rightarrow> manifestError + string fset" where
  "applyLines lv [] = Inr lv"
| "applyLines lv (line # lines) =
     (if line = [] then applyLines lv lines
      else
        (case applyLine lv line of
           Inl e \<Rightarrow> Inl e
         | Inr lv' \<Rightarrow> applyLines lv' lines))"

definition mfReplay :: "string \<Rightarrow> manifestError + string fset" where
  "mfReplay data =
     (case lastNewline data of
        None \<Rightarrow> Inr {||}
      | Some i \<Rightarrow> applyLines {||} (splitLines (take i data)))"

text \<open>
  \<open>ok\<close>: the directory, the file and the directory's fsync raise no error. The file is opened for
  appending and left as it is.
\<close>

definition mfOpen :: "walFile \<Rightarrow> bool \<Rightarrow> manifestError + Manifest" where
  "mfOpen f ok =
     (if \<not> ok then Inl ManifestOpenFailed
      else
        (case mfReplay (content f) of
           Inl e \<Rightarrow> Inl e
         | Inr lv \<Rightarrow> Inr \<lparr>mfFile = f, live = lv\<rparr>))"

definition writeLine :: "walFile \<Rightarrow> string \<Rightarrow> writeOutcome \<Rightarrow> bool \<Rightarrow> walFile \<times> manifestError option" where
  "writeLine f line wo so =
     (let (f1, written) = fileWrite f (line @ [newline]) wo in
      if \<not> written then (f1, Some ManifestWriteFailed)
      else
        let (f2, synced) = fileSync f1 so
        in (f2, if synced then None else Some ManifestSyncFailed))"

definition mfAdd :: "Manifest \<Rightarrow> string \<Rightarrow> writeOutcome \<Rightarrow> bool \<Rightarrow> Manifest \<times> manifestError option" where
  "mfAdd m sstableID wo so =
     (case writeLine (mfFile m) (''ADD '' @ sstableID) wo so of
        (f, Some e) \<Rightarrow> (m\<lparr>mfFile := f\<rparr>, Some e)
      | (f, None) \<Rightarrow> (m\<lparr>mfFile := f, live := finsert sstableID (live m)\<rparr>, None))"

definition mfRemove :: "Manifest \<Rightarrow> string list \<Rightarrow> writeOutcome \<Rightarrow> bool \<Rightarrow> Manifest \<times> manifestError option" where
  "mfRemove m ids wo so =
     (if ids = [] then (m, None)
      else
        (case writeLine (mfFile m) (''REMOVE '' @ joinSpace ids) wo so of
           (f, Some e) \<Rightarrow> (m\<lparr>mfFile := f\<rparr>, Some e)
         | (f, None) \<Rightarrow> (m\<lparr>mfFile := f, live := live m |-| fset_of_list ids\<rparr>, None)))"

text \<open>The order of Go's map iteration is unspecified; the callers sort.\<close>

definition LiveIDs :: "Manifest \<Rightarrow> string list" where
  "LiveIDs m = sorted_list_of_fset (live m)"

section \<open>Fields and lines\<close>

definition idOk :: "string \<Rightarrow> bool" where
  "idOk s \<longleftrightarrow> s \<noteq> [] \<and> list_all (\<lambda>c. \<not> isSpace c) s"

lemma isSpace_simps [simp]: "isSpace (CHR 0x20)" "isSpace newline"
  by (simp_all add: isSpace_def between_def)

lemma idOk_newline: "idOk s \<Longrightarrow> newline \<notin> set s"
  by (auto simp: idOk_def list_all_iff)

lemma takeWhile_id: "list_all P w \<Longrightarrow> takeWhile P (w @ s) = w @ takeWhile P s"
  "list_all P w \<Longrightarrow> dropWhile P (w @ s) = dropWhile P s"
  by (induction w) auto

lemma goFields_Nil [simp]: "goFields [] = []"
  by (simp add: goFields.simps)

lemma goFields_word:
  assumes "idOk w" "s = [] \<or> isSpace (hd s)"
  shows "goFields (w @ s) = w # goFields s"
proof -
  from assms(1) obtain c r where w: "w = c # r" "\<not> isSpace c" "list_all (\<lambda>x. \<not> isSpace x) r"
    by (cases w) (auto simp: idOk_def)
  have "takeWhile (\<lambda>x. \<not> isSpace x) (r @ s) = r" "dropWhile (\<lambda>x. \<not> isSpace x) (r @ s) = s"
    using w(3) assms(2) by (cases s; force simp: list_all_iff takeWhile_append2 dropWhile_append2)+
  with w show ?thesis by (simp add: goFields.simps [of "c # r @ s"])
qed

lemma goFields_space [simp]: "goFields (CHR 0x20 # s) = goFields s"
  by (subst (1 2) goFields.simps) simp

lemma goFields_append: "goFields (s @ CHR 0x20 # r) = goFields s @ goFields r"
proof (induction s rule: goFields.induct)
  case (1 s)
  show ?case
  proof (cases "dropWhile isSpace s")
    case Nil
    then have "dropWhile isSpace (s @ CHR 0x20 # r) = dropWhile isSpace r"
      by (simp add: dropWhile_append)
    then have "goFields (s @ CHR 0x20 # r) = goFields r" by (subst (1 2) goFields.simps) simp
    moreover have "goFields s = []" by (subst goFields.simps, subst Nil) simp
    ultimately show ?thesis by simp
  next
    case (Cons c t)
    then have "\<not> (\<forall>x \<in> set s. isSpace x)" by (metis dropWhile_eq_Nil_conv list.distinct(1))
    with Cons have d: "dropWhile isSpace (s @ CHR 0x20 # r) = c # t @ CHR 0x20 # r"
      by (auto simp: dropWhile_append)
    have "takeWhile (\<lambda>x. \<not> isSpace x) (t @ CHR 0x20 # r) = takeWhile (\<lambda>x. \<not> isSpace x) t"
      "dropWhile (\<lambda>x. \<not> isSpace x) (t @ CHR 0x20 # r) = dropWhile (\<lambda>x. \<not> isSpace x) t @ CHR 0x20 # r"
      by (induction t) simp_all
    with 1 [OF Cons] d Cons show ?thesis
      by (simp add: goFields.simps [of "s @ CHR 0x20 # r"] goFields.simps [of s])
  qed
qed

lemma goFields_join: "list_all idOk ids \<Longrightarrow> goFields (joinSpace ids) = ids"
proof (induction ids rule: joinSpace.induct)
  case (2 x)
  then show ?case using goFields_word [of x "[]"] by simp
next
  case (3 x y ys)
  then show ?case using goFields_word [of x "CHR 0x20 # joinSpace (y # ys)"] by simp
qed simp

lemma words_ok: "idOk ''ADD''" "idOk ''REMOVE''"
  by (simp_all add: idOk_def isSpace_def between_def)

lemma applyLine_ADD: "idOk i \<Longrightarrow> applyLine lv (''ADD '' @ i) = Inr (finsert i lv)"
  using goFields_word [OF words_ok(1), of "CHR 0x20 # i"] goFields_join [of "[i]"]
  by (simp add: applyLine_def)

lemma applyLine_REMOVE:
  "list_all idOk ids \<Longrightarrow> ids \<noteq> [] \<Longrightarrow> applyLine lv (''REMOVE '' @ joinSpace ids) = Inr (lv |-| fset_of_list ids)"
  using goFields_word [OF words_ok(2), of "CHR 0x20 # joinSpace ids"] goFields_join [of ids]
  by (cases ids) (simp_all add: applyLine_def)

lemma splitLines_line: "newline \<notin> set l \<Longrightarrow> splitLines (l @ newline # s) = l # splitLines s"
  by (induction l) auto

lemma splitLines_single: "newline \<notin> set l \<Longrightarrow> splitLines l = [l]"
  by (induction l) auto

definition unlines :: "string list \<Rightarrow> string" where
  "unlines ls = concat (map (\<lambda>l. l @ [newline]) ls)"

lemma unlines_simps [simp]: "unlines [] = []" "unlines (l # ls) = l @ newline # unlines ls"
  "unlines (ls @ ls') = unlines ls @ unlines ls'"
  by (simp_all add: unlines_def)

lemma splitLines_unlines:
  "\<forall>l \<in> set ls. newline \<notin> set l \<Longrightarrow> splitLines (butlast (unlines ls)) = (if ls = [] then [[]] else ls)"
proof (induction ls)
  case (Cons l ls)
  show ?case
  proof (cases ls)
    case Nil
    with Cons.prems show ?thesis by (simp add: butlast_append splitLines_single)
  next
    case (Cons l' ls')
    then have "unlines ls \<noteq> []" by simp
    with Cons.IH Cons.prems Cons show ?thesis
      by (simp add: butlast_append splitLines_line)
  qed
qed simp

lemma lastNewline_unlines:
  assumes "newline \<notin> set t"
  shows "lastNewline (unlines ls @ t) = (if ls = [] then None else Some (length (unlines ls) - 1))"
proof (cases ls rule: rev_cases)
  case Nil
  with assms show ?thesis by (simp add: lastNewline_def)
next
  case (snoc ms l)
  have "list_all (\<lambda>c. c \<noteq> newline) (rev t)" using assms by (auto simp: list_all_iff)
  with snoc show ?thesis by (simp add: lastNewline_def takeWhile_id)
qed

lemma mfReplay_unlines:
  assumes "\<forall>l \<in> set ls. newline \<notin> set l" "newline \<notin> set t"
  shows "mfReplay (unlines ls @ t) = applyLines {||} ls"
proof (cases "ls = []")
  case False
  have "take (length (unlines ls) - 1) (unlines ls @ t) = butlast (unlines ls)"
    by (simp add: butlast_conv_take)
  with assms False show ?thesis
    by (simp add: mfReplay_def lastNewline_unlines splitLines_unlines)
qed (use assms in \<open>simp add: mfReplay_def lastNewline_unlines [of t "[]", simplified]\<close>)

lemma applyLines_append:
  "applyLines lv (ls @ ls') = (case applyLines lv ls of Inl e \<Rightarrow> Inl e | Inr lv' \<Rightarrow> applyLines lv' ls')"
  by (induction ls arbitrary: lv) (auto split: sum.split)

section \<open>Recorded facts survive reopening\<close>

datatype mfOp = MfAdd string | MfRemove "string list"

fun mfOpOk :: "mfOp \<Rightarrow> bool" where
  "mfOpOk (MfAdd i) = idOk i"
| "mfOpOk (MfRemove ids) = list_all idOk ids"

fun mfStep :: "Manifest \<Rightarrow> mfOp \<Rightarrow> writeOutcome \<Rightarrow> bool \<Rightarrow> Manifest \<times> manifestError option" where
  "mfStep m (MfAdd i) wo so = mfAdd m i wo so"
| "mfStep m (MfRemove ids) wo so = mfRemove m ids wo so"

fun mfSpec :: "string fset \<Rightarrow> mfOp \<Rightarrow> string fset" where
  "mfSpec lv (MfAdd i) = finsert i lv"
| "mfSpec lv (MfRemove ids) = lv |-| fset_of_list ids"

fun opLines :: "mfOp \<Rightarrow> string list" where
  "opLines (MfAdd i) = [''ADD '' @ i]"
| "opLines (MfRemove ids) = (if ids = [] then [] else [''REMOVE '' @ joinSpace ids])"

definition mfOk :: "Manifest \<Rightarrow> bool" where
  "mfOk m \<longleftrightarrow> (\<exists>ls. content (mfFile m) = unlines ls \<and> durable (mfFile m) = unlines ls \<and>
     (\<forall>l \<in> set ls. newline \<notin> set l) \<and> applyLines {||} ls = Inr (live m))"

lemma join_newline: "list_all idOk ids \<Longrightarrow> newline \<notin> set (joinSpace ids)"
  by (induction ids rule: joinSpace.induct) (auto simp: idOk_newline)

lemma opLines_ok: "mfOpOk op \<Longrightarrow> l \<in> set (opLines op) \<Longrightarrow> newline \<notin> set l \<and> l \<noteq> []"
  by (cases op) (auto simp: idOk_newline join_newline split: if_splits)

lemma opLines_single: "opLines op = [] \<or> (\<exists>l. opLines op = [l])"
  by (cases op) auto

lemma applyLines_op: "mfOpOk op \<Longrightarrow> applyLines lv (opLines op) = Inr (mfSpec lv op)"
  using applyLine_ADD applyLine_REMOVE by (cases op) auto

lemma mfStep_file:
  assumes "mfStep m op wo so = (m', err)"
  shows "prefix (content (mfFile m')) (content (mfFile m) @ unlines (opLines op))"
    "mfFile m' = mfFile m \<or> prefix (content (mfFile m)) (content (mfFile m'))"
    "durable (mfFile m') = durable (mfFile m) \<or> durable (mfFile m') = content (mfFile m')"
    "err = None \<Longrightarrow> content (mfFile m') = content (mfFile m) @ unlines (opLines op) \<and>
      (opLines op \<noteq> [] \<longrightarrow> durable (mfFile m') = content (mfFile m')) \<and>
      (opLines op = [] \<longrightarrow> m' = m) \<and> live m' = mfSpec (live m) op"
  using assms
  by (cases op; auto simp: mfAdd_def mfRemove_def writeLine_def fileWrite_def fileSync_def Let_def
      take_is_prefix split: if_splits option.splits prod.splits)+

lemma mfOk_step:
  assumes "mfOk m" "mfOpOk op" "mfStep m op wo so = (m', None)"
  shows "mfOk m' \<and> live m' = mfSpec (live m) op"
proof -
  from assms(1) obtain ls where ls: "content (mfFile m) = unlines ls" "durable (mfFile m) = unlines ls"
    "\<forall>l \<in> set ls. newline \<notin> set l" "applyLines {||} ls = Inr (live m)" by (auto simp: mfOk_def)
  note st = mfStep_file(4) [OF assms(3), simplified]
  have "durable (mfFile m') = content (mfFile m')" using st ls by (cases "opLines op = []") auto
  moreover have "content (mfFile m') = unlines (ls @ opLines op)" using st ls(1) by simp
  moreover have "applyLines {||} (ls @ opLines op) = Inr (live m')"
    using st ls(4) by (simp add: applyLines_append applyLines_op [OF assms(2)])
  moreover have "\<forall>l \<in> set (ls @ opLines op). newline \<notin> set l" using ls(3) opLines_ok [OF assms(2)] by auto
  ultimately show ?thesis using st unfolding mfOk_def by metis
qed

lemma mfOk_open: "mfOk m \<Longrightarrow> mfOpen (mfFile m) True = Inr m"
  using mfReplay_unlines [of _ "[]"] by (auto simp: mfOk_def mfOpen_def)

lemma prefix_one_line:
  assumes "prefix t (l @ [newline])" "newline \<notin> set l"
  shows "t = l @ [newline] \<or> newline \<notin> set t"
  using assms by (auto simp: prefix_snoc dest: set_mono_prefix)

section \<open>Properties\<close>

text \<open>
  C33: The manifest is a faithful record: after any acknowledged additions and removals, starting from
  an empty file, opening the file again gives the same manifest, and its live set is the one the
  operations describe. Ids are non-empty and free of white space.
\<close>

theorem manifest_reopens:
  assumes "list_all mfOpOk ops"
  defines "m0 \<equiv> \<lparr>mfFile = \<lparr>content = [], durable = []\<rparr>, live = {||}\<rparr>"
  defines "m \<equiv> foldl (\<lambda>m op. fst (mfStep m op None True)) m0 ops"
  shows "mfOpen (mfFile m) True = Inr m \<and> live m = foldl mfSpec {||} ops"
proof -
  have ack: "mfStep m op None True = (fst (mfStep m op None True), None)" for m op
    by (cases op) (auto simp: mfAdd_def mfRemove_def writeLine_def fileWrite_def fileSync_def)
  have "mfOk (foldl (\<lambda>m op. fst (mfStep m op None True)) m ops) \<and>
      live (foldl (\<lambda>m op. fst (mfStep m op None True)) m ops) = foldl mfSpec (live m) ops"
    if "mfOk m" for m
    using assms(1) that
  proof (induction ops arbitrary: m)
    case (Cons op ops)
    with mfOk_step [OF Cons.prems(2) _ ack] show ?case by simp
  qed simp
  moreover have "mfOk m0" by (auto simp: mfOk_def m0_def intro: exI [of _ "[]"])
  ultimately show ?thesis by (simp add: m_def mfOk_open m0_def)
qed

theorem manifest_reopens_witness:
  "let m = foldl (\<lambda>m op. fst (mfStep m op None True))
         \<lparr>mfFile = \<lparr>content = [], durable = []\<rparr>, live = {||}\<rparr> [MfAdd ''a'', MfAdd ''b'', MfRemove [''a'']]
   in mfOpen (mfFile m) True = Inr m \<and> live m = {|''b'', ''a''|} |-| {|''a''|}"
  using manifest_reopens [of "[MfAdd ''a'', MfAdd ''b'', MfRemove [''a'']]"]
  by (simp add: Let_def idOk_def isSpace_def between_def)

text \<open>
  C34: A crash while a line is written is harmless to the lines before it: whatever part of the line
  is left, opening succeeds and gives the live set before or after the operation, and the one after
  it if the operation was acknowledged.
\<close>

theorem manifest_crash:
  assumes "mfOk m" "mfOpOk op" "mfStep m op wo so = (m', err)" "crashLeaves (mfFile m') c"
  shows "\<exists>lv. mfReplay c = Inr lv \<and> (lv = live m \<or> lv = mfSpec (live m) op) \<and>
    (err = None \<longrightarrow> lv = mfSpec (live m) op)"
proof -
  from assms(1) obtain ls where ls: "content (mfFile m) = unlines ls" "durable (mfFile m) = unlines ls"
    "\<forall>l \<in> set ls. newline \<notin> set l" "applyLines {||} ls = Inr (live m)" by (auto simp: mfOk_def)
  note st = mfStep_file [OF assms(3)]
  have "prefix (unlines ls) c \<and> prefix c (unlines ls @ unlines (opLines op))"
    using assms(4) st(1-3) ls(1,2) by (auto simp: crashLeaves_def intro: prefix_order.order_trans)
  then obtain t where t: "c = unlines ls @ t" "prefix t (unlines (opLines op))" by (auto simp: prefix_def)
  have full: "mfReplay (unlines ls @ unlines (opLines op)) = Inr (mfSpec (live m) op)"
    using mfReplay_unlines [of "ls @ opLines op" "[]"] ls(3,4) opLines_ok [OF assms(2)]
    by (auto simp: applyLines_append applyLines_op [OF assms(2)])
  have part: "mfReplay c = Inr (live m)" if "newline \<notin> set t"
    using mfReplay_unlines [OF ls(3) that] ls(4) by (simp add: t(1))
  consider "opLines op = []" | l where "opLines op = [l]" using opLines_single [of op] by blast
  then have "t = unlines (opLines op) \<or> newline \<notin> set t"
  proof cases
    case 1
    with t(2) show ?thesis by simp
  next
    case (2 l)
    with t(2) opLines_ok [OF assms(2), of l] prefix_one_line [of t l] show ?thesis by simp
  qed
  moreover have "c = unlines ls @ unlines (opLines op)" if "err = None"
    using st(4) [OF that] assms(4) ls(1,2)
    by (cases "opLines op = []") (auto simp: crashLeaves_def intro: prefix_order.order_antisym)
  ultimately show ?thesis using full part t(1) by (cases "err = None") auto
qed

theorem manifest_crash_witness:
  "let m = \<lparr>mfFile = \<lparr>content = [], durable = []\<rparr>, live = {||}\<rparr>
   in \<exists>lv. mfReplay ''ADD s'' = Inr lv \<and> (lv = live m \<or> lv = mfSpec (live m) (MfAdd ''sst_1''))"
proof -
  let ?m = "\<lparr>mfFile = \<lparr>content = [], durable = []\<rparr>, live = {||}\<rparr>"
  have "mfOk ?m" by (auto simp: mfOk_def intro: exI [of _ "[]"])
  moreover have "mfOpOk (MfAdd ''sst_1'')" by (simp add: idOk_def isSpace_def between_def)
  moreover have "mfStep ?m (MfAdd ''sst_1'') (Some 5) True =
      (\<lparr>mfFile = \<lparr>content = ''ADD s'', durable = []\<rparr>, live = {||}\<rparr>, Some ManifestWriteFailed)"
    by (simp add: mfAdd_def writeLine_def fileWrite_def)
  moreover have "crashLeaves (mfFile \<lparr>mfFile = \<lparr>content = ''ADD s'', durable = []\<rparr>, live = {||}\<rparr>) ''ADD s''"
    by (simp add: crashLeaves_def)
  ultimately show ?thesis using manifest_crash unfolding Let_def by blast
qed

text \<open>
  C35: The torn text of a crash is not cut off when the manifest is opened, so the next line is
  appended to it. If the torn line was an \<open>ADD\<close>, cut anywhere after its first space, then opening
  after the crash succeeds, adding the next SSTable is acknowledged, and every opening after that
  fails.
\<close>

theorem manifest_torn_add_blocks_open:
  assumes "\<forall>l \<in> set ls. newline \<notin> set l" "applyLines {||} ls = Inr lv"
    and "list_all (\<lambda>c. \<not> isSpace c) t" "idOk x"
    and "content f = unlines ls @ ''ADD '' @ t"
  shows "mfOpen f True = Inr \<lparr>mfFile = f, live = lv\<rparr> \<and>
    (\<exists>m'. mfAdd \<lparr>mfFile = f, live = lv\<rparr> x None True = (m', None) \<and> x |\<in>| live m' \<and>
      mfOpen (mfFile m') True = Inl AddWrongFields)"
proof -
  have nl: "newline \<notin> set (''ADD '' @ t)" using assms(3) by (auto simp: list_all_iff)
  have first: "mfOpen f True = Inr \<lparr>mfFile = f, live = lv\<rparr>"
    using mfReplay_unlines [OF assms(1) nl] assms(2,5) by (simp add: mfOpen_def)
  let ?l = "''ADD '' @ t @ ''ADD '' @ x"
  let ?f = "f\<lparr>content := unlines (ls @ [?l]), durable := unlines (ls @ [?l])\<rparr>"
  have add: "mfAdd \<lparr>mfFile = f, live = lv\<rparr> x None True = (\<lparr>mfFile = ?f, live = finsert x lv\<rparr>, None)"
    using assms(5) by (simp add: mfAdd_def writeLine_def fileWrite_def fileSync_def)
  have ok: "idOk (t @ ''ADD'')" using assms(3) words_ok(1) by (simp add: idOk_def list_all_iff ball_Un)
  have "goFields ?l = [''ADD'', t @ ''ADD'', x]"
    using goFields_word [OF words_ok(1), of "CHR 0x20 # t @ ''ADD '' @ x"]
      goFields_word [OF ok, of "CHR 0x20 # x"] goFields_word [OF assms(4), of "[]"] by simp
  then have "applyLine lv' ?l = Inl AddWrongFields" for lv' by (simp add: applyLine_def)
  then have "applyLines {||} (ls @ [?l]) = Inl AddWrongFields" using assms(2) by (simp add: applyLines_append)
  moreover have "\<forall>l \<in> set (ls @ [?l]). newline \<notin> set l" using assms(1) nl idOk_newline [OF assms(4)] by auto
  ultimately have "mfReplay (unlines (ls @ [?l])) = Inl AddWrongFields"
    using mfReplay_unlines [of "ls @ [?l]" "[]"] by simp
  then have "mfOpen ?f True = Inl AddWrongFields" by (simp add: mfOpen_def)
  with first add show ?thesis by auto
qed

theorem manifest_torn_add_blocks_open_witness:
  "let f = \<lparr>content = unlines [''ADD sst_1''] @ ''ADD '' @ ''sst'', durable = unlines [''ADD sst_1'']\<rparr>
   in mfOpen f True = Inr \<lparr>mfFile = f, live = {|''sst_1''|}\<rparr> \<and>
      (\<exists>m'. mfAdd \<lparr>mfFile = f, live = {|''sst_1''|}\<rparr> ''sst_3'' None True = (m', None) \<and>
        mfOpen (mfFile m') True = Inl AddWrongFields)"
proof -
  let ?f = "\<lparr>content = unlines [''ADD sst_1''] @ ''ADD '' @ ''sst'', durable = unlines [''ADD sst_1'']\<rparr>"
  have ids: "idOk ''sst_1''" "idOk ''sst_3''" "list_all (\<lambda>c. \<not> isSpace c) ''sst''"
    by (simp_all add: idOk_def isSpace_def between_def)
  have "applyLines {||} [''ADD sst_1''] = Inr {|''sst_1''|}"
    using applyLine_ADD [OF ids(1), of "{||}"] by simp
  moreover have "\<forall>l \<in> set [''ADD sst_1'']. newline \<notin> set l" by simp
  ultimately show ?thesis
    using manifest_torn_add_blocks_open [of "[''ADD sst_1'']" _ "''sst''" "''sst_3''" ?f] ids by (auto simp: Let_def)
qed

text \<open>
  C36: If the torn line was a \<open>REMOVE\<close>, cut anywhere after its first space, the next addition after the
  crash is acknowledged and then lost without an error: the glued line reads as the removal of the
  id just added, so at the next opening the new SSTable is not live.
\<close>

theorem manifest_torn_remove_loses_add:
  assumes "\<forall>l \<in> set ls. newline \<notin> set l" "applyLines {||} ls = Inr lv"
    and "newline \<notin> set t" "idOk x"
    and "content f = unlines ls @ ''REMOVE '' @ t"
  shows "mfOpen f True = Inr \<lparr>mfFile = f, live = lv\<rparr> \<and>
    (\<exists>m' m''. mfAdd \<lparr>mfFile = f, live = lv\<rparr> x None True = (m', None) \<and> x |\<in>| live m' \<and>
      mfOpen (mfFile m') True = Inr m'' \<and> x |\<notin>| live m'')"
proof -
  have nl: "newline \<notin> set (''REMOVE '' @ t)" using assms(3) by simp
  have first: "mfOpen f True = Inr \<lparr>mfFile = f, live = lv\<rparr>"
    using mfReplay_unlines [OF assms(1) nl] assms(2,5) by (simp add: mfOpen_def)
  let ?l = "''REMOVE '' @ t @ ''ADD '' @ x"
  let ?f = "f\<lparr>content := unlines (ls @ [?l]), durable := unlines (ls @ [?l])\<rparr>"
  have add: "mfAdd \<lparr>mfFile = f, live = lv\<rparr> x None True = (\<lparr>mfFile = ?f, live = finsert x lv\<rparr>, None)"
    using assms(5) by (simp add: mfAdd_def writeLine_def fileWrite_def fileSync_def)
  have "goFields ?l = ''REMOVE'' # goFields (t @ ''ADD'') @ [x]"
    using goFields_append [of "''REMOVE''" "t @ ''ADD '' @ x"] goFields_append [of "t @ ''ADD''" x]
      goFields_word [OF words_ok(2), of "[]"] goFields_word [OF assms(4), of "[]"] by simp
  then have "applyLine lv ?l = Inr (lv |-| fset_of_list (goFields (t @ ''ADD'') @ [x]))"
    by (simp add: applyLine_def)
  then have "applyLines {||} (ls @ [?l]) = Inr (lv |-| fset_of_list (goFields (t @ ''ADD'') @ [x]))"
    using assms(2) by (simp add: applyLines_append)
  moreover have "\<forall>l \<in> set (ls @ [?l]). newline \<notin> set l" using assms(1) nl idOk_newline [OF assms(4)] by auto
  ultimately have "mfReplay (unlines (ls @ [?l])) = Inr (lv |-| fset_of_list (goFields (t @ ''ADD'') @ [x]))"
    using mfReplay_unlines [of "ls @ [?l]" "[]"] by simp
  then have "mfOpen ?f True = Inr \<lparr>mfFile = ?f, live = lv |-| fset_of_list (goFields (t @ ''ADD'') @ [x])\<rparr>"
    by (simp add: mfOpen_def)
  with first add show ?thesis by auto
qed

theorem manifest_torn_remove_loses_add_witness:
  "let f = \<lparr>content = unlines [''ADD sst_1''] @ ''REMOVE '' @ ''sst_1 ss'', durable = unlines [''ADD sst_1'']\<rparr>
   in mfOpen f True = Inr \<lparr>mfFile = f, live = {|''sst_1''|}\<rparr> \<and>
      (\<exists>m' m''. mfAdd \<lparr>mfFile = f, live = {|''sst_1''|}\<rparr> ''sst_3'' None True = (m', None) \<and>
        mfOpen (mfFile m') True = Inr m'' \<and> ''sst_3'' |\<notin>| live m'')"
proof -
  let ?f = "\<lparr>content = unlines [''ADD sst_1''] @ ''REMOVE '' @ ''sst_1 ss'', durable = unlines [''ADD sst_1'']\<rparr>"
  have ids: "idOk ''sst_1''" "idOk ''sst_3''" by (simp_all add: idOk_def isSpace_def between_def)
  have "applyLines {||} [''ADD sst_1''] = Inr {|''sst_1''|}"
    using applyLine_ADD [OF ids(1), of "{||}"] by simp
  moreover have "\<forall>l \<in> set [''ADD sst_1'']. newline \<notin> set l" "newline \<notin> set ''sst_1 ss''" by simp_all
  ultimately show ?thesis
    using manifest_torn_remove_loses_add [of "[''ADD sst_1'']" _ "''sst_1 ss''" "''sst_3''" ?f] ids
    by (auto simp: Let_def)
qed

end
