(* ===== verification/Engine.thy ===== *)
theory Engine
  imports Compaction WalLog Manifest
begin

text \<open>
  The storage engine (src/internal/storage/engine): the write path through the WAL into the active
  memtable, the swap that freezes it, the background flush, size-tiered compaction, reads over all
  layers, Restore, Open and Close. Every operation is a function on the engine's state; the outcome
  of each I/O call it makes is an argument. What runs under no lock is split where another operation
  can come in between, and \<open>Engine_Steps\<close> interleaves those parts.
\<close>

section \<open>Definitions\<close>

text \<open>
  \<open>haltCause\<close> is None while the atomic flag \<open>halted\<close> is false. \<open>writesClosed\<close> stands for the flag
  of the same name and for \<open>queueClosed\<close>. The mutexes are not part of the state.
\<close>

record ('t, 'f) StorageEngine =
  active :: "'t MemTable"
  flushing :: "'t MemTable option"
  sstables :: "'f SSTable list"
  wal :: Log
  manifest :: Manifest
  dataDir :: sstDir
  engMaxBytes :: int
  groupCommit :: bool
  writesClosed :: bool
  haltCause :: "walError option"
  engClosed :: bool
  writes :: u64
  flushes :: u64
  flushFailures :: u64
  compactions :: u64
  compactionFailures :: u64

record Stats =
  MemtableBytes :: int
  SSTables :: nat
  Flushes :: u64
  FlushFailures :: u64
  Compactions :: u64
  CompactionFailures :: u64
  Writes :: u64
  stWritesHalted :: bool

definition WritesHalted :: "('t, 'f) StorageEngine \<Rightarrow> bool" where
  "WritesHalted e \<longleftrightarrow> haltCause e \<noteq> None"

definition engStats :: "('t, 'f) StorageEngine \<Rightarrow> Stats" where
  "engStats e =
     (let bytes = mtSize (active e);
          bytes' = (case flushing e of None \<Rightarrow> bytes | Some m \<Rightarrow> bytes + mtSize m)
      in \<lparr>MemtableBytes = bytes', SSTables = length (sstables e), Flushes = flushes e,
          FlushFailures = flushFailures e, Compactions = compactions e,
          CompactionFailures = compactionFailures e, Writes = writes e, stWritesHalted = WritesHalted e\<rparr>)"

datatype writeError =
    ErrWritesHalted walError | ErrClosed | WalFailed walError | VerifyFailed sstError | ErrRestoreIncomplete

record writeReq =
  reqEntry :: walEntry
  reqRecord :: string

subsection \<open>Reads\<close>

fun mergeTables ::
  "'f bloom_ops \<Rightarrow> sstDir \<Rightarrow> string \<Rightarrow> 'f SSTable list \<Rightarrow> DataItem list \<Rightarrow> sstError + DataItem list" where
  "mergeTables F d key [] merged = Inr merged"
| "mergeTables F d key (sst # ssts) merged =
     (case sstGetAll F d sst key of
        Inl e \<Rightarrow> Inl e
      | Inr None \<Rightarrow> mergeTables F d key ssts merged
      | Inr (Some items) \<Rightarrow> mergeTables F d key ssts (MergeSiblings merged items))"

definition mergeLayers ::
  "'t btree_ops \<Rightarrow> 'f bloom_ops \<Rightarrow> sstDir \<Rightarrow> string \<Rightarrow> 't MemTable \<Rightarrow> 't MemTable option \<Rightarrow>
    'f SSTable list \<Rightarrow> sstError + DataItem list \<times> bool" where
  "mergeLayers B F d key act fl ssts =
     (let merged = [];
          merged = (case mtGetAll B act key of None \<Rightarrow> merged | Some items \<Rightarrow> MergeSiblings merged items);
          merged = (case fl of
              None \<Rightarrow> merged
            | Some m \<Rightarrow>
                (case mtGetAll B m key of None \<Rightarrow> merged | Some items \<Rightarrow> MergeSiblings merged items))
      in case mergeTables F d key ssts merged of
           Inl e \<Rightarrow> Inl e
         | Inr items \<Rightarrow> Inr (items, length items > 0))"

definition engGetAll ::
  "'t btree_ops \<Rightarrow> 'f bloom_ops \<Rightarrow> ('t, 'f) StorageEngine \<Rightarrow> string \<Rightarrow> sstError + DataItem list \<times> bool" where
  "engGetAll B F e key = mergeLayers B F (dataDir e) key (active e) (flushing e) (sstables e)"

definition engKeys :: "'t btree_ops \<Rightarrow> ('t, 'f) StorageEngine \<Rightarrow> string list" where
  "engKeys B e =
     (let seen = set (mtKeys B (active e)) \<union>
            (case flushing e of None \<Rightarrow> {} | Some m \<Rightarrow> set (mtKeys B m)) \<union>
            (\<Union>sst \<in> set (sstables e). set (sstKeys sst))
      in sorted_list_of_set seen)"

subsection \<open>Writes\<close>

definition haltErr :: "('t, 'f) StorageEngine \<Rightarrow> writeError option" where
  "haltErr e = (case haltCause e of None \<Rightarrow> None | Some cause \<Rightarrow> Some (ErrWritesHalted cause))"

definition engHalt :: "('t, 'f) StorageEngine \<Rightarrow> walError \<Rightarrow> ('t, 'f) StorageEngine" where
  "engHalt e cause = (if haltCause e \<noteq> None then e else e\<lparr>haltCause := Some cause\<rparr>)"

definition sameVersions :: "DataItem list \<Rightarrow> DataItem list \<Rightarrow> bool" where
  "sameVersions a b \<longleftrightarrow> a = b"

definition replaceAndVerify ::
  "'t btree_ops \<Rightarrow> 'f bloom_ops \<Rightarrow> ('t, 'f) StorageEngine \<Rightarrow> string \<Rightarrow> DataItem list \<Rightarrow>
    ('t, 'f) StorageEngine \<times> writeError option" where
  "replaceAndVerify B F e key items =
     (let e' = e\<lparr>active := mtReplace B (active e) key items\<rparr>
      in (e',
          case mergeLayers B F (dataDir e') key (active e') (flushing e') (sstables e') of
            Inl err \<Rightarrow> Some (VerifyFailed err)
          | Inr (visible, _) \<Rightarrow> if \<not> sameVersions visible items then Some ErrRestoreIncomplete else None))"

fun applyLoop ::
  "'t btree_ops \<Rightarrow> 'f bloom_ops \<Rightarrow> ('t, 'f) StorageEngine \<Rightarrow> bool \<Rightarrow> writeReq list \<Rightarrow>
    ('t, 'f) StorageEngine \<times> bool \<times> writeError option list" where
  "applyLoop B F e crossed [] = (e, crossed, [])"
| "applyLoop B F e crossed (req # batch) =
     (case reqEntry req of
        OpRestore key items \<Rightarrow>
          (let (e1, err) = replaceAndVerify B F e key items;
               (e2, crossed2, errs) = applyLoop B F e1 crossed batch
           in (e2, crossed2, err # errs))
      | OpPut key item \<Rightarrow>
          (let (m, full) = mtPut B (active e) key item;
               (e2, crossed2, errs) = applyLoop B F (e\<lparr>active := m\<rparr>) (crossed \<or> full) batch
           in (e2, crossed2, None # errs)))"

definition engApply ::
  "'t btree_ops \<Rightarrow> 'f bloom_ops \<Rightarrow> ('t, 'f) StorageEngine \<Rightarrow> writeReq list \<Rightarrow>
    ('t, 'f) StorageEngine \<times> bool \<times> writeError option list" where
  "engApply B F e batch =
     (let (e', crossed, errs) = applyLoop B F e False batch
      in (e', crossed \<and> flushing e' = None, errs))"

text \<open>\<open>swap\<close> returns the arguments of the flush it starts, if it starts one.\<close>

definition engSwap ::
  "'t btree_ops \<Rightarrow> ('t, 'f) StorageEngine \<Rightarrow> logIO \<Rightarrow>
    ('t, 'f) StorageEngine \<times> ('t MemTable \<times> u64) option" where
  "engSwap B e io =
     (case Rotate (wal e) io of
        (l, Inl _) \<Rightarrow> (e\<lparr>wal := l\<rparr>, None)
      | (l, Inr seq) \<Rightarrow>
          (e\<lparr>wal := l, flushing := Some (active e), active := mtNew B (engMaxBytes e)\<rparr>,
           Some (active e, seq)))"

record commitIO =
  cWrite :: writeOutcome
  cSync :: bool
  cRotate :: logIO

definition commit ::
  "'t btree_ops \<Rightarrow> 'f bloom_ops \<Rightarrow> ('t, 'f) StorageEngine \<Rightarrow> writeReq list \<Rightarrow> commitIO \<Rightarrow>
    ('t, 'f) StorageEngine \<times> ('t MemTable \<times> u64) option \<times> writeError option list" where
  "commit B F e batch io =
     (case haltErr e of
        Some err \<Rightarrow> (e, None, map (\<lambda>_. Some err) batch)
      | None \<Rightarrow>
          (case logWriteBatch (wal e) (map reqRecord batch) (cWrite io) (cSync io) of
             (l, Some err) \<Rightarrow> (engHalt (e\<lparr>wal := l\<rparr>) err, None, map (\<lambda>_. Some (WalFailed err)) batch)
           | (l, None) \<Rightarrow>
               (let e1 = e\<lparr>wal := l, writes := writes e + word_of_nat (length batch)\<rparr>;
                    (e2, doSwap, errs) = engApply B F e1 batch
                in if doSwap then
                     (let (e3, job) = engSwap B e2 (cRotate io) in (e3, job, errs))
                   else (e2, None, errs))))"

definition newReq :: "walEntry \<Rightarrow> writeReq" where
  "newReq entry = \<lparr>reqEntry = entry, reqRecord = Encode entry\<rparr>"

text \<open>
  \<open>write\<close> without group commit. With it, \<open>enqueue\<close> either refuses the request or puts it on the
  queue, from which \<open>runCommitter\<close> takes batches.
\<close>

definition engWrite ::
  "'t btree_ops \<Rightarrow> 'f bloom_ops \<Rightarrow> ('t, 'f) StorageEngine \<Rightarrow> walEntry \<Rightarrow> commitIO \<Rightarrow>
    ('t, 'f) StorageEngine \<times> ('t MemTable \<times> u64) option \<times> writeError option" where
  "engWrite B F e entry io =
     (case haltErr e of
        Some err \<Rightarrow> (e, None, Some err)
      | None \<Rightarrow>
          if writesClosed e then (e, None, Some ErrClosed)
          else (let (e', job, errs) = commit B F e [newReq entry] io in (e', job, hd errs)))"

definition engPut ::
  "'t btree_ops \<Rightarrow> 'f bloom_ops \<Rightarrow> ('t, 'f) StorageEngine \<Rightarrow> string \<Rightarrow> DataItem \<Rightarrow> commitIO \<Rightarrow>
    ('t, 'f) StorageEngine \<times> ('t MemTable \<times> u64) option \<times> writeError option" where
  "engPut B F e key item io = engWrite B F e (OpPut key item) io"

definition engRestore ::
  "'t btree_ops \<Rightarrow> 'f bloom_ops \<Rightarrow> ('t, 'f) StorageEngine \<Rightarrow> string \<Rightarrow> DataItem list \<Rightarrow> commitIO \<Rightarrow>
    ('t, 'f) StorageEngine \<times> ('t MemTable \<times> u64) option \<times> writeError option" where
  "engRestore B F e key items io = engWrite B F e (OpRestore key items) io"

definition engEnqueue ::
  "('t, 'f) StorageEngine \<Rightarrow> writeReq list \<Rightarrow> walEntry \<Rightarrow> writeError + writeReq list" where
  "engEnqueue e queue entry =
     (case haltErr e of
        Some err \<Rightarrow> Inl err
      | None \<Rightarrow> if writesClosed e then Inl ErrClosed else Inr (queue @ [newReq entry]))"

definition maxBatchRecords :: nat where
  "maxBatchRecords = 1000"

definition maxBatchBytes :: nat where
  "maxBatchBytes = 2 ^ 20"

text \<open>
  The \<open>fill\<close> loop: the requests in the queue that join the batch, the one that would have
  overflowed it, and the requests still queued.
\<close>

fun fillBatch :: "writeReq list \<Rightarrow> nat \<Rightarrow> writeReq list \<Rightarrow> writeReq list \<times> writeReq option \<times> writeReq list" where
  "fillBatch batch sz [] = (batch, None, [])"
| "fillBatch batch sz (req # queue) =
     (if length batch < maxBatchRecords then
        if sz + length (reqRecord req) > maxBatchBytes then (batch, Some req, queue)
        else fillBatch (batch @ [req]) (sz + length (reqRecord req)) queue
      else (batch, None, req # queue))"

definition nextBatch :: "writeReq option \<Rightarrow> writeReq list \<Rightarrow> (writeReq list \<times> writeReq option \<times> writeReq list) option" where
  "nextBatch carried queue =
     (case carried of
        Some first \<Rightarrow> Some (fillBatch [first] (length (reqRecord first)) queue)
      | None \<Rightarrow>
          (case queue of
             [] \<Rightarrow> None
           | first # rest \<Rightarrow> Some (fillBatch [first] (length (reqRecord first)) rest)))"

lemma fillBatch_length:
  "fillBatch batch sz queue = (b, c, q) \<Longrightarrow>
    length b + length (case c of None \<Rightarrow> [] | Some r \<Rightarrow> [r]) + length q = length batch + length queue \<and>
    length batch \<le> length b"
  by (induction batch sz queue rule: fillBatch.induct) (auto split: if_splits)

text \<open>
  The committer from a state of its queue until the queue is empty, as it runs once \<open>Close\<close> has
  closed the queue; \<open>io n\<close> is the outcome of the n-th batch. It returns the flushes it started and
  the error of every request, in queue order.
\<close>

function runCommitter ::
  "'t btree_ops \<Rightarrow> 'f bloom_ops \<Rightarrow> ('t, 'f) StorageEngine \<Rightarrow> writeReq option \<Rightarrow> writeReq list \<Rightarrow>
    (nat \<Rightarrow> commitIO) \<Rightarrow> ('t, 'f) StorageEngine \<times> ('t MemTable \<times> u64) list \<times> writeError option list" where
  "runCommitter B F e carried queue io =
     (case nextBatch carried queue of
        None \<Rightarrow> (e, [], [])
      | Some (batch, carried', queue') \<Rightarrow>
          (let (e1, job, errs) = commit B F e batch (io 0);
               (e2, jobs, errs2) = runCommitter B F e1 carried' queue' (\<lambda>n. io (Suc n))
           in (e2, (case job of None \<Rightarrow> jobs | Some j \<Rightarrow> j # jobs), errs @ errs2)))"
  by pat_completeness auto
termination
  by (relation "measure (\<lambda>(B, F, e, carried, queue, io).
        length queue + (case carried of None \<Rightarrow> 0 | Some _ \<Rightarrow> 1))")
    (auto simp: nextBatch_def split: option.splits list.splits dest!: fillBatch_length)

declare runCommitter.simps [simp del]

subsection \<open>Flush\<close>

definition writeAndRegister ::
  "'f bloom_ops \<Rightarrow> ('t, 'f) StorageEngine \<Rightarrow> Entry list \<Rightarrow> nat \<Rightarrow> sstIO \<Rightarrow> writeOutcome \<Rightarrow> bool \<Rightarrow>
    ('t, 'f) StorageEngine \<times> 'f SSTable option" where
  "writeAndRegister F e entries now io wo so =
     (case sstWrite F (dataDir e) now entries io of
        (d, Inl _) \<Rightarrow> (e\<lparr>dataDir := d\<rparr>, None)
      | (d, Inr sst) \<Rightarrow>
          (case mfAdd (manifest e) (sstID sst) wo so of
             (m, Some _) \<Rightarrow> (e\<lparr>dataDir := d, manifest := m\<rparr>, None)
           | (m, None) \<Rightarrow> (e\<lparr>dataDir := d, manifest := m\<rparr>, Some sst)))"

text \<open>What \<open>flush\<close> does under \<open>e.mu\<close>, and the counters before it.\<close>

definition flushInstall ::
  "'t btree_ops \<Rightarrow> ('t, 'f) StorageEngine \<Rightarrow> 't MemTable \<Rightarrow> 'f SSTable option \<Rightarrow> ('t, 'f) StorageEngine" where
  "flushInstall B e frozen res =
     (let e1 = (case res of
              None \<Rightarrow> e\<lparr>flushFailures := flushFailures e + 1,
                       active := mtPutBackOlder B (active e) (mtSnapshot B frozen)\<rparr>
            | Some sst \<Rightarrow> e\<lparr>flushes := flushes e + 1, sstables := sst # sstables e\<rparr>)
      in if flushing e1 = Some frozen then e1\<lparr>flushing := None\<rparr> else e1)"

definition flushDelete :: "('t, 'f) StorageEngine \<Rightarrow> u64 \<Rightarrow> logIO \<Rightarrow> ('t, 'f) StorageEngine" where
  "flushDelete e sealedSeg io = e\<lparr>wal := fst (DeleteThrough (wal e) sealedSeg io)\<rparr>"

record flushIO =
  fNow :: nat
  fSst :: sstIO
  fWrite :: writeOutcome
  fSync :: bool
  fDelete :: logIO

definition flush ::
  "'t btree_ops \<Rightarrow> 'f bloom_ops \<Rightarrow> ('t, 'f) StorageEngine \<Rightarrow> 't MemTable \<Rightarrow> u64 \<Rightarrow> flushIO \<Rightarrow>
    ('t, 'f) StorageEngine" where
  "flush B F e frozen sealedSeg io =
     (let (e1, res) = writeAndRegister F e (mtSnapshot B frozen) (fNow io) (fSst io) (fWrite io) (fSync io);
          e2 = flushInstall B e1 frozen res
      in case res of None \<Rightarrow> e2 | Some _ \<Rightarrow> flushDelete e2 sealedSeg (fDelete io))"

subsection \<open>Compaction\<close>

function compactedIDFrom :: "sstDir \<Rightarrow> string \<Rightarrow> string" where
  "compactedIDFrom d i = (if sstName i |\<in>| fmdom d then compactedIDFrom d (i @ ''_c'') else i)"
  by pat_completeness auto
termination
proof (relation "measure (\<lambda>(d, i). card {n \<in> fmdom' d. length (sstName i) \<le> length n})")
  fix d :: sstDir and i
  assume a: "sstName i |\<in>| fmdom d"
  let ?S = "\<lambda>i. {n \<in> fmdom' d. length (sstName i) \<le> length n}"
  have "?S (i @ ''_c'') \<subset> ?S i"
  proof
    show "?S (i @ ''_c'') \<subseteq> ?S i" by (auto simp: sstName_def)
    have "sstName i \<in> ?S i" "sstName i \<notin> ?S (i @ ''_c'')"
      using a by (simp_all add: sstName_def fmdom'_alt_def)
    then show "?S (i @ ''_c'') \<noteq> ?S i" by blast
  qed
  then have "card (?S (i @ ''_c'')) < card (?S i)" by (intro psubset_card_mono) (simp_all add: fmdom'_alt_def)
  then show "((d, i @ ''_c''), d, i) \<in> measure (\<lambda>(d, i). card {n \<in> fmdom' d. length (sstName i) \<le> length n})"
    by simp
qed simp

declare compactedIDFrom.simps [simp del]

definition compactedID :: "('t, 'f) StorageEngine \<Rightarrow> string \<Rightarrow> string" where
  "compactedID e newestSourceID = compactedIDFrom (dataDir e) (newestSourceID @ ''_c'')"

text \<open>Tables are compared by identity in the code: each of the engine's tables has a file of its own.\<close>

fun replaceRun :: "'f SSTable list \<Rightarrow> 'f SSTable list \<Rightarrow> 'f SSTable \<Rightarrow> 'f SSTable list option" where
  "replaceRun [] run merged = None"
| "replaceRun (s # ssts) run merged =
     (if s \<noteq> hd run then map_option (Cons s) (replaceRun ssts run merged)
      else if length run > length (s # ssts) then None
      else if take (length run) (s # ssts) \<noteq> run then None
      else Some (merged # drop (length run) (s # ssts)))"

datatype compactError =
    MergeFailed sstError | CompactWriteFailed sstError | RegisterFailed manifestError
  | UnregisterFailed manifestError | RunNotContiguous

record compactIO =
  kSst :: sstIO
  kAddWrite :: writeOutcome
  kAddSync :: bool
  kRemoveOk :: "string \<Rightarrow> bool"
  kRemWrite :: writeOutcome
  kRemSync :: bool

text \<open>\<open>os.Remove\<close> of a table's file, where the flag says whether it succeeds.\<close>

definition removeFile :: "sstDir \<Rightarrow> string \<Rightarrow> (string \<Rightarrow> bool) \<Rightarrow> sstDir" where
  "removeFile d path ok = (if ok path then fmdrop path d else d)"

text \<open>
  \<open>compactLocked\<close> up to the swap: the error, nothing to do, or the run and the table that is to
  replace it, which the Manifest records by then.
\<close>

definition compactWrite ::
  "'f bloom_ops \<Rightarrow> ('t, 'f) StorageEngine \<Rightarrow> compactIO \<Rightarrow>
    ('t, 'f) StorageEngine \<times> (compactError + ('f SSTable list \<times> 'f SSTable) option)" where
  "compactWrite F e io =
     (let sources = SelectTierForCompaction (sstables e) in
      if sources = [] then (e, Inr None)
      else
        (case Merge (dataDir e) sources of
           Inl err \<Rightarrow> (e, Inl (MergeFailed err))
         | Inr entries \<Rightarrow>
             (case WriteWithID F (dataDir e) (compactedID e (sstID (hd sources))) entries (kSst io) of
                (d, Inl err) \<Rightarrow> (e\<lparr>dataDir := d\<rparr>, Inl (CompactWriteFailed err))
              | (d, Inr mergedSST) \<Rightarrow>
                  (case mfAdd (manifest e) (sstID mergedSST) (kAddWrite io) (kAddSync io) of
                     (m, Some err) \<Rightarrow>
                       (e\<lparr>manifest := m, dataDir := removeFile d (sstPath mergedSST) (kRemoveOk io)\<rparr>,
                        Inl (RegisterFailed err))
                   | (m, None) \<Rightarrow>
                       (case mfRemove m (map sstID sources) (kRemWrite io) (kRemSync io) of
                          (m2, Some err) \<Rightarrow>
                            (e\<lparr>manifest := m2, dataDir := d\<rparr>, Inl (UnregisterFailed err))
                        | (m2, None) \<Rightarrow>
                            (e\<lparr>manifest := m2, dataDir := d\<rparr>, Inr (Some (sources, mergedSST))))))))"

definition compactSwap ::
  "('t, 'f) StorageEngine \<Rightarrow> 'f SSTable list \<Rightarrow> 'f SSTable \<Rightarrow> ('t, 'f) StorageEngine \<times> bool" where
  "compactSwap e sources mergedSST =
     (case replaceRun (sstables e) sources mergedSST of
        None \<Rightarrow> (e, False)
      | Some swapped \<Rightarrow> (e\<lparr>sstables := swapped\<rparr>, True))"

definition compactDelete ::
  "('t, 'f) StorageEngine \<Rightarrow> 'f SSTable list \<Rightarrow> (string \<Rightarrow> bool) \<Rightarrow> ('t, 'f) StorageEngine" where
  "compactDelete e sources ok =
     e\<lparr>dataDir := foldl (\<lambda>d src. removeFile d (sstPath src) ok) (dataDir e) sources\<rparr>"

definition compactLocked ::
  "'f bloom_ops \<Rightarrow> ('t, 'f) StorageEngine \<Rightarrow> compactIO \<Rightarrow>
    ('t, 'f) StorageEngine \<times> bool \<times> compactError option" where
  "compactLocked F e io =
     (case compactWrite F e io of
        (e1, Inl err) \<Rightarrow> (e1, True, Some err)
      | (e1, Inr None) \<Rightarrow> (e1, False, None)
      | (e1, Inr (Some (sources, mergedSST))) \<Rightarrow>
          (case compactSwap e1 sources mergedSST of
             (e2, False) \<Rightarrow> (e2, True, Some RunNotContiguous)
           | (e2, True) \<Rightarrow> (compactDelete e2 sources (kRemoveOk io), True, None)))"

definition Compact ::
  "'f bloom_ops \<Rightarrow> ('t, 'f) StorageEngine \<Rightarrow> compactIO \<Rightarrow> ('t, 'f) StorageEngine \<times> compactError option" where
  "Compact F e io =
     (if engClosed e then (e, None)
      else
        (case compactLocked F e io of
           (e1, _, Some err) \<Rightarrow> (e1\<lparr>compactionFailures := compactionFailures e1 + 1\<rparr>, Some err)
         | (e1, True, None) \<Rightarrow> (e1\<lparr>compactions := compactions e1 + 1\<rparr>, None)
         | (e1, False, None) \<Rightarrow> (e1, None)))"

subsection \<open>Open and Close\<close>

text \<open>The data directory: WAL segments, the Manifest, the tables, and whether an engine holds its lock.\<close>

record disk =
  dkWal :: walDir
  dkManifest :: walFile
  dkSst :: sstDir
  dkLocked :: bool

datatype openError =
    CreateDirFailed | LockFailed | ErrLocked | OpenWalFailed logError | OpenManifestFailed manifestError
  | OpenTableFailed string sstError

record openIO =
  oMkdir :: bool
  oLock :: bool
  oWal :: logIO
  oManifest :: bool

fun replayEntry :: "'t btree_ops \<Rightarrow> 't MemTable \<Rightarrow> walEntry \<Rightarrow> 't MemTable" where
  "replayEntry B m (OpRestore key items) = mtReplace B m key items"
| "replayEntry B m (OpPut key item) = fst (mtPut B m key item)"

fun openTables :: "'f bloom_ops \<Rightarrow> sstDir \<Rightarrow> string list \<Rightarrow> openError + 'f SSTable list" where
  "openTables F d [] = Inr []"
| "openTables F d (i # ids) =
     (case sstOpen F d (sstName i) of
        Inl err \<Rightarrow> Inl (OpenTableFailed i err)
      | Inr sst \<Rightarrow>
          (case openTables F d ids of
             Inl err \<Rightarrow> Inl err
           | Inr ssts \<Rightarrow> Inr (sst # ssts)))"

definition loadLiveSSTables :: "'f bloom_ops \<Rightarrow> sstDir \<Rightarrow> Manifest \<Rightarrow> openError + 'f SSTable list" where
  "loadLiveSSTables F d m = openTables F d (rev (sort (LiveIDs m)))"

definition engOpen ::
  "'t btree_ops \<Rightarrow> 'f bloom_ops \<Rightarrow> disk \<Rightarrow> int \<Rightarrow> bool \<Rightarrow> openIO \<Rightarrow>
    disk \<times> (openError + ('t, 'f) StorageEngine)" where
  "engOpen B F dk maxMemtableBytes grouped io =
     (if \<not> oMkdir io then (dk, Inl CreateDirFailed)
      else if \<not> oLock io then (dk, Inl LockFailed)
      else if dkLocked dk then (dk, Inl ErrLocked)
      else
        (case OpenLog (dkWal dk) (oWal io) of
           (wd, Inl err) \<Rightarrow> (dk\<lparr>dkWal := wd\<rparr>, Inl (OpenWalFailed err))
         | (wd, Inr (w, entries)) \<Rightarrow>
             (case mfOpen (dkManifest dk) (oManifest io) of
                Inl err \<Rightarrow> (dk\<lparr>dkWal := wd\<rparr>, Inl (OpenManifestFailed err))
              | Inr mf \<Rightarrow>
                  (case loadLiveSSTables F (dkSst dk) mf of
                     Inl err \<Rightarrow> (dk\<lparr>dkWal := wd\<rparr>, Inl err)
                   | Inr ssts \<Rightarrow>
                       (dk\<lparr>dkWal := wd, dkLocked := True\<rparr>,
                        Inr \<lparr>active = foldl (replayEntry B) (mtNew B maxMemtableBytes) entries,
                             flushing = None, sstables = ssts, wal = w, manifest = mf,
                             dataDir = dkSst dk, engMaxBytes = maxMemtableBytes, groupCommit = grouped,
                             writesClosed = False, haltCause = None, engClosed = False, writes = 0,
                             flushes = 0, flushFailures = 0, compactions = 0, compactionFailures = 0\<rparr>)))))"

text \<open>The data directory of a running engine, which holds the lock.\<close>

definition diskOf :: "('t, 'f) StorageEngine \<Rightarrow> disk" where
  "diskOf e = \<lparr>dkWal = logDir (wal e), dkManifest = mfFile (manifest e), dkSst = dataDir e, dkLocked = True\<rparr>"

datatype closeError = CloseManifestFailed | CloseWalFailed | UnlockFailed

text \<open>
  \<open>closeWrites\<close> with group commit: \<open>carried\<close> and \<open>queue\<close> are what the committer has not committed
  when the queue is closed.
\<close>

definition closeWrites ::
  "'t btree_ops \<Rightarrow> 'f bloom_ops \<Rightarrow> ('t, 'f) StorageEngine \<Rightarrow> writeReq option \<Rightarrow> writeReq list \<Rightarrow>
    (nat \<Rightarrow> commitIO) \<Rightarrow> ('t, 'f) StorageEngine \<times> ('t MemTable \<times> u64) list \<times> writeError option list" where
  "closeWrites B F e carried queue io =
     (let e' = e\<lparr>writesClosed := True\<rparr>
      in if \<not> groupCommit e then (e', [], []) else runCommitter B F e' carried queue io)"

text \<open>\<open>Close\<close> once the writes are closed and the flushes done; the outcomes are those of its three calls.\<close>

definition engClose ::
  "('t, 'f) StorageEngine \<Rightarrow> bool \<Rightarrow> bool \<Rightarrow> bool \<Rightarrow> ('t, 'f) StorageEngine \<times> disk \<times> closeError option" where
  "engClose e manifestOk walOk unlockOk =
     (let e' = e\<lparr>engClosed := True\<rparr>;
          closeErr = (if \<not> manifestOk then Some CloseManifestFailed
                      else if \<not> walOk then Some CloseWalFailed else None)
      in (e', (diskOf e')\<lparr>dkLocked := \<not> unlockOk\<rparr>,
          if \<not> unlockOk \<and> closeErr = None then Some UnlockFailed else closeErr))"

section \<open>Reads\<close>

text \<open>The versions a layer has for a key, and those of all layers, newest layer first.\<close>

definition tableVersions :: "sstDir \<Rightarrow> 'f SSTable \<Rightarrow> string \<Rightarrow> DataItem list" where
  "tableVersions d s key = (case sstAll d s of Inl _ \<Rightarrow> [] | Inr es \<Rightarrow> versionsOf es key)"

definition layers :: "'t btree_ops \<Rightarrow> ('t, 'f) StorageEngine \<Rightarrow> string \<Rightarrow> DataItem list" where
  "layers B e key = mtCurrent B (active e) key @
     (case flushing e of None \<Rightarrow> [] | Some m \<Rightarrow> mtCurrent B m key) @
     concat (map (\<lambda>s. tableVersions (dataDir e) s key) (sstables e))"

text \<open>A table that reads back, of entries the table format can hold.\<close>

definition tableOk :: "'f bloom_ops \<Rightarrow> sstDir \<Rightarrow> 'f SSTable \<Rightarrow> bool" where
  "tableOk F d s \<longleftrightarrow> (\<exists>es. sstOf F d s es \<and> list_all sstFits es)"

lemma tableOk_frame: "tableOk F d s \<Longrightarrow> fmlookup d' (sstPath s) = fmlookup d (sstPath s) \<Longrightarrow> tableOk F d' s"
  unfolding tableOk_def using sstOf_frame by blast

lemma tableVersions_frame:
  "fmlookup d' (sstPath s) = fmlookup d (sstPath s) \<Longrightarrow> tableVersions d' s = tableVersions d s"
  by (simp add: tableVersions_def sstAll_def fun_eq_iff)

lemma tableVersions_sstOf: "sstOf F d s es \<Longrightarrow> tableVersions d s key = versionsOf es key"
  by (simp add: tableVersions_def sstOf_All)

lemma tableOk_path: "tableOk F d s \<Longrightarrow> sstPath s \<in> fmdom' d"
  by (auto simp: tableOk_def sstOf_def fmlookup_dom'_iff)

lemma mergeTables_ok:
  assumes "\<forall>s \<in> set ssts. tableOk F d s"
  shows "mergeTables F d key ssts merged =
    Inr (MergeSiblings merged (concat (map (\<lambda>s. tableVersions d s key) ssts)))"
  using assms
proof (induction ssts arbitrary: merged)
  case (Cons s ssts)
  from Cons.prems obtain es where "sstOf F d s es" by (auto simp: tableOk_def)
  with Cons show ?case
    by (simp add: sstOf_GetAll tableVersions_sstOf MergeSiblings_append)
qed simp

lemma mtGetAll_merge:
  "(case mtGetAll B m key of None \<Rightarrow> merged | Some items \<Rightarrow> MergeSiblings merged items) =
     MergeSiblings merged (mtCurrent B m key)"
  by (simp add: mtGetAll_def Let_def)

lemma GetAll_layers:
  assumes "\<forall>s \<in> set (sstables e). tableOk F (dataDir e) s"
  shows "engGetAll B F e key =
    Inr (MergeSiblings [] (layers B e key), MergeSiblings [] (layers B e key) \<noteq> [])"
  using mergeTables_ok [OF assms]
  by (auto simp: engGetAll_def mergeLayers_def mtGetAll_merge layers_def MergeSiblings_append Let_def
      split: option.splits)

end
