(* ===== verification/Engine_Steps.thy ===== *)
theory Engine_Steps
  imports Engine
begin

text \<open>
  The interleavings of the storage engine (src/internal/storage/engine): commits, the parts of a
  background flush and the parts of a compaction, in any order the locks allow and with any I/O
  outcome. The invariant of the engine's layers holds in every reachable state; flushes and
  compactions never change what a key reads as, and the maximal versions written are what it reads.
\<close>

section \<open>Definitions\<close>

text \<open>
  A compaction between its critical sections: about to put the merged table in the place of its
  run, or about to delete the run's files.
\<close>

datatype 'f compactJob = Swapping "'f SSTable list" "'f SSTable" | Deleting "'f SSTable list"

text \<open>
  An engine with what is in progress: the flush of the frozen memtable with the segment sealed for
  it and, once known, what writing its table gave; the segments flushes still have to delete; and
  the compaction.
\<close>

record ('t, 'f) world =
  eng :: "('t, 'f) StorageEngine"
  flushJob :: "('t MemTable \<times> u64 \<times> 'f SSTable option option) option"
  deletes :: "u64 list"
  compacting :: "'f compactJob option"

fun entryVersions :: "walEntry \<Rightarrow> Entry list" where
  "entryVersions (OpPut key item) = [(key, item)]"
| "entryVersions (OpRestore key items) = map (Pair key) items"

definition flushName :: "nat \<Rightarrow> string" where
  "flushName now = sstName (''sst_'' @ itoa now)"

text \<open>
  The clock's nanoseconds name no file that exists; that is what the code relies on to give each
  table a file of its own.
\<close>

inductive bgStep :: "'t btree_ops \<Rightarrow> 'f bloom_ops \<Rightarrow> ('t, 'f) world \<Rightarrow> ('t, 'f) world \<Rightarrow> bool"
  for B :: "'t btree_ops" and F :: "'f bloom_ops" where
  FlushWrite:
    "flushJob w = Some (frozen, seq, None) \<Longrightarrow> flushName now \<notin> fmdom' (dataDir (eng w)) \<Longrightarrow>
     writeAndRegister F (eng w) (mtSnapshot B frozen) now io wo so = (e, res) \<Longrightarrow>
     bgStep B F w (w\<lparr>eng := e, flushJob := Some (frozen, seq, Some res)\<rparr>)"
| FlushInstall:
    "flushJob w = Some (frozen, seq, Some res) \<Longrightarrow>
     bgStep B F w (w\<lparr>eng := flushInstall B (eng w) frozen res, flushJob := None,
       deletes := (case res of None \<Rightarrow> deletes w | Some _ \<Rightarrow> seq # deletes w)\<rparr>)"
| FlushDelete:
    "seq \<in> set (deletes w) \<Longrightarrow>
     bgStep B F w (w\<lparr>eng := flushDelete (eng w) seq dio, deletes := remove1 seq (deletes w)\<rparr>)"
| CompactWrite:
    "compacting w = None \<Longrightarrow> \<not> engClosed (eng w) \<Longrightarrow> compactWrite F (eng w) kio = (e, res) \<Longrightarrow>
     bgStep B F w (w\<lparr>eng := e, compacting :=
       (case res of Inr (Some (sources, merged)) \<Rightarrow> Some (Swapping sources merged) | _ \<Rightarrow> None)\<rparr>)"
| CompactSwap:
    "compacting w = Some (Swapping sources merged) \<Longrightarrow> compactSwap (eng w) sources merged = (e, ok) \<Longrightarrow>
     bgStep B F w (w\<lparr>eng := e, compacting := (if ok then Some (Deleting sources) else None)\<rparr>)"
| CompactDelete:
    "compacting w = Some (Deleting sources) \<Longrightarrow>
     bgStep B F w (w\<lparr>eng := compactDelete (eng w) sources rm, compacting := None\<rparr>)"

text \<open>
  A batch committed by the committer; the trace records its requests with the errors they got.
\<close>

inductive run ::
  "'t btree_ops \<Rightarrow> 'f bloom_ops \<Rightarrow> ('t, 'f) world \<Rightarrow> (walEntry \<times> writeError option) list \<Rightarrow> ('t, 'f) world \<Rightarrow> bool"
  for B :: "'t btree_ops" and F :: "'f bloom_ops" and w0 :: "('t, 'f) world" where
  Start: "run B F w0 [] w0"
| Background: "run B F w0 tr w \<Longrightarrow> bgStep B F w w' \<Longrightarrow> run B F w0 tr w'"
| Commit:
    "run B F w0 tr w \<Longrightarrow> (\<forall>req \<in> set batch. list_all sstFits (entryVersions (reqEntry req))) \<Longrightarrow>
     commit B F (eng w) batch io = (e, job, errs) \<Longrightarrow>
     run B F w0 (tr @ zip (map reqEntry batch) errs)
       (w\<lparr>eng := e, flushJob :=
          (case job of None \<Rightarrow> flushJob w | Some (m, seq) \<Rightarrow> Some (m, seq, None))\<rparr>)"

section \<open>The invariant\<close>

definition memOk :: "'t btree_ops \<Rightarrow> ('t \<Rightarrow> bool) \<Rightarrow> 't MemTable \<Rightarrow> bool" where
  "memOk B binv m \<longleftrightarrow> binv (tree m) \<and> (\<forall>k. \<forall>i \<in> set (mtCurrent B m k). sstFits (k, i))"

text \<open>The tables a world knows of beside the live ones.\<close>

definition jobTables :: "('t, 'f) world \<Rightarrow> 'f SSTable list" where
  "jobTables w =
     (case flushJob w of Some (_, _, Some (Some s)) \<Rightarrow> [s] | _ \<Rightarrow> []) @
     (case compacting w of None \<Rightarrow> [] | Some (Swapping _ s) \<Rightarrow> [s] | Some (Deleting ss) \<Rightarrow> ss)"

definition runVersions :: "sstDir \<Rightarrow> 'f SSTable list \<Rightarrow> string \<Rightarrow> DataItem list" where
  "runVersions d ss key = concat (map (\<lambda>s. tableVersions d s key) ss)"

definition worldOk :: "'t btree_ops \<Rightarrow> ('t \<Rightarrow> bool) \<Rightarrow> 'f bloom_ops \<Rightarrow> ('t, 'f) world \<Rightarrow> bool" where
  "worldOk B binv F w \<longleftrightarrow>
     memOk B binv (active (eng w)) \<and>
     flushing (eng w) = map_option fst (flushJob w) \<and>
     (\<forall>m. flushing (eng w) = Some m \<longrightarrow> memOk B binv m) \<and>
     (\<forall>s \<in> set (sstables (eng w) @ jobTables w). tableOk F (dataDir (eng w)) s) \<and>
     distinct (map sstPath (sstables (eng w) @ jobTables w)) \<and>
     (\<forall>m q s. flushJob w = Some (m, q, Some (Some s)) \<longrightarrow>
        (\<forall>k. tableVersions (dataDir (eng w)) s k = mtCurrent B m k)) \<and>
     (\<forall>src s. compacting w = Some (Swapping src s) \<longrightarrow> src \<noteq> [] \<and>
        (\<exists>p q. sstables (eng w) = p @ src @ q) \<and>
        (\<forall>k. tableVersions (dataDir (eng w)) s k = MergeSiblings [] (runVersions (dataDir (eng w)) src k)))"

text \<open>What a key reads as.\<close>

definition view :: "'t btree_ops \<Rightarrow> ('t, 'f) world \<Rightarrow> string \<Rightarrow> DataItem list" where
  "view B w key = MergeSiblings [] (layers B (eng w) key)"

lemma worldOk_GetAll: "worldOk B binv F w \<Longrightarrow> engGetAll B F (eng w) key = Inr (view B w key, view B w key \<noteq> [])"
  unfolding view_def by (rule GetAll_layers) (simp add: worldOk_def)

section \<open>Steps keep the invariant\<close>

text \<open>Files that no table of the world uses can come and go.\<close>

lemma worldOk_dir:
  assumes ok: "worldOk B binv F w"
    and same: "\<And>s. s \<in> set (sstables (eng w) @ jobTables w) \<Longrightarrow> fmlookup d (sstPath s) = fmlookup (dataDir (eng w)) (sstPath s)"
  shows "worldOk B binv F (w\<lparr>eng := (eng w)\<lparr>dataDir := d\<rparr>\<rparr>)"
    "layers B ((eng w)\<lparr>dataDir := d\<rparr>) key = layers B (eng w) key"
proof -
  let ?d = "dataDir (eng w)"
  have tv: "tableVersions d s = tableVersions ?d s" if "s \<in> set (sstables (eng w) @ jobTables w)" for s
    using tableVersions_frame [OF same [OF that]] .
  have tok: "tableOk F d s" if "s \<in> set (sstables (eng w) @ jobTables w)" for s
    using ok that same [OF that] tableOk_frame [of F ?d s d] by (simp add: worldOk_def)
  have job: "jobTables (w\<lparr>eng := (eng w)\<lparr>dataDir := d\<rparr>\<rparr>) = jobTables w" by (simp add: jobTables_def)
  have fl: "tableVersions d s k = mtCurrent B m k" if "flushJob w = Some (m, q, Some (Some s))" for m q s k
  proof -
    have "s \<in> set (jobTables w)" using that by (simp add: jobTables_def)
    then show ?thesis using ok that tv by (simp add: worldOk_def)
  qed
  have co: "src \<noteq> [] \<and> (\<exists>p q. sstables (eng w) = p @ src @ q) \<and>
      (\<forall>k. tableVersions d s k = MergeSiblings [] (runVersions d src k))"
    if c: "compacting w = Some (Swapping src s)" for src s
  proof -
    from ok c obtain p q where pq: "src \<noteq> []" "sstables (eng w) = p @ src @ q"
      "\<forall>k. tableVersions ?d s k = MergeSiblings [] (runVersions ?d src k)"
      unfolding worldOk_def by blast
    have "s \<in> set (jobTables w)" using c by (simp add: jobTables_def)
    moreover have "runVersions d src k = runVersions ?d src k" for k
      unfolding runVersions_def using tv pq(2) by (intro arg_cong [where f = concat] map_cong) auto
    ultimately show ?thesis using pq tv by auto
  qed
  show "worldOk B binv F (w\<lparr>eng := (eng w)\<lparr>dataDir := d\<rparr>\<rparr>)"
    unfolding worldOk_def job using ok tok fl co unfolding worldOk_def by simp
  show "layers B ((eng w)\<lparr>dataDir := d\<rparr>) key = layers B (eng w) key"
    unfolding layers_def using tv by (simp cong: map_cong)
qed

text \<open>Only the layers and the jobs matter to the invariant.\<close>

lemma worldOk_same:
  assumes "worldOk B binv F w" "active (eng w') = active (eng w)" "flushing (eng w') = flushing (eng w)"
    "sstables (eng w') = sstables (eng w)" "dataDir (eng w') = dataDir (eng w)"
    "flushJob w' = flushJob w" "compacting w' = compacting w"
  shows "worldOk B binv F w'" "view B w' key = view B w key"
  using assms by (simp_all add: worldOk_def jobTables_def view_def layers_def)

lemma WriteWithID_dir:
  "WriteWithID F d i es io = (d', r) \<Longrightarrow> d' = d \<or> d' = fmupd (sstName i) (tableFile F es) d"
  by (auto simp: WriteWithID_def writeAndPublish_def Let_def split_def split: if_splits)

lemma worldOk_path:
  "worldOk B binv F w \<Longrightarrow> s \<in> set (sstables (eng w) @ jobTables w) \<Longrightarrow> n \<notin> fmdom' (dataDir (eng w)) \<Longrightarrow> sstPath s \<noteq> n"
  using tableOk_path [of F "dataDir (eng w)" s] unfolding worldOk_def by blast

lemma worldOk_flushFailed:
  "worldOk B binv F w \<Longrightarrow> flushJob w = Some (m, q, None) \<Longrightarrow> worldOk B binv F (w\<lparr>flushJob := Some (m, q, Some None)\<rparr>)"
  by (simp add: worldOk_def jobTables_def)

lemma worldOk_flushWritten:
  assumes "worldOk B binv F w" "flushJob w = Some (m, q, None)" "tableOk F (dataDir (eng w)) s"
    "\<forall>t \<in> set (sstables (eng w) @ jobTables w). sstPath t \<noteq> sstPath s"
    "\<And>k. tableVersions (dataDir (eng w)) s k = mtCurrent B m k"
  shows "worldOk B binv F (w\<lparr>flushJob := Some (m, q, Some (Some s))\<rparr>)"
  using assms by (auto simp: worldOk_def jobTables_def)

lemma worldOk_flushInstalled:
  assumes "worldOk B binv F w" "flushJob w = Some (m, q, Some (Some s))"
  shows "worldOk B binv F (w\<lparr>eng := (eng w)\<lparr>sstables := s # sstables (eng w), flushing := None\<rparr>, flushJob := None\<rparr>)"
proof -
  have "\<exists>p q. s # sstables (eng w) = p @ src @ q" if "compacting w = Some (Swapping src t)" for src t
  proof -
    from that assms(1) obtain p q where "sstables (eng w) = p @ src @ q" unfolding worldOk_def by blast
    then have "s # sstables (eng w) = (s # p) @ src @ q" by simp
    then show ?thesis by blast
  qed
  with assms show ?thesis by (auto simp: worldOk_def jobTables_def)
qed

lemma memOk_fits:
  assumes "memOk B binv m" "\<And>k. set (mtCurrent B m' k) \<subseteq> set (mtCurrent B m k) \<union> X k"
    "binv (tree m')" "\<And>k i. i \<in> X k \<Longrightarrow> sstFits (k, i)"
  shows "memOk B binv m'"
  using assms unfolding memOk_def by blast

text \<open>The engine over its two libraries.\<close>

locale engine_libs = bt: btree B binv + bf: bloom F finv
  for B :: "'t btree_ops" and binv :: "'t \<Rightarrow> bool" and F :: "'f bloom_ops" and finv :: "'f \<Rightarrow> bool"
begin

lemma memOk_New: "memOk B binv (mtNew B n)"
  by (simp add: memOk_def)

lemma memOk_Put: "memOk B binv m \<Longrightarrow> sstFits (k, i) \<Longrightarrow> memOk B binv (fst (mtPut B m k i))"
  by (auto simp: memOk_def bt.current_Put)

lemma memOk_Replace:
  "memOk B binv m \<Longrightarrow> list_all sstFits (map (Pair k) items) \<Longrightarrow> memOk B binv (mtReplace B m k items)"
  by (auto simp: memOk_def bt.current_Replace list_all_iff)

lemma memOk_snapshot: "memOk B binv m \<Longrightarrow> list_all sstFits (mtSnapshot B m)"
proof -
  assume m: "memOk B binv m"
  have "sstFits e" if "e \<in> set (mtSnapshot B m)" for e
  proof -
    have "snd e \<in> set (versionsOf (mtSnapshot B m) (fst e))" using that by (force simp: versionsOf_def)
    with m show ?thesis using bt.versionsOf_Snapshot [of m "fst e"] by (force simp: memOk_def)
  qed
  then show ?thesis by (simp add: list_all_iff)
qed

lemma memOk_PutBackOlder:
  assumes "memOk B binv m" "memOk B binv f"
  shows "memOk B binv (mtPutBackOlder B m (mtSnapshot B f))"
proof (rule memOk_fits [OF assms(1)])
  have b: "binv (tree m)" "binv (tree f)" using assms by (simp_all add: memOk_def)
  show "binv (tree (mtPutBackOlder B m (mtSnapshot B f)))" by (rule bt.PutBackOlder_current(1) [OF b(1)])
  show "set (mtCurrent B (mtPutBackOlder B m (mtSnapshot B f)) k) \<subseteq> set (mtCurrent B m k) \<union> set (mtCurrent B f k)" for k
    using set_MergeSiblings_subset
    by (simp add: bt.PutBackOlder_current(2) [OF b(1)] bt.versionsOf_Snapshot [OF b(2)])
  show "i \<in> set (mtCurrent B f k) \<Longrightarrow> sstFits (k, i)" for k i using assms(2) by (simp add: memOk_def)
qed

lemma FlushWrite_ok:
  assumes ok: "worldOk B binv F w" and job: "flushJob w = Some (frozen, seq, None)"
    and fresh: "flushName now \<notin> fmdom' (dataDir (eng w))"
    and wr: "writeAndRegister F (eng w) (mtSnapshot B frozen) now io wo so = (e, res)"
  shows "worldOk B binv F (w\<lparr>eng := e, flushJob := Some (frozen, seq, Some res)\<rparr>)"
    "view B (w\<lparr>eng := e, flushJob := Some (frozen, seq, Some res)\<rparr>) key = view B w key"
proof -
  obtain d r where s: "WriteWithID F (dataDir (eng w)) (''sst_'' @ itoa now) (mtSnapshot B frozen) io = (d, r)"
    by fastforce
  have same: "fmlookup d (sstPath t) = fmlookup (dataDir (eng w)) (sstPath t)"
    if "t \<in> set (sstables (eng w) @ jobTables w)" for t
    using WriteWithID_dir [OF s] worldOk_path [OF ok that fresh] by (auto simp: flushName_def)
  let ?w = "w\<lparr>eng := (eng w)\<lparr>dataDir := d\<rparr>\<rparr>"
  have w1: "worldOk B binv F ?w" and v1: "view B ?w key = view B w key"
    using worldOk_dir [OF ok same] by (simp_all add: view_def)
  have fin: "worldOk B binv F (w\<lparr>eng := e, flushJob := Some (frozen, seq, Some res)\<rparr>) \<and>
      view B (w\<lparr>eng := e, flushJob := Some (frozen, seq, Some res)\<rparr>) key = view B w key"
    if "worldOk B binv F (?w\<lparr>flushJob := Some (frozen, seq, Some res)\<rparr>)" "\<exists>m. e = (eng w)\<lparr>dataDir := d, manifest := m\<rparr>"
    using worldOk_same(1) [OF that(1), of "w\<lparr>eng := e, flushJob := Some (frozen, seq, Some res)\<rparr>"]
      worldOk_same(2) [OF that(1), of "w\<lparr>eng := e, flushJob := Some (frozen, seq, Some res)\<rparr>" key] that(2) v1
    by (auto simp: view_def)
  have e: "\<exists>m. e = (eng w)\<lparr>dataDir := d, manifest := m\<rparr>"
  proof -
    have "\<exists>m. (eng w)\<lparr>dataDir := d\<rparr> = (eng w)\<lparr>dataDir := d, manifest := m\<rparr>"
      by (rule exI [of _ "manifest (eng w)"]) simp
    then show ?thesis using wr s
      by (auto simp: writeAndRegister_def sstWrite_def split: sum.splits option.splits prod.splits)
  qed
  have "worldOk B binv F (?w\<lparr>flushJob := Some (frozen, seq, Some res)\<rparr>)"
  proof (cases res)
    case None
    then show ?thesis using worldOk_flushFailed [OF w1] job by simp
  next
    case (Some t)
    then have r: "r = Inr t" using wr s
      by (auto simp: writeAndRegister_def sstWrite_def split: sum.splits option.splits prod.splits)
    have m: "memOk B binv frozen" using ok job by (simp add: worldOk_def)
    note sw = bf.Write_sstOf [OF s [unfolded r] memOk_snapshot [OF m]]
    show ?thesis unfolding Some
    proof (rule worldOk_flushWritten [OF w1])
      show "flushJob ?w = Some (frozen, seq, None)" using job by simp
      show "tableOk F (dataDir (eng ?w)) t" using sw memOk_snapshot [OF m] by (auto simp: tableOk_def)
      show "\<forall>u \<in> set (sstables (eng ?w) @ jobTables ?w). sstPath u \<noteq> sstPath t"
        using sw worldOk_path [OF ok _ fresh] by (auto simp: flushName_def jobTables_def)
      show "tableVersions (dataDir (eng ?w)) t k = mtCurrent B frozen k" for k
        using sw m bt.versionsOf_Snapshot [of frozen k] by (auto simp: tableVersions_sstOf memOk_def)
    qed
  qed
  then show "worldOk B binv F (w\<lparr>eng := e, flushJob := Some (frozen, seq, Some res)\<rparr>)"
    "view B (w\<lparr>eng := e, flushJob := Some (frozen, seq, Some res)\<rparr>) key = view B w key"
    using fin e by blast+
qed

lemma FlushInstall_ok:
  assumes ok: "worldOk B binv F w" and job: "flushJob w = Some (frozen, seq, Some res)"
  shows "worldOk B binv F (w\<lparr>eng := flushInstall B (eng w) frozen res, flushJob := None, deletes := dl\<rparr>)"
    "view B (w\<lparr>eng := flushInstall B (eng w) frozen res, flushJob := None, deletes := dl\<rparr>) key = view B w key"
proof -
  let ?w = "w\<lparr>eng := flushInstall B (eng w) frozen res, flushJob := None, deletes := dl\<rparr>"
  have fl: "flushing (eng w) = Some frozen" "memOk B binv frozen" "memOk B binv (active (eng w))"
    using ok job by (simp_all add: worldOk_def)
  have "worldOk B binv F ?w \<and> view B ?w key = view B w key"
  proof (cases res)
    case None
    let ?a = "mtPutBackOlder B (active (eng w)) (mtSnapshot B frozen)"
    have b: "binv (tree frozen)" "binv (tree (active (eng w)))" using fl by (simp_all add: memOk_def)
    have cur: "mtCurrent B ?a key = MergeSiblings (mtCurrent B (active (eng w)) key) (mtCurrent B frozen key)"
      by (simp add: bt.PutBackOlder_current(2) [OF b(2)] bt.versionsOf_Snapshot [OF b(1)])
    have "memOk B binv ?a" by (rule memOk_PutBackOlder [OF fl(3,2)])
    then have "worldOk B binv F ?w" using ok job None fl(1) by (simp add: worldOk_def flushInstall_def jobTables_def)
    moreover have "view B ?w key = view B w key"
      using None fl(1) by (simp add: view_def layers_def flushInstall_def MergeSiblings_append cur Merge_assoc)
    ultimately show ?thesis by simp
  next
    case (Some s)
    have tv: "tableVersions (dataDir (eng w)) s key = mtCurrent B frozen key"
      using ok job Some by (simp add: worldOk_def)
    have "worldOk B binv F ?w"
      by (rule worldOk_same(1) [OF worldOk_flushInstalled [OF ok, of frozen seq s]])
        (use job Some fl(1) in \<open>simp_all add: flushInstall_def\<close>)
    moreover have "view B ?w key = view B w key"
      using Some fl(1) tv by (simp add: view_def layers_def flushInstall_def)
    ultimately show ?thesis by simp
  qed
  then show "worldOk B binv F ?w" "view B ?w key = view B w key" by simp_all
qed

lemma sstOf_ex:
  assumes "\<forall>s \<in> set ss. tableOk F d s"
  obtains ess where "list_all2 (sstOf F d) ss ess" "list_all sstFits (concat ess)"
    "\<And>k. versionsOf (concat ess) k = runVersions d ss k"
proof -
  from assms have "\<exists>ess. list_all2 (sstOf F d) ss ess \<and> list_all sstFits (concat ess) \<and>
      (\<forall>k. versionsOf (concat ess) k = runVersions d ss k)"
  proof (induction ss)
    case (Cons s ss)
    then obtain ess es where "list_all2 (sstOf F d) ss ess" "list_all sstFits (concat ess)"
      "\<forall>k. versionsOf (concat ess) k = runVersions d ss k" "sstOf F d s es" "list_all sstFits es"
      by (auto simp: tableOk_def)
    then show ?case by (intro exI [of _ "es # ess"]) (simp add: runVersions_def tableVersions_sstOf)
  qed (simp add: runVersions_def)
  then show ?thesis using that by blast
qed

lemma Merge_written:
  assumes src: "\<forall>s \<in> set ss. tableOk F d s" and m: "Merge d ss = Inr es"
    and w: "WriteWithID F d i es io = (d', Inr t)"
  shows "tableOk F d' t" "sstPath t = sstName i"
    "tableVersions d' t k = MergeSiblings [] (runVersions d ss k)"
proof -
  obtain ess where ess: "list_all2 (sstOf F d) ss ess" "list_all sstFits (concat ess)"
    "\<And>k. versionsOf (concat ess) k = runVersions d ss k" by (rule sstOf_ex [OF src]) (rule that)
  from Merge_spec [OF ess(1)] m have vo: "versionsOf es k = MergeSiblings [] (runVersions d ss k)" for k
    unfolding ess(3) [symmetric] by (metis sum.inject(2))
  have "sstFits e" if "e \<in> set es" for e
  proof -
    have "snd e \<in> set (versionsOf es (fst e))" using that by (force simp: versionsOf_def)
    then have "snd e \<in> set (versionsOf (concat ess) (fst e))"
      using set_MergeSiblings_subset [of "[]" "runVersions d ss (fst e)"] by (auto simp: vo ess(3))
    then have "e \<in> set (concat ess)" unfolding versionsOf_def using prod_eqI [of e] by fastforce
    with ess(2) show ?thesis by (auto simp: list_all_iff)
  qed
  then have fits: "list_all sstFits es" by (simp add: list_all_iff)
  note wr = bf.Write_sstOf [OF w fits]
  from wr fits show "tableOk F d' t" "sstPath t = sstName i"
    "tableVersions d' t k = MergeSiblings [] (runVersions d ss k)"
    by (auto simp: tableOk_def tableVersions_sstOf vo)
qed

end

lemma compactedIDFrom_fresh: "sstName (compactedIDFrom d i) \<notin> fmdom' d"
proof (induction d i rule: compactedIDFrom.induct)
  case (1 d i)
  then show ?case by (subst compactedIDFrom.simps) (auto simp: fmdom'_alt_def)
qed

lemma Select_run:
  "SelectTierForCompaction ssts \<noteq> [] \<Longrightarrow> \<exists>p q. ssts = p @ SelectTierForCompaction ssts @ q"
  using selectLoop_run [of "[]" ssts "[]"] by (auto simp: SelectTierForCompaction_def)

lemma replaceRun_middle:
  "src \<noteq> [] \<Longrightarrow> hd src \<notin> set p \<Longrightarrow> replaceRun (p @ src @ q) src m = Some (p @ m # q)"
proof (induction p)
  case Nil
  then show ?case by (cases src) simp_all
qed auto

lemma worldOk_compacting:
  assumes "worldOk B binv F w" "compacting w = None" "src \<noteq> []" "\<exists>p q. sstables (eng w) = p @ src @ q"
    "tableOk F (dataDir (eng w)) t" "\<forall>s \<in> set (sstables (eng w) @ jobTables w). sstPath s \<noteq> sstPath t"
    "\<And>k. tableVersions (dataDir (eng w)) t k = MergeSiblings [] (runVersions (dataDir (eng w)) src k)"
  shows "worldOk B binv F (w\<lparr>compacting := Some (Swapping src t)\<rparr>)"
proof -
  have job: "jobTables (w\<lparr>compacting := Some (Swapping src t)\<rparr>) = jobTables w @ [t]"
    using assms(2) by (simp add: jobTables_def)
  have "sstPath t \<notin> sstPath ` set (sstables (eng w) @ jobTables w)" using assms(6) by force
  with assms show ?thesis unfolding worldOk_def job by auto
qed

text \<open>The swap puts the merged table in the place of its run and leaves the run's files to be deleted.\<close>

lemma CompactSwap_ok:
  assumes ok: "worldOk B binv F w" and job: "compacting w = Some (Swapping src t)"
    and sw: "compactSwap (eng w) src t = (e, swapped)"
  shows "swapped" "worldOk B binv F (w\<lparr>eng := e, compacting := Some (Deleting src)\<rparr>)"
    "view B (w\<lparr>eng := e, compacting := Some (Deleting src)\<rparr>) key = view B w key"
proof -
  let ?w = "w\<lparr>eng := e, compacting := Some (Deleting src)\<rparr>" and ?d = "dataDir (eng w)"
  from ok job obtain p q where pq: "src \<noteq> []" "sstables (eng w) = p @ src @ q"
    and tv: "\<And>k. tableVersions ?d t k = MergeSiblings [] (runVersions ?d src k)"
    unfolding worldOk_def by blast
  have dist: "distinct (map sstPath (sstables (eng w) @ jobTables w))" using ok by (simp add: worldOk_def)
  have "hd src \<notin> set p"
  proof
    assume "hd src \<in> set p"
    moreover have "hd src \<in> set src" using pq(1) by simp
    ultimately show False using dist unfolding pq(2) by auto
  qed
  from replaceRun_middle [OF pq(1) this] sw
  have e: "e = (eng w)\<lparr>sstables := p @ t # q\<rparr>" and swd: "swapped" by (simp_all add: compactSwap_def pq(2))
  show "swapped" by (rule swd)
  obtain j where j: "jobTables w = j @ [t]" "jobTables ?w = j @ src"
    using job by (simp add: jobTables_def)
  have "distinct (map sstPath ((p @ t # q) @ j @ src))" using dist unfolding pq(2) j by auto
  moreover have "\<forall>s \<in> set ((p @ t # q) @ j @ src). tableOk F ?d s"
    using ok unfolding worldOk_def pq(2) j by auto
  ultimately show "worldOk B binv F ?w" using ok e j(2) by (simp add: worldOk_def)
  show "view B ?w key = view B w key"
    by (simp add: view_def layers_def e pq(2) MergeSiblings_append tv Merge_assoc Merge_normal flip: runVersions_def)
qed

lemma foldl_removeFile:
  "p \<notin> sstPath ` set src \<Longrightarrow> fmlookup (foldl (\<lambda>d s. removeFile d (sstPath s) rm) d src) p = fmlookup d p"
  by (induction src arbitrary: d) (auto simp: removeFile_def)

lemma CompactDelete_ok:
  assumes ok: "worldOk B binv F w" and job: "compacting w = Some (Deleting src)"
  shows "worldOk B binv F (w\<lparr>eng := compactDelete (eng w) src rm, compacting := None\<rparr>)"
    "view B (w\<lparr>eng := compactDelete (eng w) src rm, compacting := None\<rparr>) key = view B w key"
proof -
  obtain j where j: "jobTables w = j @ src" "jobTables (w\<lparr>compacting := None\<rparr>) = j"
    using job by (simp add: jobTables_def)
  have ok1: "worldOk B binv F (w\<lparr>compacting := None\<rparr>)"
    using ok j by (auto simp: worldOk_def)
  let ?d = "foldl (\<lambda>d s. removeFile d (sstPath s) rm) (dataDir (eng w)) src"
  have "fmlookup ?d (sstPath s) = fmlookup (dataDir (eng w)) (sstPath s)"
    if "s \<in> set (sstables (eng w) @ j)" for s
    by (rule foldl_removeFile) (use ok that j(1) in \<open>auto simp: worldOk_def\<close>)
  moreover have eq: "w\<lparr>eng := compactDelete (eng w) src rm, compacting := None\<rparr> =
      (w\<lparr>compacting := None\<rparr>)\<lparr>eng := (eng (w\<lparr>compacting := None\<rparr>))\<lparr>dataDir := ?d\<rparr>\<rparr>"
    by (simp add: compactDelete_def)
  ultimately show "worldOk B binv F (w\<lparr>eng := compactDelete (eng w) src rm, compacting := None\<rparr>)"
    "view B (w\<lparr>eng := compactDelete (eng w) src rm, compacting := None\<rparr>) key = view B w key"
    unfolding eq using worldOk_dir [OF ok1, of ?d] j(2) by (simp_all add: view_def)
qed

lemma removeFile_same: "p \<noteq> n \<Longrightarrow> fmlookup (removeFile d n rm) p = fmlookup d p"
  by (simp add: removeFile_def)

text \<open>
  How \<open>compactLocked\<close> gets to its swap, or ends before it having touched only the file of the name
  it picked.
\<close>

lemma compactWrite_cases:
  fixes e0 :: "('t, 'f) StorageEngine"
  assumes "compactWrite F e0 io = (e, res)"
  defines "src \<equiv> SelectTierForCompaction (sstables e0)"
  defines "i \<equiv> compactedID e0 (sstID (hd src))"
  obtains (quiet) d' m where "e = e0\<lparr>dataDir := d', manifest := m\<rparr>"
      "\<And>p. p \<noteq> sstName i \<Longrightarrow> fmlookup d' p = fmlookup (dataDir e0) p" "\<And>x. res \<noteq> Inr (Some x)"
  | (merged) es d' t m where "res = Inr (Some (src, t))" "src \<noteq> []" "Merge (dataDir e0) src = Inr es"
      "WriteWithID F (dataDir e0) i es (kSst io) = (d', Inr t)" "e = e0\<lparr>dataDir := d', manifest := m\<rparr>"
proof -
  have self: "e0 = e0\<lparr>dataDir := dataDir e0, manifest := manifest e0\<rparr>" by simp
  have early: thesis if "e = e0" "\<And>x. res \<noteq> Inr (Some x)"
    using quiet [where d' = "dataDir e0" and m = "manifest e0"] that self by simp
  show thesis
  proof (cases "src = []")
    case True
    then show thesis using assms(1) by (intro early) (auto simp: compactWrite_def src_def)
  next
    case src: False
    show thesis
    proof (cases "Merge (dataDir e0) src")
      case (Inl err)
      then show thesis using assms(1) src by (intro early) (auto simp: compactWrite_def src_def Let_def)
    next
      case (Inr es)
      obtain d' r where w: "WriteWithID F (dataDir e0) i es (kSst io) = (d', r)" by fastforce
      have d': "fmlookup d' p = fmlookup (dataDir e0) p" if "p \<noteq> sstName i" for p
        using WriteWithID_dir [OF w] that by auto
      have cw: "(e, res) = (case r of Inl err \<Rightarrow> (e0\<lparr>dataDir := d'\<rparr>, Inl (CompactWriteFailed err))
         | Inr t \<Rightarrow>
             (case mfAdd (manifest e0) (sstID t) (kAddWrite io) (kAddSync io) of
                (m, Some err) \<Rightarrow> (e0\<lparr>manifest := m, dataDir := removeFile d' (sstPath t) (kRemoveOk io)\<rparr>, Inl (RegisterFailed err))
              | (m, None) \<Rightarrow>
                  (case mfRemove m (map sstID src) (kRemWrite io) (kRemSync io) of
                     (m2, Some err) \<Rightarrow> (e0\<lparr>manifest := m2, dataDir := d'\<rparr>, Inl (UnregisterFailed err))
                   | (m2, None) \<Rightarrow> (e0\<lparr>manifest := m2, dataDir := d'\<rparr>, Inr (Some (src, t))))))"
        using assms(1) src Inr w unfolding compactWrite_def Let_def src_def i_def by simp
      show thesis
      proof (cases r)
        case (Inl err)
        have "e0\<lparr>dataDir := d'\<rparr> = e0\<lparr>dataDir := d', manifest := manifest e0\<rparr>" by simp
        then show thesis using d' cw Inl by (intro quiet [where d' = d' and m = "manifest e0"]) simp_all
      next
        case r: (Inr t)
        obtain m ao where a: "mfAdd (manifest e0) (sstID t) (kAddWrite io) (kAddSync io) = (m, ao)" by fastforce
        obtain m2 ro where b: "mfRemove m (map sstID src) (kRemWrite io) (kRemSync io) = (m2, ro)" by fastforce
        have t: "sstPath t = sstName i"
          using w r by (auto simp: WriteWithID_def writeAndPublish_def Let_def split_def split: if_splits)
        show thesis
        proof (cases ao)
          case (Some err)
          show thesis
            by (rule quiet [where d' = "removeFile d' (sstPath t) (kRemoveOk io)" and m = m])
              (use cw r a Some d' removeFile_same [of _ "sstName i" d'] in \<open>simp_all add: t\<close>)
        next
          case None
          show thesis
          proof (cases ro)
            case (Some err)
            show thesis by (rule quiet [where d' = d' and m = m2]) (use cw r a b None Some d' in simp_all)
          next
            case ro: None
            show thesis
              by (rule merged [OF _ src Inr, where t = t and d' = d' and m = m2]) (use cw r a b None ro w in simp_all)
          qed
        qed
      qed
    qed
  qed
qed

context engine_libs
begin

lemma CompactWrite_ok:
  assumes ok: "worldOk B binv F w" and idle: "compacting w = None"
    and cw: "compactWrite F (eng w) kio = (e, res)"
  defines "job \<equiv> (case res of Inr (Some (sources, merged)) \<Rightarrow> Some (Swapping sources merged) | _ \<Rightarrow> None)"
  shows "worldOk B binv F (w\<lparr>eng := e, compacting := job\<rparr>) \<and>
    view B (w\<lparr>eng := e, compacting := job\<rparr>) key = view B w key"
proof -
  let ?e = "eng w" let ?d = "dataDir ?e" let ?src = "SelectTierForCompaction (sstables ?e)"
  let ?n = "sstName (compactedID ?e (sstID (hd ?src)))"
  have fresh: "?n \<notin> fmdom' ?d" unfolding compactedID_def by (rule compactedIDFrom_fresh)
  have fin: "worldOk B binv F (w\<lparr>eng := e, compacting := job\<rparr>) \<and>
      view B (w\<lparr>eng := e, compacting := job\<rparr>) key = view B w key"
    if w1: "worldOk B binv F (w\<lparr>eng := ?e\<lparr>dataDir := d'\<rparr>, compacting := job\<rparr>)" and e: "e = ?e\<lparr>dataDir := d', manifest := m\<rparr>"
      and l: "layers B (?e\<lparr>dataDir := d'\<rparr>) key = layers B ?e key" for d' m
  proof
    show "worldOk B binv F (w\<lparr>eng := e, compacting := job\<rparr>)"
      by (rule worldOk_same(1) [OF w1]) (simp_all add: e)
    have "layers B e key = layers B (?e\<lparr>dataDir := d'\<rparr>) key" by (simp add: e layers_def)
    then show "view B (w\<lparr>eng := e, compacting := job\<rparr>) key = view B w key" by (simp add: view_def l)
  qed
  have same: "fmlookup d' (sstPath s) = fmlookup ?d (sstPath s)"
    if "\<And>p. p \<noteq> ?n \<Longrightarrow> fmlookup d' p = fmlookup ?d p" "s \<in> set (sstables ?e @ jobTables w)" for s d'
    using that(1) worldOk_path [OF ok that(2) fresh] by blast
  from cw show ?thesis
  proof (cases rule: compactWrite_cases)
    case (quiet d' m)
    have "job = None" using quiet(3) unfolding job_def by (auto split: sum.splits option.splits)
    then have "w\<lparr>eng := ?e\<lparr>dataDir := d'\<rparr>, compacting := job\<rparr> = w\<lparr>eng := ?e\<lparr>dataDir := d'\<rparr>\<rparr>" using idle by simp
    with worldOk_dir [OF ok same [OF quiet(2)]] quiet(1) show ?thesis by (intro fin [where d' = d' and m = m]) simp_all
  next
    case (merged es d' t m)
    have job: "job = Some (Swapping ?src t)" using merged(1) by (simp add: job_def)
    obtain p q where pq: "sstables ?e = p @ ?src @ q" using Select_run [OF merged(2)] by blast
    have src: "\<forall>s \<in> set ?src. tableOk F ?d s"
    proof
      fix s assume "s \<in> set ?src"
      then have "s \<in> set (sstables ?e)" by (subst pq) simp
      then show "tableOk F ?d s" using ok by (simp add: worldOk_def)
    qed
    note mw = Merge_written [OF src merged(3,4)]
    have d': "\<And>p. p \<noteq> ?n \<Longrightarrow> fmlookup d' p = fmlookup ?d p" using WriteWithID_dir [OF merged(4)] by auto
    note w1 = worldOk_dir [OF ok same [OF d']]
    have rv: "runVersions d' ?src k = runVersions ?d ?src k" for k
      unfolding runVersions_def
    proof (intro arg_cong [where f = concat] map_cong refl)
      fix s assume "s \<in> set ?src"
      then have "s \<in> set (sstables ?e @ jobTables w)" by (subst pq) simp
      then show "tableVersions d' s k = tableVersions ?d s k" using tableVersions_frame [OF same [OF d']] by simp
    qed
    have "worldOk B binv F (w\<lparr>eng := ?e\<lparr>dataDir := d'\<rparr>\<rparr>\<lparr>compacting := Some (Swapping ?src t)\<rparr>)"
    proof (rule worldOk_compacting [OF w1(1)])
      show "\<forall>s \<in> set (sstables (eng (w\<lparr>eng := ?e\<lparr>dataDir := d'\<rparr>\<rparr>)) @ jobTables (w\<lparr>eng := ?e\<lparr>dataDir := d'\<rparr>\<rparr>)). sstPath s \<noteq> sstPath t"
        using mw(2) worldOk_path [OF ok _ fresh] by (auto simp: jobTables_def)
      show "\<exists>p q. sstables (eng (w\<lparr>eng := ?e\<lparr>dataDir := d'\<rparr>\<rparr>)) = p @ ?src @ q"
        using Select_run [OF merged(2)] by simp
    qed (use idle merged(2) mw rv in simp_all)
    with w1(2) merged(5) show ?thesis by (intro fin [where d' = d' and m = m]) (simp_all add: job)
  qed
qed

lemma bgStep_ok:
  assumes "bgStep B F w w'" "worldOk B binv F w"
  shows "worldOk B binv F w' \<and> view B w' key = view B w key"
  using assms
proof (cases rule: bgStep.cases)
  case (FlushWrite frozen seq now io wo so e res)
  with FlushWrite_ok [OF assms(2)] show ?thesis by simp
next
  case (FlushInstall frozen seq res)
  with FlushInstall_ok [OF assms(2)] show ?thesis by simp
next
  case (FlushDelete seq dio)
  then show ?thesis using worldOk_same [OF assms(2), of w'] by (simp add: flushDelete_def)
next
  case (CompactWrite kio e res)
  with CompactWrite_ok [OF assms(2)] show ?thesis by simp
next
  case (CompactSwap src t e swapped)
  note sw = CompactSwap_ok [OF assms(2) CompactSwap(2,3)]
  from CompactSwap(1) sw show ?thesis by simp
next
  case (CompactDelete src rm)
  with CompactDelete_ok [OF assms(2)] show ?thesis by simp
qed

text \<open>Applying a batch changes the active memtable only.\<close>

lemma applyLoop_frame:
  assumes "applyLoop B F e crossed batch = (e', crossed', errs)" "memOk B binv (active e)"
    "\<forall>req \<in> set batch. list_all sstFits (entryVersions (reqEntry req))"
  shows "\<exists>m. e' = e\<lparr>active := m\<rparr> \<and> memOk B binv m \<and> length errs = length batch"
  using assms
proof (induction batch arbitrary: e crossed e' crossed' errs)
  case Nil
  then show ?case by (intro exI [of _ "active e"]) simp
next
  case (Cons req batch)
  let ?e = "case reqEntry req of OpPut k i \<Rightarrow> e\<lparr>active := fst (mtPut B (active e) k i)\<rparr>
    | OpRestore k items \<Rightarrow> e\<lparr>active := mtReplace B (active e) k items\<rparr>"
  have m: "memOk B binv (active ?e)" "\<exists>m. ?e = e\<lparr>active := m\<rparr>"
    using Cons.prems(2,3) by (auto intro: memOk_Put memOk_Replace split: walEntry.splits)
  obtain c1 c2 errs2 where "applyLoop B F ?e c1 batch = (e', c2, errs2)" "length errs = Suc (length errs2)"
    using Cons.prems(1)
    by (auto simp: replaceAndVerify_def Let_def split_def split: walEntry.splits)
      (metis prod.collapse fst_conv)+
  with Cons.IH [of ?e c1 e' c2 errs2] Cons.prems(3) m show ?case by auto
qed

text \<open>What a batch did to the active memtable, for a world whose commit went through.\<close>

lemma Commit_ok:
  assumes ok: "worldOk B binv F w"
    and fits: "\<forall>req \<in> set batch. list_all sstFits (entryVersions (reqEntry req))"
    and c: "commit B F (eng w) batch io = (e, job, errs)"
  defines "w' \<equiv> w\<lparr>eng := e, flushJob := (case job of None \<Rightarrow> flushJob w | Some (m, seq) \<Rightarrow> Some (m, seq, None))\<rparr>"
  shows "worldOk B binv F w' \<and>
    (((\<exists>err. errs = map (\<lambda>_. Some err) batch) \<and> view B w' = view B w) \<or>
     (\<exists>e1 e2 crossed. applyLoop B F e1 False batch = (e2, crossed, errs) \<and> active e1 = active (eng w) \<and>
        (\<forall>k. view B w' k = view B (w\<lparr>eng := (eng w)\<lparr>active := active e2\<rparr>\<rparr>) k)))"
proof (cases "haltErr (eng w)")
  case (Some err)
  then have "w' = w" "errs = map (\<lambda>_. Some err) batch" using c by (simp_all add: commit_def w'_def)
  then show ?thesis using ok by blast
next
  case None
  obtain l wr where lw: "logWriteBatch (wal (eng w)) (map reqRecord batch) (cWrite io) (cSync io) = (l, wr)" by fastforce
  show ?thesis
  proof (cases wr)
    case (Some err)
    then have e: "e = engHalt ((eng w)\<lparr>wal := l\<rparr>) err" "job = None" "errs = map (\<lambda>_. Some (WalFailed err)) batch"
      using c None lw by (simp_all add: commit_def)
    have "worldOk B binv F w'" by (rule worldOk_same(1) [OF ok]) (simp_all add: w'_def e engHalt_def)
    moreover have "view B w' = view B w"
      by (rule ext, rule worldOk_same(2) [OF ok]) (simp_all add: w'_def e engHalt_def)
    ultimately show ?thesis using e(3) by blast
  next
    case wrok: None
    define e1 where "e1 = (eng w)\<lparr>wal := l, writes := writes (eng w) + word_of_nat (length batch)\<rparr>"
    obtain e2 crossed errs' where al: "applyLoop B F e1 False batch = (e2, crossed, errs')" by (metis prod_cases3)
    have act: "active e1 = active (eng w)" "flushing e1 = flushing (eng w)" "sstables e1 = sstables (eng w)"
      "dataDir e1 = dataDir (eng w)" by (simp_all add: e1_def)
    have "memOk B binv (active e1)" using ok act by (simp add: worldOk_def)
    from applyLoop_frame [OF al this fits] obtain m where m: "e2 = e1\<lparr>active := m\<rparr>" "memOk B binv m" by blast
    have cm: "(e, job, errs) = (if crossed \<and> flushing e2 = None
        then (let (e3, job) = engSwap B e2 (cRotate io) in (e3, job, errs')) else (e2, None, errs'))"
    proof -
      have "engApply B F e1 batch = (e2, crossed \<and> flushing e2 = None, errs')" by (simp add: engApply_def al)
      moreover have "(e, job, errs) = (let (e2, doSwap, errs) = engApply B F e1 batch in
          if doSwap then (let (e3, job) = engSwap B e2 (cRotate io) in (e3, job, errs)) else (e2, None, errs))"
        unfolding c [symmetric] commit_def e1_def using None lw wrok by simp
      ultimately show ?thesis by simp
    qed
    have ok2: "worldOk B binv F (w\<lparr>eng := (eng w)\<lparr>active := m\<rparr>\<rparr>)"
      using ok m(2) by (simp add: worldOk_def jobTables_def)
    have "worldOk B binv F w' \<and> errs = errs' \<and> (\<forall>k. view B w' k = view B (w\<lparr>eng := (eng w)\<lparr>active := m\<rparr>\<rparr>) k)"
    proof (cases "\<exists>l'. e = e2\<lparr>wal := l'\<rparr> \<and> job = None \<and> errs = errs'")
      case True
      then obtain l' where e: "e = e2\<lparr>wal := l'\<rparr>" "job = None" "errs = errs'" by blast
      have "worldOk B binv F w'" by (rule worldOk_same(1) [OF ok2]) (simp_all add: w'_def e m act)
      moreover have "view B w' k = view B (w\<lparr>eng := (eng w)\<lparr>active := m\<rparr>\<rparr>) k" for k
        by (rule worldOk_same(2) [OF ok2]) (simp_all add: w'_def e m act)
      ultimately show ?thesis using e(3) by blast
    next
      case False
      have swap: "crossed" "flushing e2 = None"
      proof -
        have "e2 = e2\<lparr>wal := wal e2\<rparr>" by simp
        then show "crossed" "flushing e2 = None" using False cm by (metis prod.inject)+
      qed
      obtain l' r where rot: "Rotate (wal e2) (cRotate io) = (l', r)" by fastforce
      from False cm swap rot obtain seq where r: "r = Inr seq" "errs = errs'"
        and e: "e = e2\<lparr>wal := l', flushing := Some m, active := mtNew B (engMaxBytes e2)\<rparr>" "job = Some (m, seq)"
        by (cases r) (auto simp: engSwap_def m)
      have fj: "flushJob w = None" "flushing (eng w) = None" using swap(2) ok m act by (simp_all add: worldOk_def)
      have "worldOk B binv F w'"
        using ok2 fj memOk_New m(2) by (simp add: worldOk_def jobTables_def w'_def e m act)
      moreover have "view B w' k = view B (w\<lparr>eng := (eng w)\<lparr>active := m\<rparr>\<rparr>) k" for k
        using fj by (simp add: view_def layers_def w'_def e m act)
      ultimately show ?thesis using r(2) by blast
    qed
    moreover have "active e2 = m" by (simp add: m)
    ultimately show ?thesis using al act(1) by blast
  qed
qed

lemma run_ok: "run B F w0 tr w \<Longrightarrow> worldOk B binv F w0 \<Longrightarrow> worldOk B binv F w"
proof (induction rule: run.induct)
  case (Background tr w w')
  then show ?case using bgStep_ok by blast
next
  case (Commit tr w batch io e job errs)
  then show ?case using Commit_ok by blast
qed simp

lemma covers_Put:
  "binv (tree m) \<Longrightarrow> covers (mtCurrent B (fst (mtPut B m k i)) k') c \<longleftrightarrow>
     covers (mtCurrent B m k') c \<or> k' = k \<and> c \<le> clk i"
  using covers_Resolve [of "mtCurrent B m k" i c] by (auto simp: bt.current_Put Resolve_eq)

lemma applyLoop_puts:
  assumes "applyLoop B F e crossed batch = (e', crossed', errs)" "binv (tree (active e))"
    "\<forall>req \<in> set batch. \<exists>k i. reqEntry req = OpPut k i"
  shows "errs = map (\<lambda>_. None) batch \<and> (\<forall>k c. covers (mtCurrent B (active e') k) c \<longleftrightarrow>
    covers (mtCurrent B (active e) k) c \<or> (\<exists>i. OpPut k i \<in> reqEntry ` set batch \<and> c \<le> clk i))"
  using assms
proof (induction batch arbitrary: e crossed e' crossed' errs)
  case (Cons req batch)
  from Cons.prems(3) obtain k i where req: "reqEntry req = OpPut k i" by auto
  let ?e = "e\<lparr>active := fst (mtPut B (active e) k i)\<rparr>"
  obtain m full where put: "mtPut B (active e) k i = (m, full)" by fastforce
  obtain e2 c2 errs2 where al: "applyLoop B F (e\<lparr>active := m\<rparr>) (crossed \<or> full) batch = (e2, c2, errs2)"
    by (metis prod_cases3)
  have "applyLoop B F ?e (crossed \<or> full) batch = (e', c2, errs2)" "errs = None # errs2"
    using Cons.prems(1) req put al by simp_all
  moreover have "binv (tree (active ?e))" using Cons.prems(2) by simp
  ultimately have "errs = map (\<lambda>_. None) (req # batch)"
    "covers (mtCurrent B (active e') k') c \<longleftrightarrow> covers (mtCurrent B (active ?e) k') c \<or>
      (\<exists>i. OpPut k' i \<in> reqEntry ` set batch \<and> c \<le> clk i)" for k' c
    using Cons.IH [of ?e "crossed \<or> full" e' c2 errs2] Cons.prems(3) by simp_all
  then show ?case using Cons.prems(2) req by (auto simp: covers_Put)
qed simp

end

section \<open>What the engine reads\<close>

text \<open>The versions of a key whose Put was acknowledged.\<close>

definition acked :: "(walEntry \<times> writeError option) list \<Rightarrow> string \<Rightarrow> DataItem set" where
  "acked tr key = {i. (OpPut key i, None) \<in> set tr}"

definition putsOnly :: "(walEntry \<times> writeError option) list \<Rightarrow> bool" where
  "putsOnly tr \<longleftrightarrow> (\<forall>(entry, err) \<in> set tr. \<exists>k i. entry = OpPut k i)"

lemma antichain_covers:
  assumes "antichain v" "\<And>c. covers v c \<longleftrightarrow> (\<exists>a \<in> A. c \<le> clk a)"
  shows "clk ` set v = maxima (clk ` A)"
proof (rule antichain_maxima [OF assms(1)])
  show "clk ` set v \<subseteq> clk ` A"
  proof
    fix c assume "c \<in> clk ` set v"
    then obtain x where x: "x \<in> set v" "c = clk x" by blast
    then obtain a where a: "a \<in> A" "clk x \<le> clk a" using assms(2) [of "clk x"] covers_mem by blast
    then obtain y where y: "y \<in> set v" "clk a \<le> clk y" using assms(2) [of "clk a"] by (auto simp: covers_def)
    have "clk x \<le> clk y" using a y by (meson order_trans)
    then have "x = y" using antichain_mem_eq [OF assms(1) x(1) y(1)] by blast
    then have "clk x = clk a" using a y by (simp add: order_antisym)
    then show "c \<in> clk ` A" using x a by blast
  qed
  show "covers v c" if "c \<in> clk ` A" for c using that assms(2) by blast
qed

lemma view_antichain: "antichain (view B w k)"
  unfolding view_def by (rule antichain_Merge) (simp add: antichain_def)

lemma covers_view: "covers (view B w k) c \<longleftrightarrow> covers (layers B (eng w) k) c"
  by (simp add: view_def covers_Merge)

lemma acked_append: "acked (tr @ tr') k = acked tr k \<union> acked tr' k"
  by (auto simp: acked_def)

lemma putsOnly_D: "putsOnly tr \<Longrightarrow> (entry, err) \<in> set tr \<Longrightarrow> \<exists>k i. entry = OpPut k i"
  unfolding putsOnly_def by fast

lemma putsOnly_append: "putsOnly (tr @ tr') \<longleftrightarrow> putsOnly tr \<and> putsOnly tr'"
  unfolding putsOnly_def set_append by blast

context engine_libs
begin

lemma run_covers:
  assumes "run B F w0 tr w" "worldOk B binv F w0" "putsOnly tr"
  shows "covers (view B w k) c \<longleftrightarrow> covers (view B w0 k) c \<or> (\<exists>i \<in> acked tr k. c \<le> clk i)"
  using assms
proof (induction rule: run.induct)
  case Start
  then show ?case by (simp add: acked_def)
next
  case (Background tr w w')
  then show ?case using bgStep_ok [OF Background.hyps(2) run_ok [OF Background.hyps(1)]] by simp
next
  case (Commit tr w batch io e job errs)
  let ?tr = "zip (map reqEntry batch) errs"
  let ?w = "w\<lparr>eng := e, flushJob := (case job of None \<Rightarrow> flushJob w | Some (m, seq) \<Rightarrow> Some (m, seq, None))\<rparr>"
  have ok: "worldOk B binv F w" using run_ok Commit by blast
  have IH: "covers (view B w k) c \<longleftrightarrow> covers (view B w0 k) c \<or> (\<exists>i \<in> acked tr k. c \<le> clk i)"
    using Commit by (simp add: putsOnly_append)
  have "covers (view B ?w k) c \<longleftrightarrow> covers (view B w k) c \<or> (\<exists>i \<in> acked ?tr k. c \<le> clk i)"
  proof -
    consider (failed) err where "errs = map (\<lambda>_. Some err) batch" "view B ?w = view B w"
      | (applied) e1 e2 crossed where "applyLoop B F e1 False batch = (e2, crossed, errs)" "active e1 = active (eng w)"
        "view B ?w k = view B (w\<lparr>eng := (eng w)\<lparr>active := active e2\<rparr>\<rparr>) k"
      using Commit_ok [OF ok Commit.hyps(2,3)] by blast
    then show ?thesis
    proof cases
      case failed
      then have "?tr = map (\<lambda>r. (reqEntry r, Some err)) batch" by (simp add: zip_map_map zip_same_conv_map)
      then have "acked ?tr k = {}" unfolding acked_def by auto
      with failed show ?thesis by simp
    next
      case applied
      have b: "binv (tree (active e1))" using ok applied(2) by (simp add: worldOk_def memOk_def)
      have len: "length errs = length batch"
        using applyLoop_frame [OF applied(1) _ Commit.hyps(2)] ok applied(2) by (auto simp: worldOk_def)
      have "\<forall>req \<in> set batch. \<exists>k i. reqEntry req = OpPut k i"
      proof
        fix req assume "req \<in> set batch"
        then have "reqEntry req \<in> set (map fst ?tr)" using len by simp
        then obtain err where "(reqEntry req, err) \<in> set ?tr" by auto
        moreover have "putsOnly ?tr" using Commit.prems(2) by (simp add: putsOnly_append)
        ultimately show "\<exists>k i. reqEntry req = OpPut k i" using putsOnly_D by blast
      qed
      note puts = applyLoop_puts [OF applied(1) b this]
      have "acked ?tr k = {i. OpPut k i \<in> reqEntry ` set batch}"
      proof -
        have "?tr = map (\<lambda>r. (reqEntry r, None)) batch" using puts by (simp add: zip_map_map zip_same_conv_map)
        then show ?thesis unfolding acked_def by auto
      qed
      then show ?thesis
        using puts applied(2,3) by (simp add: covers_view layers_def) blast
    qed
  qed
  with IH show ?case by (auto simp: acked_append)
qed

end

interpretation alBits: engine_libs alTree alInv bitFilter "\<lambda>f. f \<noteq> []"
  by unfold_locales

section \<open>Batches\<close>

fun optList :: "'a option \<Rightarrow> 'a list" where
  "optList None = []"
| "optList (Some x) = [x]"

lemma fillBatch_spec:
  assumes "fillBatch batch sz queue = (b, c, q)" "length batch \<le> maxBatchRecords"
    "sz = sum_list (map (\<lambda>r. length (reqRecord r)) batch)" "length batch = 1 \<or> sz \<le> maxBatchBytes"
  shows "batch @ queue = b @ optList c @ q \<and> prefix batch b \<and> length b \<le> maxBatchRecords \<and>
    (length b = 1 \<or> sum_list (map (\<lambda>r. length (reqRecord r)) b) \<le> maxBatchBytes)"
  using assms
proof (induction batch sz queue rule: fillBatch.induct)
  case (2 batch sz req queue)
  show ?case
  proof (cases "length batch < maxBatchRecords \<and> sz + length (reqRecord req) \<le> maxBatchBytes")
    case True
    then have "prefix (batch @ [req]) b" "(batch @ [req]) @ queue = b @ optList c @ q" "length b \<le> maxBatchRecords"
      "length b = 1 \<or> sum_list (map (\<lambda>r. length (reqRecord r)) b) \<le> maxBatchBytes"
      using "2.IH" "2.prems" by auto
    then show ?thesis using append_prefixD by auto
  next
    case False
    then show ?thesis using "2.prems" by (auto split: if_splits)
  qed
qed auto

lemma nextBatch_spec:
  assumes "nextBatch carried queue = Some (b, c, q)"
  shows "optList carried @ queue = b @ optList c @ q \<and> b \<noteq> [] \<and> length b \<le> maxBatchRecords \<and>
    (length b = 1 \<or> sum_list (map (\<lambda>r. length (reqRecord r)) b) \<le> maxBatchBytes)"
proof -
  from assms obtain first rest where fr: "optList carried @ queue = first # rest"
    "fillBatch [first] (length (reqRecord first)) rest = (b, c, q)"
    by (auto simp: nextBatch_def split: option.splits list.splits)
  have "length [first] \<le> maxBatchRecords" by (simp add: maxBatchRecords_def)
  with fillBatch_spec [OF fr(2)] fr(1) show ?thesis by (auto simp: prefix_def)
qed

lemma applyLoop_length: "applyLoop B F e crossed batch = (e', crossed', errs) \<Longrightarrow> length errs = length batch"
  by (induction batch arbitrary: e crossed e' crossed' errs)
    (auto simp: Let_def split: walEntry.splits prod.splits)

lemma commit_length: "commit B F e batch io = (e', job, errs) \<Longrightarrow> length errs = length batch"
  by (auto simp: commit_def engApply_def Let_def split: option.splits prod.splits if_splits dest: applyLoop_length)

lemma runCommitter_length:
  "runCommitter B F e carried queue io = (e', jobs, errs) \<Longrightarrow> length errs = length (optList carried @ queue)"
proof (induction B F e carried queue io arbitrary: e' jobs errs rule: runCommitter.induct)
  case (1 B F e carried queue io)
  show ?case
  proof (cases "nextBatch carried queue")
    case None
    then have "optList carried @ queue = []" by (auto simp: nextBatch_def split: option.splits list.splits)
    with None "1.prems" show ?thesis by (simp add: runCommitter.simps [of B F e carried queue])
  next
    case (Some t)
    then obtain b c q where t: "nextBatch carried queue = Some (b, c, q)" by (metis prod_cases3)
    obtain e1 job errs1 where cm: "commit B F e b (io 0) = (e1, job, errs1)" by (metis prod_cases3)
    obtain e2 jobs2 errs2 where rc: "runCommitter B F e1 c q (\<lambda>n. io (Suc n)) = (e2, jobs2, errs2)" by (metis prod_cases3)
    have errs: "errs = errs1 @ errs2"
      using "1.prems" t cm rc by (simp add: runCommitter.simps [of B F e carried queue])
    have "length errs2 = length (optList c @ q)"
      by (rule "1.IH" [OF t refl refl cm [symmetric] refl refl rc])
    moreover have "length errs1 = length b" by (rule commit_length [OF cm])
    moreover have "optList carried @ queue = b @ optList c @ q" using nextBatch_spec [OF t] by blast
    ultimately show ?thesis by (simp add: errs)
  qed
qed

section \<open>Halting\<close>

lemma bgStep_halt: "bgStep B F w w' \<Longrightarrow> haltCause (eng w') = haltCause (eng w)"
  by (induction rule: bgStep.induct)
    (auto simp: writeAndRegister_def flushInstall_def flushDelete_def compactSwap_def compactDelete_def
      Let_def split: prod.splits sum.splits option.splits elim!: compactWrite_cases)

lemma run_halted:
  assumes "run B F w tr w'" "haltCause (eng w) = Some c"
  shows "haltCause (eng w') = Some c \<and> (\<forall>(entry, err) \<in> set tr. err = Some (ErrWritesHalted c))"
  using assms
proof (induction rule: run.induct)
  case (Commit tr w1 batch io e job errs)
  then have "haltErr (eng w1) = Some (ErrWritesHalted c)" by (simp add: haltErr_def)
  with Commit have "e = eng w1" "errs = map (\<lambda>_. Some (ErrWritesHalted c)) batch" by (simp_all add: commit_def)
  with Commit show ?case by (auto simp: set_zip)
qed (auto simp: bgStep_halt)

section \<open>Names of merged tables\<close>

lemma less_append: "x \<noteq> [] \<Longrightarrow> (a :: string) < a @ x"
  by (induction a) (auto simp: neq_Nil_conv)

lemma less_append_fixed: "length a = length b \<Longrightarrow> a < b \<Longrightarrow> a @ x < (b :: string)"
  by (induction a b rule: list_induct2) auto

lemma compactedIDFrom_suffix: "\<exists>x. compactedIDFrom d i = i @ x"
proof (induction d i rule: compactedIDFrom.induct)
  case (1 d i)
  then show ?case
    by (cases "sstName i |\<in>| fmdom d") (auto simp: compactedIDFrom.simps [of d i])
qed

section \<open>An engine on an empty directory\<close>

definition emptyDisk :: disk where
  "emptyDisk = \<lparr>dkWal = \<lparr>files = fmempty, unlinked = fmempty\<rparr>, dkManifest = \<lparr>content = [], durable = []\<rparr>,
     dkSst = fmempty, dkLocked = False\<rparr>"

definition replayFine :: replayIO where
  "replayFine = \<lparr>statOk = True, seekStartOk = True, truncateOk = True, truncSyncOk = True, seekEndOk = True\<rparr>"

definition logFine :: logIO where
  "logFine = \<lparr>mkdirOk = True, readDirOk = True, openOk = (\<lambda>_. True), replayOk = (\<lambda>_. replayFine),
     closeOk = (\<lambda>_. True), removeOk = (\<lambda>_. True), syncDirOk = True\<rparr>"

definition openFine :: openIO where
  "openFine = \<lparr>oMkdir = True, oLock = True, oWal = logFine, oManifest = True\<rparr>"

definition commitFine :: commitIO where
  "commitFine = \<lparr>cWrite = None, cSync = True, cRotate = logFine\<rparr>"

definition commitFails :: commitIO where
  "commitFails = \<lparr>cWrite = Some 3, cSync = True, cRotate = logFine\<rparr>"

definition freshWorld :: "((string \<times> DataItem list) list, bool list) world" where
  "freshWorld =
     (case engOpen alTree bitFilter emptyDisk 1000 True openFine of
        (_, Inr e) \<Rightarrow> \<lparr>eng = e, flushJob = None, deletes = [], compacting = None\<rparr>)"

lemma freshWorld_simps [simp]:
  "active (eng freshWorld) = mtNew alTree 1000" "flushing (eng freshWorld) = None" "sstables (eng freshWorld) = []"
  "dataDir (eng freshWorld) = fmempty" "haltCause (eng freshWorld) = None" "writesClosed (eng freshWorld) = False"
  "flushJob freshWorld = None" "compacting freshWorld = None" "deletes freshWorld = []"
  by (simp_all add: freshWorld_def engOpen_def emptyDisk_def openFine_def OpenLog_def logFine_def listSegments_def
      sorted_list_of_fset.rep_eq startSegment_def Let_def dirOpen_def mfOpen_def mfReplay_def lastNewline_def
      loadLiveSSTables_def LiveIDs_def)

lemma freshWorld_open: "\<not> engClosed (eng freshWorld)"
  by (simp add: freshWorld_def engOpen_def emptyDisk_def openFine_def OpenLog_def logFine_def listSegments_def
      sorted_list_of_fset.rep_eq startSegment_def Let_def dirOpen_def mfOpen_def mfReplay_def lastNewline_def
      loadLiveSSTables_def LiveIDs_def)

lemma freshWorld_ok: "worldOk alTree alInv bitFilter freshWorld"
  by (simp add: worldOk_def jobTables_def alBits.memOk_New)

lemma freshWorld_view: "view alTree freshWorld k = []"
  by (simp add: view_def layers_def al.current_New)

lemma tombPut_run:
  "\<exists>w. run alTree bitFilter freshWorld [(OpPut ''k'' (snd tombExample), None)] w"
proof -
  let ?batch = "[newReq (OpPut ''k'' (snd tombExample))]"
  have fst: "fst tombExample = ''k''" by (simp add: tombExample_def)
  have "sstFits (''k'', snd tombExample)" using tomb_fits fst by (metis list.pred_inject(2) prod.collapse)
  then have fits: "\<forall>req \<in> set ?batch. list_all sstFits (entryVersions (reqEntry req))" by (simp add: newReq_def)
  obtain e job errs where c: "commit alTree bitFilter (eng freshWorld) ?batch commitFine = (e, job, errs)"
    by (metis prod_cases3)
  then have "errs = [None]"
    by (auto simp: commit_def haltErr_def logWriteBatch_def WriteBatch_def writeAndSync_def fileWrite_def fileSync_def
        commitFine_def engApply_def newReq_def Let_def split: prod.splits if_splits)
  with run.Commit [OF run.Start fits c] show ?thesis by (auto simp: newReq_def)
qed

section \<open>Properties\<close>



text \<open>
  C13: Flushes and compactions are invisible to readers. In every state the engine can reach, by
  Puts and Restores alike, no step of a background flush or compaction, succeeding or failing in any
  way, changes what any key reads as: the same versions in the same order, and no read error.
\<close>

theorem background_keeps_reads:
  assumes "engine_libs B binv F finv" "worldOk B binv F w0" "run B F w0 tr w" "bgStep B F w w'"
  shows "engGetAll B F (eng w') key = engGetAll B F (eng w) key \<and>
    (\<exists>vs. engGetAll B F (eng w) key = Inr (vs, vs \<noteq> []))"
proof -
  have ok: "worldOk B binv F w" by (rule engine_libs.run_ok [OF assms(1,3,2)])
  note bg = engine_libs.bgStep_ok [OF assms(1,4) ok]
  show ?thesis using worldOk_GetAll [OF ok, of key] worldOk_GetAll [of B binv F w' key] bg by simp
qed

theorem background_keeps_reads_witness:
  "\<exists>w. bgStep alTree bitFilter freshWorld w \<and>
     engGetAll alTree bitFilter (eng w) ''k'' = engGetAll alTree bitFilter (eng freshWorld) ''k''"
proof -
  obtain e res where "compactWrite bitFilter (eng freshWorld)
    \<lparr>kSst = SstOk, kAddWrite = None, kAddSync = True, kRemoveOk = \<lambda>_. True, kRemWrite = None, kRemSync = True\<rparr> = (e, res)"
    by fastforce
  then obtain w where "bgStep alTree bitFilter freshWorld w"
    using bgStep.CompactWrite [of freshWorld bitFilter _ e res] freshWorld_simps(8) by (auto simp: freshWorld_open)
  with background_keeps_reads [OF alBits.engine_libs_axioms freshWorld_ok run.Start] show ?thesis by blast
qed

text \<open>
  The run a compaction merged is still there to be replaced. However many flushes complete
  between the moment it selected the run and the moment it swaps the merged table in, the swap finds
  the run contiguous and in order: the branch of \<open>compactLocked\<close> that reports otherwise is never taken.
\<close>

theorem compaction_swap_succeeds:
  assumes "engine_libs B binv F finv" "worldOk B binv F w0" "run B F w0 tr w"
    "compacting w = Some (Swapping sources merged)"
  shows "snd (compactSwap (eng w) sources merged)"
  using CompactSwap_ok(1) [OF engine_libs.run_ok [OF assms(1,3,2)] assms(4)] by (metis prod.collapse)

theorem compaction_swap_succeeds_witness:
  "\<exists>e s t. e = (eng freshWorld)\<lparr>sstables := [s]\<rparr> \<and> snd (compactSwap e [s] t)"
proof -
  obtain s where w1: "WriteWithID bitFilter fmempty ''a'' [tombExample] SstOk =
    (fmupd ''a.sst'' (tableFile bitFilter [tombExample]) fmempty, Inr s)" using tomb_write by blast
  let ?d1 = "fmupd ''a.sst'' (tableFile bitFilter [tombExample]) fmempty"
  let ?d2 = "fmupd ''b.sst'' (tableFile bitFilter [tombExample]) ?d1"
  obtain t where w2: "WriteWithID bitFilter ?d1 ''b'' [tombExample] SstOk = (?d2, Inr t)"
    by (simp add: WriteWithID_def writeAndPublish_def isBase_def sstName_def Let_def split_def)
  note s = bloom.Write_sstOf [OF bits.bloom_axioms w1 tomb_fits]
  note t = bloom.Write_sstOf [OF bits.bloom_axioms w2 tomb_fits]
  have sp: "sstPath s = ''a.sst''" "sstPath t = ''b.sst''" using s t by (simp_all add: sstName_def)
  have s2: "sstOf bitFilter ?d2 s [tombExample]"
    by (rule sstOf_frame [OF s [THEN conjunct1]]) (simp add: sp)
  have t2: "sstOf bitFilter ?d2 t [tombExample]" using t by blast
  let ?e = "(eng freshWorld)\<lparr>sstables := [s], dataDir := ?d2\<rparr>"
  let ?w = "freshWorld\<lparr>eng := ?e, compacting := Some (Swapping [s] t)\<rparr>"
  have "versionsOf [tombExample] k = MergeSiblings [] (versionsOf [tombExample] k)" for k
    by (simp add: Resolve_eq)
  then have tv: "tableVersions ?d2 t k = MergeSiblings [] (runVersions ?d2 [s] k)" for k
    using tableVersions_sstOf [OF s2, of k] tableVersions_sstOf [OF t2, of k] by (simp add: runVersions_def)
  have run: "\<exists>p q. [s] = p @ [s] @ q" by (rule exI [of _ "[]"]) simp
  have ok: "worldOk alTree alInv bitFilter ?w"
  proof -
    have "tableOk bitFilter ?d2 s" "tableOk bitFilter ?d2 t" unfolding tableOk_def using s2 t2 tomb_fits by blast+
    then show ?thesis unfolding worldOk_def jobTables_def using sp tv run alBits.memOk_New by simp
  qed
  from compaction_swap_succeeds [OF alBits.engine_libs_axioms ok run.Start, of "[s]" t]
  have "snd (compactSwap ?e [s] t)" by simp
  then have "snd (compactSwap ((eng freshWorld)\<lparr>sstables := [s]\<rparr>) [s] t)" by (simp add: compactSwap_def)
  then show ?thesis by blast
qed

text \<open>
  C25: A failed WAL write halts writes for good. From a halted state every later write of every
  batch fails with the halt's cause, whatever flushes and compactions do, and the engine stays
  halted; so no write is ever acknowledged behind a record that may be torn.
\<close>

theorem halted_stays_halted:
  assumes "commit B F (eng w) batch io = (e, job, errs)" "haltCause (eng w) = None"
    "snd (logWriteBatch (wal (eng w)) (map reqRecord batch) (cWrite io) (cSync io)) = Some c"
    "run B F (w\<lparr>eng := e\<rparr>) tr w'"
  shows "errs = map (\<lambda>_. Some (WalFailed c)) batch \<and> job = None \<and> haltCause (eng w') = Some c \<and>
    (\<forall>(entry, err) \<in> set tr. err = Some (ErrWritesHalted c))"
proof -
  have e: "haltCause e = Some c" "errs = map (\<lambda>_. Some (WalFailed c)) batch" "job = None"
    using assms(1-3) by (auto simp: commit_def haltErr_def engHalt_def split: prod.splits)
  then show ?thesis using run_halted [OF assms(4), of c] by simp
qed

theorem halted_stays_halted_witness:
  "\<exists>e. commit alTree bitFilter (eng freshWorld) [newReq (OpPut ''k'' (snd tombExample))] commitFails =
     (e, None, [Some (WalFailed WriteFailed)]) \<and> haltCause e = Some WriteFailed"
proof -
  let ?batch = "[newReq (OpPut ''k'' (snd tombExample))]"
  obtain e job errs where c: "commit alTree bitFilter (eng freshWorld) ?batch commitFails = (e, job, errs)"
    by (metis prod_cases3)
  have wr: "snd (logWriteBatch (wal (eng freshWorld)) (map reqRecord ?batch) (cWrite commitFails) (cSync commitFails)) = Some WriteFailed"
    by (simp add: logWriteBatch_def WriteBatch_def writeAndSync_def fileWrite_def commitFails_def split_def)
  from halted_stays_halted [OF c _ wr run.Start] c show ?thesis by simp
qed

text \<open>
  C26: Restore tells the truth. On an engine that accepts writes and whose WAL write succeeds, Restore
  reports success exactly if a read of the key now returns the versions it was given, in their
  order; otherwise it reports that the restore is incomplete, or the error of the read.
\<close>

theorem restore_verified:
  assumes "engRestore B F e key items io = (e', job, err)"
    and "haltCause e = None" "\<not> writesClosed e"
    and "snd (logWriteBatch (wal e) [Encode (OpRestore key items)] (cWrite io) (cSync io)) = None"
  shows "job = None \<and> err =
    (case engGetAll B F e' key of
       Inl x \<Rightarrow> Some (VerifyFailed x)
     | Inr (visible, _) \<Rightarrow> if visible = items then None else Some ErrRestoreIncomplete)"
  using assms
  by (auto simp: engRestore_def engWrite_def haltErr_def commit_def newReq_def engApply_def Let_def
      replaceAndVerify_def engGetAll_def sameVersions_def split: prod.splits sum.splits)

theorem restore_verified_witness:
  "\<exists>e'. engRestore alTree bitFilter (eng freshWorld) ''k'' [snd tombExample] commitFine = (e', None, None) \<and>
     engGetAll alTree bitFilter e' ''k'' = Inr ([snd tombExample], True)"
proof -
  obtain e' job err where r: "engRestore alTree bitFilter (eng freshWorld) ''k'' [snd tombExample] commitFine = (e', job, err)"
    by (metis prod_cases3)
  have wr: "snd (logWriteBatch (wal (eng freshWorld)) [Encode (OpRestore ''k'' [snd tombExample])]
      (cWrite commitFine) (cSync commitFine)) = None"
    by (simp add: logWriteBatch_def WriteBatch_def writeAndSync_def fileWrite_def fileSync_def commitFine_def split_def)
  have act: "active e' = mtReplace alTree (mtNew alTree 1000) ''k'' [snd tombExample]" "flushing e' = None"
    "sstables e' = []"
    using r by (auto simp: engRestore_def engWrite_def haltErr_def commit_def newReq_def engApply_def Let_def
        replaceAndVerify_def logWriteBatch_def WriteBatch_def writeAndSync_def fileWrite_def fileSync_def
        commitFine_def split: prod.splits)
  have "engGetAll alTree bitFilter e' ''k'' = Inr ([snd tombExample], True)"
    by (subst GetAll_layers) (simp_all add: layers_def act al.current_Replace Resolve_eq)
  with restore_verified [OF r _ _ wr] r show ?thesis by simp
qed

text \<open>
  C27: A batch of the committer is a prefix of what is queued: it starts with the request carried
  over, keeps the order, holds at least one and at most 1000 requests, and at most 2^20 bytes unless
  it is a single request; what it leaves out is carried over or still queued.
\<close>

theorem batch_bounds:
  assumes "nextBatch carried queue = Some (batch, carried', queue')"
  shows "optList carried @ queue = batch @ optList carried' @ queue' \<and> batch \<noteq> [] \<and> length batch \<le> 1000 \<and>
    (length batch = 1 \<or> sum_list (map (\<lambda>r. length (reqRecord r)) batch) \<le> 2 ^ 20)"
  using nextBatch_spec [OF assms] by (simp add: maxBatchRecords_def maxBatchBytes_def)

theorem batch_bounds_witness:
  "let r = \<lparr>reqEntry = OpRestore ''k'' [], reqRecord = ''abc''\<rparr>
   in nextBatch (Some r) [r] = Some ([r, r], None, []) \<and> length [r, r] \<le> 1000"
proof -
  let ?r = "\<lparr>reqEntry = OpRestore ''k'' [], reqRecord = ''abc''\<rparr>"
  have "nextBatch (Some ?r) [?r] = Some ([?r, ?r], None, [])"
    by (simp add: nextBatch_def maxBatchRecords_def maxBatchBytes_def)
  with batch_bounds [OF this] show ?thesis by (simp add: Let_def)
qed

text \<open>
  C28: Close leaves no writer waiting. Once the queue is closed the committer drains it: it answers
  every request that was carried over or queued, with success or an error, and from then on every
  write is refused without touching the WAL.
\<close>

theorem close_answers_every_write:
  assumes "closeWrites B F e carried queue io = (e', jobs, errs)" "groupCommit e"
  shows "length errs = length (optList carried @ queue)"
  using assms runCommitter_length by (simp add: closeWrites_def)

theorem close_answers_every_write_witness:
  "\<exists>e' jobs err. closeWrites alTree bitFilter ((eng freshWorld)\<lparr>groupCommit := True\<rparr>)
     (Some (newReq (OpRestore ''k'' []))) [] (\<lambda>_. commitFails) = (e', jobs, [err])"
proof -
  obtain e' jobs errs where c: "closeWrites alTree bitFilter ((eng freshWorld)\<lparr>groupCommit := True\<rparr>)
     (Some (newReq (OpRestore ''k'' []))) [] (\<lambda>_. commitFails) = (e', jobs, errs)" by (metis prod_cases3)
  from close_answers_every_write [OF this] have "length errs = 1" by simp
  then obtain err where "errs = [err]" by (auto simp: length_Suc_conv)
  with c show ?thesis by blast
qed

text \<open>
  The ID of a merged table is new, and sorts where its run was: after the run's newest table,
  and before every table of a later timestamp, since an ID is a fixed-width timestamp with a suffix.
\<close>

theorem compacted_id_position:
  assumes "n \<le> length newest" "length later = n" "take n newest < later"
  shows "newest < compactedID e newest \<and> compactedID e newest < later \<and>
    sstName (compactedID e newest) \<notin> fmdom' (dataDir e)"
proof -
  obtain x where x: "compactedID e newest = (newest @ ''_c'') @ x"
    using compactedIDFrom_suffix unfolding compactedID_def by blast
  have "take n newest @ drop n newest @ ''_c'' @ x < later"
    by (rule less_append_fixed) (use assms in simp_all)
  then have "compactedID e newest < later" unfolding x by (simp add: append.assoc [symmetric])
  moreover have "newest < compactedID e newest" unfolding x using less_append [of "''_c'' @ x" newest] by simp
  moreover have "sstName (compactedID e newest) \<notin> fmdom' (dataDir e)"
    unfolding compactedID_def by (rule compactedIDFrom_fresh)
  ultimately show ?thesis by blast
qed

theorem compacted_id_position_witness:
  "''sst_17_c'' < compactedID (eng freshWorld) ''sst_17_c'' \<and> compactedID (eng freshWorld) ''sst_17_c'' < ''sst_18''"
  using compacted_id_position [of 6 "''sst_17_c''" "''sst_18''" "eng freshWorld"] by simp

end
