(* ===== verification/Store.thy ===== *)
theory Store
  imports Engine_Steps
begin

text \<open>
  The versioning store (src/internal/store): \<open>DataStore\<close> gives each local write its vector clock on
  top of a \<open>Persister\<close>. The persister is a record of operations with a contract, the locale
  \<open>persistence\<close>; the storage engine is shown to meet it. A call holds its key's lock throughout, so each
  operation is one function on the store's state; the striping of the locks is not modelled.
\<close>

section \<open>Definitions\<close>

record ('p, 'e) persister_ops =
  pPut :: "'p \<Rightarrow> string \<Rightarrow> DataItem \<Rightarrow> 'p \<times> 'e option"
  pGetAll :: "'p \<Rightarrow> string \<Rightarrow> 'e + DataItem list \<times> bool"
  pRestore :: "'p \<Rightarrow> string \<Rightarrow> DataItem list \<Rightarrow> 'p \<times> 'e option"
  pKeys :: "'p \<Rightarrow> 'e + string list"

record 'p DataStore =
  dsId :: string
  dsClockID :: string
  persister :: 'p

definition NewDataStoreWithPersisterAndClockID :: "string \<Rightarrow> string \<Rightarrow> 'p \<Rightarrow> 'p DataStore" where
  "NewDataStoreWithPersisterAndClockID i clockID p = \<lparr>dsId = i, dsClockID = clockID, persister = p\<rparr>"

definition NewDataStoreWithPersister :: "string \<Rightarrow> 'p \<Rightarrow> 'p DataStore" where
  "NewDataStoreWithPersister i p = NewDataStoreWithPersisterAndClockID i i p"

definition reversed :: "DataItem list \<Rightarrow> DataItem list" where
  "reversed items = rev items"

definition dsLoad :: "('p, 'e) persister_ops \<Rightarrow> 'p DataStore \<Rightarrow> string \<Rightarrow> 'e + DataItem list \<times> bool" where
  "dsLoad P ds key =
     (case pGetAll P (persister ds) key of
        Inl err \<Rightarrow> Inl err
      | Inr (items, found) \<Rightarrow> Inr (reversed items, found))"

definition dsKeys :: "('p, 'e) persister_ops \<Rightarrow> 'p DataStore \<Rightarrow> 'e + string list" where
  "dsKeys P ds = (case pKeys P (persister ds) of Inl err \<Rightarrow> Inl err | Inr keys \<Rightarrow> Inr keys)"

definition dsGet :: "('p, 'e) persister_ops \<Rightarrow> 'p DataStore \<Rightarrow> string \<Rightarrow> 'e + DataItem list \<times> bool" where
  "dsGet P ds key = dsLoad P ds key"

definition GetLiveItems :: "('p, 'e) persister_ops \<Rightarrow> 'p DataStore \<Rightarrow> string \<Rightarrow> DataItem list \<times> bool" where
  "GetLiveItems P ds key =
     (case dsLoad P ds key of
        Inl err \<Rightarrow> ([], False)
      | Inr (items, found) \<Rightarrow>
          if \<not> found then ([], False)
          else
            let aliveItems = filter (\<lambda>item. \<not> IsDeleted item) items
            in (aliveItems, length aliveItems > 0))"

text \<open>A nil context is None; a nil result of \<open>Put\<close> too.\<close>

definition dsPut ::
  "('p, 'e) persister_ops \<Rightarrow> 'p DataStore \<Rightarrow> string \<Rightarrow> goValue \<Rightarrow> vclock option \<Rightarrow>
    'p DataStore \<times> DataItem option" where
  "dsPut P ds key value ctx =
     (let base = (case ctx of
            Some c \<Rightarrow> Inr c
          | None \<Rightarrow>
              (case dsLoad P ds key of
                 Inl err \<Rightarrow> Inl err
               | Inr (existing, found) \<Rightarrow> Inr (if found then UnionVectorClock existing else fmempty)))
      in case base of
           Inl _ \<Rightarrow> (ds, None)
         | Inr b \<Rightarrow>
             (let incoming = \<lparr>Value = value, VectorClock = BuildFromContext b (dsClockID ds),
                              LastUpdatedBy = dsId ds, IsDeleted = False\<rparr>;
                  (p, err) = pPut P (persister ds) key incoming
              in (ds\<lparr>persister := p\<rparr>, if err \<noteq> None then None else Some incoming)))"

datatype 'e deleteResult = KeyDeleted | KeyNotFound | StorageError 'e

definition dsDelete ::
  "('p, 'e) persister_ops \<Rightarrow> 'p DataStore \<Rightarrow> string \<Rightarrow> vclock option \<Rightarrow> 'p DataStore \<times> 'e deleteResult" where
  "dsDelete P ds key ctx =
     (case dsLoad P ds key of
        Inl err \<Rightarrow> (ds, StorageError err)
      | Inr (existing, found) \<Rightarrow>
          if \<not> found then (ds, KeyNotFound)
          else
            (let base = (case ctx of Some c \<Rightarrow> c | None \<Rightarrow> UnionVectorClock existing);
                 tombstone = \<lparr>Value = JNull, VectorClock = BuildFromContext base (dsClockID ds),
                              LastUpdatedBy = dsId ds, IsDeleted = True\<rparr>;
                 (p, err) = pPut P (persister ds) key tombstone
             in (ds\<lparr>persister := p\<rparr>, case err of Some e \<Rightarrow> StorageError e | None \<Rightarrow> KeyDeleted)))"

definition RestoreVersions ::
  "('p, 'e) persister_ops \<Rightarrow> 'p DataStore \<Rightarrow> string \<Rightarrow> DataItem list \<Rightarrow> 'p DataStore \<times> 'e option" where
  "RestoreVersions P ds key items =
     (let (p, err) = pRestore P (persister ds) key (reversed items) in (ds\<lparr>persister := p\<rparr>, err))"

definition MergeReplicated ::
  "('p, 'e) persister_ops \<Rightarrow> 'p DataStore \<Rightarrow> string \<Rightarrow> DataItem \<Rightarrow> 'p DataStore \<times> 'e option" where
  "MergeReplicated P ds key item =
     (let (p, err) = pPut P (persister ds) key item in (ds\<lparr>persister := p\<rparr>, err))"

text \<open>
  The engine as a persister: its state is the engine with its background jobs and the outcomes of
  the commits to come.
\<close>

datatype storeError = ReadFailed sstError | WriteFailedWith writeError

definition afterWrite ::
  "('t, 'f) world \<Rightarrow> ('t, 'f) StorageEngine \<times> ('t MemTable \<times> u64) option \<times> writeError option \<Rightarrow> ('t, 'f) world" where
  "afterWrite w r = w\<lparr>eng := fst r, flushJob :=
     (case fst (snd r) of None \<Rightarrow> flushJob w | Some (m, seq) \<Rightarrow> Some (m, seq, None))\<rparr>"

definition enginePersister ::
  "'t btree_ops \<Rightarrow> 'f bloom_ops \<Rightarrow> (('t, 'f) world \<times> (nat \<Rightarrow> commitIO), storeError) persister_ops" where
  "enginePersister B F =
     \<lparr>pPut = (\<lambda>(w, ios) key item.
        let r = engPut B F (eng w) key item (ios 0)
        in ((afterWrite w r, \<lambda>n. ios (Suc n)), map_option WriteFailedWith (snd (snd r)))),
      pGetAll = (\<lambda>(w, ios) key. map_sum ReadFailed id (engGetAll B F (eng w) key)),
      pRestore = (\<lambda>(w, ios) key items.
        let r = engRestore B F (eng w) key items (ios 0)
        in ((afterWrite w r, \<lambda>n. ios (Suc n)), map_option WriteFailedWith (snd (snd r)))),
      pKeys = (\<lambda>(w, ios). Inr (engKeys B (eng w)))\<rparr>"

section \<open>The contract of a persister\<close>

text \<open>
  \<open>pview s key\<close> is what the key holds, newest first, and \<open>fits\<close> says which versions the storage
  format can hold.
\<close>

locale persistence =
  fixes P :: "('p, 'e) persister_ops" and pinv :: "'p \<Rightarrow> bool"
    and pview :: "'p \<Rightarrow> string \<Rightarrow> DataItem list" and fits :: "string \<Rightarrow> DataItem \<Rightarrow> bool"
  assumes view_antichain: "antichain (pview s k)"
    and get_view: "pinv s \<Longrightarrow> pGetAll P s k = Inr r \<Longrightarrow> r = (pview s k, pview s k \<noteq> [])"
    and put_inv: "pinv s \<Longrightarrow> fits k i \<Longrightarrow> pPut P s k i = (s', err) \<Longrightarrow> pinv s'"
    and put_covers: "pinv s \<Longrightarrow> fits k i \<Longrightarrow> pPut P s k i = (s', None) \<Longrightarrow>
      covers (pview s' k) c \<longleftrightarrow> covers (pview s k) c \<or> c \<le> clk i"
    and put_dominates: "pinv s \<Longrightarrow> fits k i \<Longrightarrow> pPut P s k i = (s', None) \<Longrightarrow>
      (\<And>x. x \<in> set (pview s k) \<Longrightarrow> clk x < clk i) \<Longrightarrow> pview s' k = [i]"
    and put_subset: "pinv s \<Longrightarrow> fits k i \<Longrightarrow> pPut P s k i = (s', None) \<Longrightarrow> set (pview s' k) \<subseteq> insert i (set (pview s k))"
    and put_other: "pinv s \<Longrightarrow> fits k i \<Longrightarrow> pPut P s k i = (s', err) \<Longrightarrow> k' \<noteq> k \<Longrightarrow> pview s' k' = pview s k'"
    and put_failed: "pinv s \<Longrightarrow> fits k i \<Longrightarrow> pPut P s k i = (s', Some e) \<Longrightarrow> pview s' k = pview s k"
    and restore_inv: "pinv s \<Longrightarrow> (\<And>i. i \<in> set items \<Longrightarrow> fits k i) \<Longrightarrow> pRestore P s k items = (s', err) \<Longrightarrow> pinv s'"
    and restore_view: "pinv s \<Longrightarrow> (\<And>i. i \<in> set items \<Longrightarrow> fits k i) \<Longrightarrow> pRestore P s k items = (s', None) \<Longrightarrow>
      pview s' k = items"
    and restore_other: "pinv s \<Longrightarrow> (\<And>i. i \<in> set items \<Longrightarrow> fits k i) \<Longrightarrow> pRestore P s k items = (s', err) \<Longrightarrow>
      k' \<noteq> k \<Longrightarrow> pview s' k' = pview s k'"
begin

lemma load_view: "pinv (persister ds) \<Longrightarrow> dsLoad P ds key = Inr (items, found) \<Longrightarrow>
    items = rev (pview (persister ds) key) \<and> found = (pview (persister ds) key \<noteq> [])"
  by (auto simp: dsLoad_def reversed_def dest: get_view split: sum.splits)

text \<open>A version built on the union of what the key holds replaces all of it.\<close>

lemma put_union:
  assumes s: "pinv s" "fits k i" "pPut P s k i = (s', None)"
    and i: "VectorClock i = BuildFromContext (UnionVectorClock (rev (pview s k))) node"
    and max: "vcAt (UnionVectorClock (rev (pview s k))) node \<noteq> - 1"
  shows "pview s' k = [i]"
proof (rule put_dominates [OF s])
  fix x assume "x \<in> set (pview s k)"
  then have "clk x \<le> vcAt (UnionVectorClock (rev (pview s k)))" by (intro union_upper) simp
  then show "clk x < clk i" using build_greater [OF max] i by simp
qed

end

section \<open>The engine meets the contract\<close>

definition worldFits :: "string \<Rightarrow> DataItem \<Rightarrow> bool" where
  "worldFits k i = sstFits (k, i)"

lemma engWrite_cases:
  assumes "engWrite B F e entry io = (e', job, err)"
  obtains (refused) x where "e' = e" "job = None" "err = Some x"
  | (commit) errs where "commit B F e [newReq entry] io = (e', job, errs)" "err = hd errs"
proof (cases "haltErr e")
  case None
  then show thesis using assms refused commit
    by (cases "writesClosed e") (auto simp: engWrite_def split: prod.splits)
next
  case (Some x)
  with assms have "e' = e" "job = None" "err = Some x" by (simp_all add: engWrite_def)
  then show thesis by (rule refused)
qed

lemma filter_split: "filter P a = p @ x # q \<Longrightarrow> \<exists>a1 a2. a = a1 @ x # a2 \<and> filter P a1 = p \<and> filter P a2 = q"
proof (induction a arbitrary: p)
  case (Cons y a)
  show ?case
  proof (cases "P y \<and> p = []")
    case True
    then show ?thesis using Cons.prems by (intro exI [of _ "[]"] exI [of _ a]) simp
  next
    case False
    let ?p = "if P y then tl p else p"
    have "filter P a = ?p @ x # q" using Cons.prems False by (cases p) (auto split: if_splits)
    then obtain a1 a2 where "a = a1 @ x # a2" "filter P a1 = ?p" "filter P a2 = q" using Cons.IH by blast
    moreover have "P y \<Longrightarrow> p = y # tl p" using Cons.prems False by (cases p) auto
    ultimately show ?thesis by (intro exI [of _ "y # a1"] exI [of _ a2]) (auto split: if_splits)
  qed
qed simp

text \<open>What survives a merge: nothing before it covers it, and nothing after it supersedes it.\<close>

lemma Merge_Nil_mem:
  "x \<in> set (MergeSiblings [] xs) \<longleftrightarrow>
    (\<exists>p q. xs = p @ x # q \<and> \<not> covers p (clk x) \<and> (\<forall>y \<in> set q. \<not> clk x < clk y))"
proof (induction xs rule: rev_induct)
  case (snoc i xs)
  have cov: "covers (MergeSiblings [] xs) (clk i) \<longleftrightarrow> covers xs (clk i)" by (simp add: covers_Merge)
  have "x \<in> set (MergeSiblings [] (xs @ [i])) \<longleftrightarrow>
      x \<in> set (MergeSiblings [] xs) \<and> \<not> clk x < clk i \<or> x = i \<and> \<not> covers xs (clk i)"
    by (auto simp: MergeSiblings_append set_Resolve cov)
  also have "\<dots> \<longleftrightarrow> (\<exists>p q. xs @ [i] = p @ x # q \<and> \<not> covers p (clk x) \<and> (\<forall>y \<in> set q. \<not> clk x < clk y))"
    unfolding snoc.IH
  proof
    assume "(\<exists>p q. xs = p @ x # q \<and> \<not> covers p (clk x) \<and> (\<forall>y \<in> set q. \<not> clk x < clk y)) \<and> \<not> clk x < clk i \<or>
      x = i \<and> \<not> covers xs (clk i)"
    then show "\<exists>p q. xs @ [i] = p @ x # q \<and> \<not> covers p (clk x) \<and> (\<forall>y \<in> set q. \<not> clk x < clk y)"
    proof
      assume "(\<exists>p q. xs = p @ x # q \<and> \<not> covers p (clk x) \<and> (\<forall>y \<in> set q. \<not> clk x < clk y)) \<and> \<not> clk x < clk i"
      then obtain p q where "xs = p @ x # q" "\<not> covers p (clk x)" "\<forall>y \<in> set q. \<not> clk x < clk y" "\<not> clk x < clk i" by blast
      then show ?thesis by (intro exI [of _ p] exI [of _ "q @ [i]"]) auto
    next
      assume "x = i \<and> \<not> covers xs (clk i)"
      then show ?thesis by (intro exI [of _ xs] exI [of _ "[]"]) simp
    qed
  next
    assume "\<exists>p q. xs @ [i] = p @ x # q \<and> \<not> covers p (clk x) \<and> (\<forall>y \<in> set q. \<not> clk x < clk y)"
    then obtain p q where pq: "xs @ [i] = p @ x # q" "\<not> covers p (clk x)" "\<forall>y \<in> set q. \<not> clk x < clk y" by blast
    show "(\<exists>p q. xs = p @ x # q \<and> \<not> covers p (clk x) \<and> (\<forall>y \<in> set q. \<not> clk x < clk y)) \<and> \<not> clk x < clk i \<or>
      x = i \<and> \<not> covers xs (clk i)"
    proof (cases q rule: rev_cases)
      case Nil
      then show ?thesis using pq by simp
    next
      case (snoc q' y)
      then have "xs = p @ x # q'" "y = i" using pq(1) by (simp_all flip: append_Cons append_assoc)
      then show ?thesis using pq snoc by auto
    qed
  qed
  finally show ?case .
qed simp

text \<open>Putting a version in front of a layer adds at most that version to what a read returns.\<close>

lemma Merge_put_subset:
  assumes "\<not> covers a (clk i)"
  shows "set (MergeSiblings [] ((i # filter (\<lambda>x. \<not> clk x < clk i) a) @ r)) \<subseteq> insert i (set (MergeSiblings [] (a @ r)))"
proof
  let ?f = "filter (\<lambda>x. \<not> clk x < clk i)"
  fix x assume "x \<in> set (MergeSiblings [] ((i # ?f a) @ r))"
  then obtain p q where pq: "(i # ?f a) @ r = p @ x # q" "\<not> covers p (clk x)" "\<forall>y \<in> set q. \<not> clk x < clk y"
    unfolding Merge_Nil_mem by blast
  show "x \<in> insert i (set (MergeSiblings [] (a @ r)))"
  proof (cases p)
    case Nil
    then show ?thesis using pq(1) by simp
  next
    case (Cons j p')
    then have p': "j = i" "?f a @ r = p' @ x # q" using pq(1) by auto
    have nx: "\<not> clk x \<le> clk i" "\<not> covers p' (clk x)" using pq(2) Cons p'(1) by simp_all
    have keep: "covers (?f zs) (clk x)" if "covers zs (clk x)" for zs
    proof -
      from that obtain y where y: "y \<in> set zs" "clk x \<le> clk y" by (auto simp: covers_def)
      then have "\<not> clk y < clk i" using nx(1) by (meson less_imp_le order_trans)
      then show ?thesis using y by (auto simp: covers_def)
    qed
    have "\<exists>p2 q2. a @ r = p2 @ x # q2 \<and> \<not> covers p2 (clk x) \<and> (\<forall>y \<in> set q2. \<not> clk x < clk y)"
    proof (cases "length p' < length (?f a)")
      case True
      then have "p' @ [x] = take (Suc (length p')) (?f a)" 
        using arg_cong [OF p'(2), of "take (Suc (length p'))"] by simp
      then obtain q1 where q1: "?f a = p' @ x # q1" by (metis append_Cons append_Nil append_assoc append_take_drop_id)
      then obtain a1 a2 where a: "a = a1 @ x # a2" "?f a1 = p'" "?f a2 = q1"
        by (metis filter_split)
      have q: "q = q1 @ r" using p'(2) q1 by simp
      have "\<not> covers a1 (clk x)" using keep [of a1] nx(2) a(2) by auto
      moreover have "\<not> clk x < clk y" if "y \<in> set (a2 @ r)" for y
      proof
        assume lt: "clk x < clk y"
        have "y \<in> set r \<or> y \<in> set (?f a2)"
        proof (cases "y \<in> set r")
          case False
          then have "y \<in> set a2" using that by simp
          moreover have "\<not> clk y < clk i" using lt nx(1) by (meson less_imp_le order.strict_trans)
          ultimately show ?thesis by simp
        qed simp
        then have "y \<in> set q" using q a(3) by auto
        then show False using lt pq(3) by blast
      qed
      ultimately show ?thesis using a(1) by (intro exI [of _ a1] exI [of _ "a2 @ r"]) simp
    next
      case False
      have "take (length (?f a)) (p' @ x # q) = ?f a" by (simp flip: p'(2))
      then obtain p2 where p2: "p' = ?f a @ p2" using False by (metis append_eq_append_conv_if append_take_drop_id not_less p'(2))
      then have r: "r = p2 @ x # q" using p'(2) by simp
      have "\<not> covers (a @ p2) (clk x)" using keep [of a] nx(2) p2 by auto
      then show ?thesis using r pq(3) by (intro exI [of _ "a @ p2"] exI [of _ q]) simp
    qed
    then have "x \<in> set (MergeSiblings [] (a @ r))" using Merge_Nil_mem [of x "a @ r"] by blast
    then show ?thesis by simp
  qed
qed

context engine_libs
begin

text \<open>A write of one entry: refused or failed with nothing changed, or applied to the active memtable.\<close>

lemma engWrite_ok:
  assumes ok: "worldOk B binv F w" and fits: "list_all sstFits (entryVersions entry)"
    and wr: "engWrite B F (eng w) entry io = (e', job, err)"
  defines "w' \<equiv> afterWrite w (e', job, err)"
  shows "worldOk B binv F w' \<and>
    (err \<noteq> None \<and> view B w' = view B w \<or>
     (\<exists>m. m = (case entry of OpPut k i \<Rightarrow> fst (mtPut B (active (eng w)) k i)
                | OpRestore k items \<Rightarrow> mtReplace B (active (eng w)) k items) \<and>
          (\<forall>k. view B w' k = view B (w\<lparr>eng := (eng w)\<lparr>active := m\<rparr>\<rparr>) k) \<and>
          (\<forall>k i. entry = OpPut k i \<longrightarrow> err = None)))"
  using wr
proof (cases rule: engWrite_cases)
  case (refused x)
  then show ?thesis using ok by (simp add: w'_def afterWrite_def)
next
  case (commit errs)
  have f: "\<forall>req \<in> set [newReq entry]. list_all sstFits (entryVersions (reqEntry req))"
    using fits by (simp add: newReq_def)
  have w': "w\<lparr>eng := e', flushJob := (case job of None \<Rightarrow> flushJob w | Some (m, seq) \<Rightarrow> Some (m, seq, None))\<rparr> = w'"
    by (simp add: w'_def afterWrite_def)
  note c = Commit_ok [OF ok f commit(1), unfolded w']
  have "err \<noteq> None" if "errs = map (\<lambda>_. Some x) [newReq entry]" for x using commit(2) that by simp
  moreover have "(\<exists>m. m = (case entry of OpPut k i \<Rightarrow> fst (mtPut B (active (eng w)) k i)
                | OpRestore k items \<Rightarrow> mtReplace B (active (eng w)) k items) \<and>
          (\<forall>k. view B w' k = view B (w\<lparr>eng := (eng w)\<lparr>active := m\<rparr>\<rparr>) k) \<and>
          (\<forall>k i. entry = OpPut k i \<longrightarrow> err = None))"
    if a: "applyLoop B F e1 False [newReq entry] = (e2, crossed, errs)" "active e1 = active (eng w)"
      "\<forall>k. view B w' k = view B (w\<lparr>eng := (eng w)\<lparr>active := active e2\<rparr>\<rparr>) k" for e1 e2 crossed
  proof -
    have "active e2 = (case entry of OpPut k i \<Rightarrow> fst (mtPut B (active (eng w)) k i)
        | OpRestore k items \<Rightarrow> mtReplace B (active (eng w)) k items)" "\<forall>k i. entry = OpPut k i \<longrightarrow> err = None"
      using a(1,2) commit(2)
      by (auto simp: newReq_def replaceAndVerify_def Let_def split: walEntry.splits prod.splits)
    then show ?thesis using a(3) by blast
  qed
  ultimately show ?thesis using c by blast
qed

lemma layers_active:
  "layers B ((eng w)\<lparr>active := m\<rparr>) k = mtCurrent B m k @ drop (length (mtCurrent B (active (eng w)) k)) (layers B (eng w) k)"
  by (simp add: layers_def)

lemma layers_split: "layers B (eng w) k = mtCurrent B (active (eng w)) k @ drop (length (mtCurrent B (active (eng w)) k)) (layers B (eng w) k)"
  by (simp add: layers_def)

lemma Merge_dominated: "(\<And>x. x \<in> set xs \<Longrightarrow> clk x < clk i) \<Longrightarrow> MergeSiblings [i] xs = [i]"
  by (induction xs) (simp_all add: Resolve_eq less_imp_le covers_def leD order.asym)

lemma view_Put_subset:
  assumes b: "binv (tree (active (eng w)))"
  shows "set (view B (w\<lparr>eng := (eng w)\<lparr>active := fst (mtPut B (active (eng w)) k i)\<rparr>\<rparr>) k) \<subseteq> insert i (set (view B w k))"
proof -
  let ?a = "mtCurrent B (active (eng w)) k" and ?r = "drop (length (mtCurrent B (active (eng w)) k)) (layers B (eng w) k)"
  have l: "layers B (eng w) k = ?a @ ?r" by (rule layers_split)
  show ?thesis
  proof (cases "covers ?a (clk i)")
    case False
    have "layers B ((eng w)\<lparr>active := fst (mtPut B (active (eng w)) k i)\<rparr>) k = (i # filter (\<lambda>x. \<not> clk x < clk i) ?a) @ ?r"
      by (simp add: layers_active bt.current_Put [OF b] False)
    then show ?thesis using Merge_put_subset [OF False, of ?r] l by (simp add: view_def)
  next
    case True
    then have "layers B ((eng w)\<lparr>active := fst (mtPut B (active (eng w)) k i)\<rparr>) k = Resolve ?a i @ ?r"
      by (simp add: layers_active bt.current_Put [OF b] Resolve_eq)
    moreover have "MergeSiblings [] (Resolve ?a i @ ?r) = MergeSiblings [] (?a @ ?r)"
    proof -
      let ?m = "MergeSiblings [] ?a"
      have anti: "antichain ?m" by (rule antichain_Merge) simp
      from True obtain y where y: "y \<in> set ?m" "clk i \<le> clk y"
        using covers_Merge [of "[]" ?a "clk i"] by (auto simp: covers_def)
      have "\<not> clk x < clk i" if "x \<in> set ?m" for x
      proof
        assume "clk x < clk i"
        then have "clk x < clk y" using y(2) by (rule order_less_le_trans)
        moreover have "x = y" using antichain_mem_eq [OF anti that y(1)] calculation by (simp add: less_imp_le)
        ultimately show False by simp
      qed
      moreover have "covers ?m (clk i)" using y by (auto simp: covers_def)
      ultimately have "Resolve ?m i = ?m" by (simp add: Resolve_eq)
      then show ?thesis by (simp add: MergeSiblings_append Merge_Resolve_assoc)
    qed
    ultimately show ?thesis using l by (auto simp: view_def)
  qed
qed

lemma view_Put:
  fixes w :: "('t, 'f) world"
  defines "w' \<equiv> \<lambda>k i. w\<lparr>eng := (eng w)\<lparr>active := fst (mtPut B (active (eng w)) k i)\<rparr>\<rparr>"
  assumes b: "binv (tree (active (eng w)))"
  shows "covers (view B (w' k i) k) c \<longleftrightarrow> covers (view B w k) c \<or> c \<le> clk i"
    "k' \<noteq> k \<Longrightarrow> view B (w' k i) k' = view B w k'"
    "(\<And>x. x \<in> set (view B w k) \<Longrightarrow> clk x < clk i) \<Longrightarrow> view B (w' k i) k = [i]"
proof -
  show "covers (view B (w' k i) k) c \<longleftrightarrow> covers (view B w k) c \<or> c \<le> clk i"
    using covers_Put [OF b, of k i k c] by (auto simp: covers_view w'_def layers_def)
  show "k' \<noteq> k \<Longrightarrow> view B (w' k i) k' = view B w k'"
    by (simp add: view_def w'_def layers_def bt.current_Put [OF b])
  assume dom: "\<And>x. x \<in> set (view B w k) \<Longrightarrow> clk x < clk i"
  have lay: "clk x < clk i" if "x \<in> set (layers B (eng w) k)" for x
  proof -
    have "covers (view B w k) (clk x)" using that by (simp add: covers_view covers_mem)
    then show ?thesis using dom by (auto simp: covers_def intro: order_le_less_trans)
  qed
  let ?a = "mtCurrent B (active (eng w)) k" and ?r = "drop (length (mtCurrent B (active (eng w)) k)) (layers B (eng w) k)"
  have a: "\<And>x. x \<in> set ?a \<Longrightarrow> clk x < clk i" and r: "\<And>x. x \<in> set ?r \<Longrightarrow> clk x < clk i"
    using lay layers_split [of w k] by (auto simp: layers_def)
  have "\<not> covers ?a (clk i)" using a by (force simp: covers_def)
  then have "mtCurrent B (fst (mtPut B (active (eng w)) k i)) k = [i]"
    using a by (simp add: bt.current_Put [OF b])
  then show "view B (w' k i) k = [i]"
    unfolding view_def w'_def by (simp add: layers_active) (simp add: MergeSiblings_append Resolve_eq Merge_dominated [OF r])
qed

lemma view_Replace_other:
  "binv (tree (active (eng w))) \<Longrightarrow> k' \<noteq> k \<Longrightarrow>
    view B (w\<lparr>eng := (eng w)\<lparr>active := mtReplace B (active (eng w)) k items\<rparr>\<rparr>) k' = view B w k'"
  by (simp add: view_def layers_def bt.current_Replace)

lemma Put_state:
  assumes "worldOk B binv F w" "worldFits k i" "pPut (enginePersister B F) (w, ios) k i = ((w', ios'), err)"
  shows "worldOk B binv F w'"
    "k' \<noteq> k \<Longrightarrow> view B w' k' = view B w k'"
    "err \<noteq> None \<Longrightarrow> view B w' = view B w"
    "err = None \<Longrightarrow> view B w' k' = view B (w\<lparr>eng := (eng w)\<lparr>active := fst (mtPut B (active (eng w)) k i)\<rparr>\<rparr>) k'"
proof -
  have b: "binv (tree (active (eng w)))" using assms(1) by (simp add: worldOk_def memOk_def)
  obtain e' job r where wr: "engWrite B F (eng w) (OpPut k i) (ios 0) = (e', job, r)" by (metis prod_cases3)
  have e: "w' = afterWrite w (e', job, r)" "err = map_option WriteFailedWith r"
    using assms(3) wr by (auto simp: enginePersister_def engPut_def Let_def)
  have "list_all sstFits (entryVersions (OpPut k i))" using assms(2) by (simp add: worldFits_def)
  from engWrite_ok [OF assms(1) this wr] view_Put(2) [OF b, of k' k i]
  show "worldOk B binv F w'" "k' \<noteq> k \<Longrightarrow> view B w' k' = view B w k'" "err \<noteq> None \<Longrightarrow> view B w' = view B w"
    "err = None \<Longrightarrow> view B w' k' = view B (w\<lparr>eng := (eng w)\<lparr>active := fst (mtPut B (active (eng w)) k i)\<rparr>\<rparr>) k'"
    unfolding e by auto
qed

lemma Restore_state:
  assumes "worldOk B binv F w" "\<And>i. i \<in> set items \<Longrightarrow> worldFits k i"
    "pRestore (enginePersister B F) (w, ios) k items = ((w', ios'), err)"
  shows "worldOk B binv F w'" "k' \<noteq> k \<Longrightarrow> view B w' k' = view B w k'" "err = None \<Longrightarrow> view B w' k = items"
proof -
  have b: "binv (tree (active (eng w)))" using assms(1) by (simp add: worldOk_def memOk_def)
  obtain e' job r where wr: "engWrite B F (eng w) (OpRestore k items) (ios 0) = (e', job, r)" by (metis prod_cases3)
  have e: "w' = afterWrite w (e', job, r)" "err = map_option WriteFailedWith r"
    using assms(3) wr by (auto simp: enginePersister_def engRestore_def Let_def)
  have fits: "list_all sstFits (entryVersions (OpRestore k items))"
    using assms(2) by (auto simp: worldFits_def list_all_iff)
  note ok = engWrite_ok [OF assms(1) fits wr]
  then show wok: "worldOk B binv F w'" unfolding e by blast
  from ok view_Replace_other [OF b, of k' k items]
  show "k' \<noteq> k \<Longrightarrow> view B w' k' = view B w k'" unfolding e by auto
  assume none: "err = None"
  have ne: "r = None" using none e(2) by simp
  then have "haltCause (eng w) = None" "\<not> writesClosed (eng w)"
    "snd (logWriteBatch (wal (eng w)) [Encode (OpRestore k items)] (cWrite (ios 0)) (cSync (ios 0))) = None"
    using wr by (auto simp: engWrite_def haltErr_def commit_def newReq_def split: option.splits if_splits prod.splits)
  then have "r = (case engGetAll B F e' k of Inl x \<Rightarrow> Some (VerifyFailed x)
     | Inr (visible, _) \<Rightarrow> if visible = items then None else Some ErrRestoreIncomplete)"
    using wr
    by (auto simp: engWrite_def haltErr_def commit_def newReq_def engApply_def Let_def
      replaceAndVerify_def engGetAll_def sameVersions_def split: prod.splits sum.splits)
  moreover have "engGetAll B F e' k = Inr (view B w' k, view B w' k \<noteq> [])"
    using worldOk_GetAll [OF wok, of k] by (simp add: e(1) afterWrite_def)
  ultimately show "view B w' k = items" using ne by (auto split: if_splits)
qed

end

sublocale engine_libs \<subseteq> pers: persistence "enginePersister B F" "\<lambda>(w, _). worldOk B binv F w"
  "\<lambda>(w, _). view B w" worldFits
proof
  fix s s' :: "('t, 'f) world \<times> (nat \<Rightarrow> commitIO)" and k k' :: string and i :: DataItem and items c err e r
  obtain w ios where s: "s = (w, ios)" by fastforce
  obtain w' ios' where s': "s' = (w', ios')" by fastforce
  show "antichain ((case s of (w, _) \<Rightarrow> view B w) k)" unfolding s by (simp add: view_antichain)
  {
    assume ok: "case s of (w, _) \<Rightarrow> worldOk B binv F w" and get: "pGetAll (enginePersister B F) s k = Inr r"
    then show "r = ((case s of (w, _) \<Rightarrow> view B w) k, (case s of (w, _) \<Rightarrow> view B w) k \<noteq> [])"
      using worldOk_GetAll [of B binv F w k] by (auto simp: s enginePersister_def)
  }
  {
    assume ok: "case s of (w, _) \<Rightarrow> worldOk B binv F w" and f: "worldFits k i"
    then have ok': "worldOk B binv F w" by (simp add: s)
    have b: "binv (tree (active (eng w)))" using ok' by (simp add: worldOk_def memOk_def)
    {
      assume p: "pPut (enginePersister B F) s k i = (s', err)"
      note st = Put_state [OF ok' f p [unfolded s s']]
      show "case s' of (w, _) \<Rightarrow> worldOk B binv F w" using st(1) by (simp add: s')
      show "k' \<noteq> k \<Longrightarrow> (case s' of (w, _) \<Rightarrow> view B w) k' = (case s of (w, _) \<Rightarrow> view B w) k'"
        using st(2) by (simp add: s s')
    }
    {
      assume p: "pPut (enginePersister B F) s k i = (s', None)"
      note st = Put_state(4) [OF ok' f p [unfolded s s'] refl]
      show "covers ((case s' of (w, _) \<Rightarrow> view B w) k) c \<longleftrightarrow> covers ((case s of (w, _) \<Rightarrow> view B w) k) c \<or> c \<le> clk i"
        using view_Put(1) [OF b, of k i c] by (simp add: s s' st)
      show "set ((case s' of (w, _) \<Rightarrow> view B w) k) \<subseteq> insert i (set ((case s of (w, _) \<Rightarrow> view B w) k))"
        using view_Put_subset [OF b, of k i] by (simp add: s s' st)
      assume "\<And>x. x \<in> set ((case s of (w, _) \<Rightarrow> view B w) k) \<Longrightarrow> clk x < clk i"
      then show "(case s' of (w, _) \<Rightarrow> view B w) k = [i]"
        using view_Put(3) [OF b, of k i] by (simp add: s s' st)
    }
    assume p: "pPut (enginePersister B F) s k i = (s', Some e)"
    show "(case s' of (w, _) \<Rightarrow> view B w) k = (case s of (w, _) \<Rightarrow> view B w) k"
      using Put_state(3) [OF ok' f p [unfolded s s']] by (simp add: s s')
  }
  assume ok: "case s of (w, _) \<Rightarrow> worldOk B binv F w" and f: "\<And>i. i \<in> set items \<Longrightarrow> worldFits k i"
  then have ok': "worldOk B binv F w" by (simp add: s)
  {
    assume p: "pRestore (enginePersister B F) s k items = (s', err)"
    note st = Restore_state [OF ok' f p [unfolded s s']]
    show "case s' of (w, _) \<Rightarrow> worldOk B binv F w" using st(1) by (simp add: s')
    show "k' \<noteq> k \<Longrightarrow> (case s' of (w, _) \<Rightarrow> view B w) k' = (case s of (w, _) \<Rightarrow> view B w) k'"
      using st(2) by (simp add: s s')
  }
  assume p: "pRestore (enginePersister B F) s k items = (s', None)"
  show "(case s' of (w, _) \<Rightarrow> view B w) k = items"
    using Restore_state(3) [OF ok' f p [unfolded s s'] refl] by (simp add: s')
qed

section \<open>Properties\<close>

definition freshStore :: "(((string \<times> DataItem list) list, bool list) world \<times> (nat \<Rightarrow> commitIO)) DataStore" where
  "freshStore = NewDataStoreWithPersister ''n'' (freshWorld, \<lambda>_. commitFine)"

lemma freshStore_simps [simp]:
  "persister freshStore = (freshWorld, \<lambda>_. commitFine)" "dsClockID freshStore = ''n''" "dsId freshStore = ''n''"
  by (simp_all add: freshStore_def NewDataStoreWithPersister_def NewDataStoreWithPersisterAndClockID_def)

definition nullItem :: DataItem where
  "nullItem = \<lparr>Value = JNull, VectorClock = BuildFromContext fmempty ''n'', LastUpdatedBy = ''n'', IsDeleted = False\<rparr>"

lemma nullItem_clock: "VectorClock nullItem = fmupd ''n'' 1 fmempty"
  by (simp add: nullItem_def BuildFromContext_def Increment_def vcNew_def vcAt_def)

lemma nullItem_fits: "worldFits ''k'' nullItem"
proof -
  have "validUtf8 ''k''" "validUtf8 ''n''" by (simp_all add: validUtf8.simps utf8Len_ascii)
  then have "itemOk nullItem"
    by (simp add: itemOk_def nullItem_clock) (simp add: nullItem_def)
  moreover have "length (jsonText (sstRecordJson (sstToRecord (''k'', nullItem)))) < 2 ^ 32"
    unfolding sstRecordJson_def sstToRecord_def fst_conv snd_conv nullItem_clock Snapshot_id
    by (simp add: nullItem_def marshalRaw_def marshalClock_def sorted_list_of_fset.rep_eq vcAt_def
        quoteString_def quoteBody.simps escapeASCII_def itoa.simps)
  ultimately show ?thesis using \<open>validUtf8 ''k''\<close> by (simp add: worldFits_def sstFits_def)
qed

lemma freshStore_put:
  "\<exists>s. pPut (enginePersister alTree bitFilter) (freshWorld, \<lambda>_. commitFine) ''k'' nullItem = (s, None) \<and>
    dsPut (enginePersister alTree bitFilter) freshStore ''k'' JNull None = (freshStore\<lparr>persister := s\<rparr>, Some nullItem)"
proof -
  let ?P = "enginePersister alTree bitFilter"
  have "engGetAll alTree bitFilter (eng freshWorld) ''k'' = Inr ([], False)"
    using worldOk_GetAll [OF freshWorld_ok, of "''k''"] by (simp add: freshWorld_view)
  then have load: "dsLoad ?P freshStore ''k'' = Inr ([], False)"
    by (simp add: dsLoad_def enginePersister_def reversed_def)
  have "\<exists>s. pPut ?P (freshWorld, \<lambda>_. commitFine) ''k'' nullItem = (s, None)"
    by (auto simp: enginePersister_def engPut_def engWrite_def commit_def haltErr_def logWriteBatch_def WriteBatch_def
        writeAndSync_def fileWrite_def fileSync_def commitFine_def engApply_def newReq_def Let_def
        split: prod.splits if_splits)
  then obtain s where s: "pPut ?P (freshWorld, \<lambda>_. commitFine) ''k'' nullItem = (s, None)" by blast
  then have "dsPut ?P freshStore ''k'' JNull None = (freshStore\<lparr>persister := s\<rparr>, Some nullItem)"
    by (simp add: dsPut_def load flip: nullItem_def)
  with s show ?thesis by blast
qed

text \<open>
  C37: A write without a context supersedes everything its node holds for the key: once it is
  acknowledged, reading the key gives the new version alone, with the value written, and no other
  key has changed. The writer's counter must not be at its maximum, where the increment wraps to 0.
\<close>

theorem store_put_supersedes:
  assumes "persistence P pinv pview fits" "pinv (persister ds)"
    and "dsPut P ds key value None = (ds', Some item)" "fits key item"
    and "vcAt (UnionVectorClock (rev (pview (persister ds) key))) (dsClockID ds) \<noteq> - 1"
    and "dsGet P ds' k = Inr (items, found)"
  shows "if k = key then items = [item] \<and> Value item = value \<and> \<not> IsDeleted item
    else items = rev (pview (persister ds) k)"
proof -
  from assms(3) obtain existing fnd where load: "dsLoad P ds key = Inr (existing, fnd)"
    by (auto simp: dsPut_def split: sum.splits)
  note lv = persistence.load_view [OF assms(1,2) load]
  from assms(3) load lv obtain s' where put: "pPut P (persister ds) key item = (s', None)"
    and ds': "ds' = ds\<lparr>persister := s'\<rparr>"
    and item: "VectorClock item = BuildFromContext (UnionVectorClock (rev (pview (persister ds) key))) (dsClockID ds)"
      "Value item = value" "\<not> IsDeleted item"
    by (auto simp: dsPut_def Let_def UnionVectorClock_def split: prod.splits if_splits)
  have "pinv s'" by (rule persistence.put_inv [OF assms(1,2,4) put])
  then have "items = rev (pview s' k)"
    using persistence.load_view [OF assms(1), of ds' k] assms(6) by (simp add: dsGet_def ds')
  then show ?thesis
    using persistence.put_union [OF assms(1,2,4) put item(1) assms(5)] item(2,3)
      persistence.put_other [OF assms(1,2,4) put, of k] by auto
qed

theorem store_put_supersedes_witness:
  "\<exists>ds items. dsPut (enginePersister alTree bitFilter) freshStore ''k'' JNull None = (ds, Some nullItem) \<and>
     dsGet (enginePersister alTree bitFilter) ds ''k'' = Inr (items, True) \<and> items = [nullItem]"
proof -
  let ?P = "enginePersister alTree bitFilter"
  obtain s where s: "pPut ?P (freshWorld, \<lambda>_. commitFine) ''k'' nullItem = (s, None)"
    and p: "dsPut ?P freshStore ''k'' JNull None = (freshStore\<lparr>persister := s\<rparr>, Some nullItem)"
    using freshStore_put by blast
  from s have "worldOk alTree alInv bitFilter (fst s)"
    using alBits.pers.put_inv [of "(freshWorld, \<lambda>_. commitFine)" "''k''" nullItem s None] freshWorld_ok nullItem_fits
    by (simp add: split_def)
  then obtain items found where g: "dsGet ?P (freshStore\<lparr>persister := s\<rparr>) ''k'' = Inr (items, found)" "found = (items \<noteq> [])"
    using worldOk_GetAll [of alTree alInv bitFilter "fst s" "''k''"]
    by (simp add: dsGet_def dsLoad_def enginePersister_def reversed_def split_def)
  have "vcAt (UnionVectorClock (rev ((\<lambda>(w, _). view alTree w) (persister freshStore) ''k''))) (dsClockID freshStore) \<noteq> - 1"
    by (simp add: freshWorld_view UnionVectorClock_def vcAt_def)
  from store_put_supersedes [OF alBits.pers.persistence_axioms _ p nullItem_fits this g(1)]
  show ?thesis using freshWorld_ok p g by auto
qed

end
