(* ===== verification/Hints.thy ===== *)
theory Hints
  imports Store
begin

text \<open>
  The hint store (src/internal/hints): hinted writes kept until they can be delivered, on a storage
  engine of its own. A delivered hint is retired by a marker version whose clock is above it. The
  engine is used through the contract \<open>persistence\<close>; the lemmas show that a marker retires exactly
  the hints it covers.
\<close>

section \<open>Definitions\<close>

definition sep :: char where
  "sep = CHR 0x00"

definition deliveredEntry :: string where
  "deliveredEntry = sep # ''delivered''"

record Hint =
  hintKey :: string
  hintItems :: "DataItem list"

record 'p HintStore =
  hsEngine :: 'p
  created :: u64
  delivered :: u64

record HintStats =
  hstCreated :: u64
  hstDelivered :: u64

definition hintStats :: "'p HintStore \<Rightarrow> HintStats" where
  "hintStats s = \<lparr>hstCreated = created s, hstDelivered = delivered s\<rparr>"

datatype 'e hintError = InvalidTarget string | ReservedEntry string string | EngineError 'e

definition storageKey :: "string \<Rightarrow> string \<Rightarrow> string" where
  "storageKey target key = target @ [sep] @ key"

definition splitKey :: "string \<Rightarrow> string \<times> string \<times> bool" where
  "splitKey stored =
     (if sep \<in> set stored
      then (takeWhile (\<lambda>c. c \<noteq> sep) stored, tl (dropWhile (\<lambda>c. c \<noteq> sep) stored), True)
      else (stored, [], False))"

definition isMarker :: "DataItem \<Rightarrow> bool" where
  "isMarker item \<longleftrightarrow> fmlookup (Snapshot (VectorClock item)) deliveredEntry \<noteq> None"

definition hintAdd ::
  "('p, 'e) persister_ops \<Rightarrow> 'p HintStore \<Rightarrow> string \<Rightarrow> string \<Rightarrow> DataItem \<Rightarrow> 'p HintStore \<times> 'e hintError option" where
  "hintAdd P s target key item =
     (if target = [] \<or> sep \<in> set target then (s, Some (InvalidTarget target))
      else if isMarker item then (s, Some (ReservedEntry target key))
      else
        (case pPut P (hsEngine s) (storageKey target key) item of
           (p, Some err) \<Rightarrow> (s\<lparr>hsEngine := p\<rparr>, Some (EngineError err))
         | (p, None) \<Rightarrow> (s\<lparr>hsEngine := p, created := created s + 1\<rparr>, None)))"

fun targetsLoop :: "string list \<Rightarrow> string list \<Rightarrow> string list" where
  "targetsLoop targets [] = targets"
| "targetsLoop targets (k # ks) =
     (case splitKey k of
        (target, _, ok) \<Rightarrow>
          targetsLoop (if ok \<and> target \<notin> set targets then targets @ [target] else targets) ks)"

definition Targets :: "('p, 'e) persister_ops \<Rightarrow> 'p HintStore \<Rightarrow> 'e hintError + string list" where
  "Targets P s =
     (case pKeys P (hsEngine s) of
        Inl err \<Rightarrow> Inl (EngineError err)
      | Inr keys \<Rightarrow> Inr (sort (targetsLoop [] keys)))"

fun pendingLoop ::
  "('p, 'e) persister_ops \<Rightarrow> 'p HintStore \<Rightarrow> string \<Rightarrow> string list \<Rightarrow> Hint list \<Rightarrow> 'e hintError + Hint list" where
  "pendingLoop P s target [] pending = Inr pending"
| "pendingLoop P s target (k # ks) pending =
     (case splitKey k of
        (t, key, ok) \<Rightarrow>
          if \<not> ok \<or> t \<noteq> target then pendingLoop P s target ks pending
          else
            (case pGetAll P (hsEngine s) k of
               Inl err \<Rightarrow> Inl (EngineError err)
             | Inr (items, _) \<Rightarrow>
                 let live = filter (\<lambda>item. \<not> isMarker item) items
                 in pendingLoop P s target ks
                      (if length live > 0 then pending @ [\<lparr>hintKey = key, hintItems = live\<rparr>] else pending)))"

definition Pending :: "('p, 'e) persister_ops \<Rightarrow> 'p HintStore \<Rightarrow> string \<Rightarrow> 'e hintError + Hint list" where
  "Pending P s target =
     (case pKeys P (hsEngine s) of
        Inl err \<Rightarrow> Inl (EngineError err)
      | Inr keys \<Rightarrow> pendingLoop P s target keys [])"

fun countLoop ::
  "('p, 'e) persister_ops \<Rightarrow> 'p HintStore \<Rightarrow> string list \<Rightarrow> nat \<Rightarrow> 'e hintError + nat" where
  "countLoop P s [] n = Inr n"
| "countLoop P s (k # ks) n =
     (case splitKey k of
        (_, _, ok) \<Rightarrow>
          if \<not> ok then countLoop P s ks n
          else
            (case pGetAll P (hsEngine s) k of
               Inl err \<Rightarrow> Inl (EngineError err)
             | Inr (items, _) \<Rightarrow> countLoop P s ks (n + length (filter (\<lambda>item. \<not> isMarker item) items))))"

definition PendingItems :: "('p, 'e) persister_ops \<Rightarrow> 'p HintStore \<Rightarrow> 'e hintError + nat" where
  "PendingItems P s =
     (case pKeys P (hsEngine s) of
        Inl err \<Rightarrow> Inl (EngineError err)
      | Inr keys \<Rightarrow> countLoop P s keys 0)"

definition deliveryMarker :: "DataItem list \<Rightarrow> DataItem" where
  "deliveryMarker items =
     \<lparr>Value = JNull, VectorClock = FromSnapshot (fmupd deliveredEntry 1 (UnionVectorClock items)),
      LastUpdatedBy = deliveredEntry, IsDeleted = True\<rparr>"

definition MarkDelivered ::
  "('p, 'e) persister_ops \<Rightarrow> 'p HintStore \<Rightarrow> string \<Rightarrow> string \<Rightarrow> DataItem list \<Rightarrow> 'p HintStore \<times> 'e hintError option" where
  "MarkDelivered P s target key items =
     (if items = [] then (s, None)
      else
        (case pPut P (hsEngine s) (storageKey target key) (deliveryMarker items) of
           (p, Some err) \<Rightarrow> (s\<lparr>hsEngine := p\<rparr>, Some (EngineError err))
         | (p, None) \<Rightarrow> (s\<lparr>hsEngine := p, delivered := delivered s + word_of_nat (length items)\<rparr>, None)))"

section \<open>Keys\<close>

lemma splitKey_storageKey: "sep \<notin> set t \<Longrightarrow> splitKey (storageKey t k) = (t, k, True)"
proof -
  assume a: "sep \<notin> set t"
  then have "takeWhile (\<lambda>c. c \<noteq> sep) (t @ sep # k) = t" "dropWhile (\<lambda>c. c \<noteq> sep) (t @ sep # k) = sep # k"
    by (subst takeWhile_append2 dropWhile_append2; force)+
  then show ?thesis by (simp add: splitKey_def storageKey_def)
qed

lemma storageKey_splitKey: "splitKey s = (t, k, True) \<Longrightarrow> s = storageKey t k \<and> sep \<notin> set t"
proof -
  assume a: "splitKey s = (t, k, True)"
  then have s: "sep \<in> set s" "t = takeWhile (\<lambda>c. c \<noteq> sep) s" "k = tl (dropWhile (\<lambda>c. c \<noteq> sep) s)"
    by (auto simp: splitKey_def split: if_splits)
  then have "dropWhile (\<lambda>c. c \<noteq> sep) s \<noteq> []" by auto
  then have "dropWhile (\<lambda>c. c \<noteq> sep) s = sep # k" using hd_dropWhile [of "\<lambda>c. c \<noteq> sep" s] s(3) by (metis list.collapse)
  moreover have "s = t @ dropWhile (\<lambda>c. c \<noteq> sep) s" using s(2) by simp
  ultimately show ?thesis using s(2) by (auto simp: storageKey_def dest: set_takeWhileD)
qed

section \<open>Markers\<close>

lemma marker_clock: "clk (deliveryMarker items) = (vcAt (UnionVectorClock items))(deliveredEntry := 1)"
  by (auto simp: deliveryMarker_def vcAt_def fun_eq_iff)

lemma isMarker_delivery: "isMarker (deliveryMarker items)"
  by (simp add: isMarker_def deliveryMarker_def)

lemma not_marker_clock: "\<not> isMarker x \<Longrightarrow> clk x deliveredEntry = 0"
  by (simp add: isMarker_def vcAt_def)

lemma below_marker: "\<not> isMarker x \<Longrightarrow> clk x \<le> clk (deliveryMarker items) \<longleftrightarrow> clk x \<le> vcAt (UnionVectorClock items)"
  by (auto simp: marker_clock le_fun_def not_marker_clock) (metis not_marker_clock word_zero_le)

lemma not_above_marker: "\<not> isMarker x \<Longrightarrow> \<not> clk (deliveryMarker items) \<le> clk x"
proof
  assume "\<not> isMarker x" "clk (deliveryMarker items) \<le> clk x"
  then have "clk (deliveryMarker items) deliveredEntry \<le> 0" using le_funD not_marker_clock by metis
  then show False by (simp add: marker_clock)
qed

text \<open>The hints a key holds: its versions that are not markers.\<close>

abbreviation hintsOf :: "DataItem list \<Rightarrow> DataItem set" where
  "hintsOf items \<equiv> {x \<in> set items. \<not> isMarker x}"

context persistence
begin

lemma mark_retires:
  assumes s: "pinv s" "fits k (deliveryMarker items)" "pPut P s k (deliveryMarker items) = (s', None)"
  shows "hintsOf (pview s' k) = {x \<in> hintsOf (pview s k). \<not> clk x \<le> vcAt (UnionVectorClock items)}"
proof (intro equalityI subsetI)
  let ?m = "deliveryMarker items"
  fix x assume x: "x \<in> hintsOf (pview s' k)"
  then have "x \<noteq> ?m" using isMarker_delivery by auto
  then have old: "x \<in> set (pview s k)" using put_subset [OF s] x by blast
  have "covers (pview s' k) (clk ?m)" using put_covers [OF s] by blast
  then obtain z where z: "z \<in> set (pview s' k)" "clk ?m \<le> clk z" by (auto simp: covers_def)
  have "\<not> clk x \<le> clk ?m"
  proof
    assume "clk x \<le> clk ?m"
    then have "clk x \<le> clk z" using z(2) by (rule order_trans)
    then have "x = z" using antichain_mem_eq [OF view_antichain _ z(1)] x by blast
    then show False using z(2) not_above_marker x by blast
  qed
  then show "x \<in> {x \<in> hintsOf (pview s k). \<not> clk x \<le> vcAt (UnionVectorClock items)}"
    using old x below_marker by blast
next
  let ?m = "deliveryMarker items"
  fix x assume x: "x \<in> {x \<in> hintsOf (pview s k). \<not> clk x \<le> vcAt (UnionVectorClock items)}"
  then have nm: "\<not> clk x \<le> clk ?m" using below_marker by blast
  have "covers (pview s' k) (clk x)" using put_covers [OF s] x covers_mem by blast
  then obtain y where y: "y \<in> set (pview s' k)" "clk x \<le> clk y" by (auto simp: covers_def)
  then have "y \<noteq> ?m" using nm by blast
  then have "y \<in> set (pview s k)" using put_subset [OF s] y by blast
  then have "x = y" using antichain_mem_eq [OF view_antichain _ _ y(2)] x by blast
  then show "x \<in> hintsOf (pview s' k)" using x y by blast
qed

end

lemma pendingLoop_spec:
  assumes "persistence P pinv pview fits" "pinv (hsEngine s)" "pendingLoop P s target ks acc = Inr pending"
    "sep \<notin> set target" "distinct ks"
  shows "pending = acc @ concat (map (\<lambda>k. case splitKey k of (t, key, ok) \<Rightarrow>
      if ok \<and> t = target \<and> filter (\<lambda>x. \<not> isMarker x) (pview (hsEngine s) k) \<noteq> []
      then [\<lparr>hintKey = key, hintItems = filter (\<lambda>x. \<not> isMarker x) (pview (hsEngine s) k)\<rparr>] else []) ks)"
  using assms(3,5)
proof (induction ks arbitrary: acc)
  case (Cons k ks)
  obtain t key ok where k: "splitKey k = (t, key, ok)" by (metis prod_cases3)
  show ?case
  proof (cases "ok \<and> t = target")
    case False
    then show ?thesis using Cons k by auto
  next
    case True
    then obtain items f where g: "pGetAll P (hsEngine s) k = Inr (items, f)"
      using Cons.prems(1) k by (auto split: sum.splits)
    have "items = pview (hsEngine s) k" using persistence.get_view [OF assms(1,2) g] by simp
    then have "pendingLoop P s target ks (if filter (\<lambda>x. \<not> isMarker x) (pview (hsEngine s) k) \<noteq> []
        then acc @ [\<lparr>hintKey = key, hintItems = filter (\<lambda>x. \<not> isMarker x) (pview (hsEngine s) k)\<rparr>] else acc) = Inr pending"
      using Cons.prems k g True by (simp add: Let_def)
    from Cons.IH [OF this] Cons.prems(2) k True show ?thesis by simp
  qed
qed simp

section \<open>Properties\<close>

text \<open>
  A storage key splits back into the target and the key it was made of, whatever the key
  contains, as long as the target has no separator; so the hints of two targets never mix.
\<close>

theorem hint_key_roundtrip:
  assumes "sep \<notin> set target"
  shows "splitKey (storageKey target key) = (target, key, True) \<and>
    (storageKey target key = storageKey target' key' \<and> sep \<notin> set target' \<longrightarrow> target = target' \<and> key = key')"
proof (intro conjI impI)
  show split: "splitKey (storageKey target key) = (target, key, True)" by (rule splitKey_storageKey [OF assms])
  assume "storageKey target key = storageKey target' key' \<and> sep \<notin> set target'"
  then have "splitKey (storageKey target key) = (target', key', True)" using splitKey_storageKey by simp
  then show "target = target'" "key = key'" using split by simp_all
qed

theorem hint_key_roundtrip_witness:
  "splitKey (storageKey ''node-1'' (''a'' @ [CHR 0x00] @ ''b'')) = (''node-1'', ''a'' @ [CHR 0x00] @ ''b'', True)"
  using hint_key_roundtrip [of "''node-1''" "''a'' @ [CHR 0x00] @ ''b''"] by (simp add: sep_def)


definition freshHints :: "(((string \<times> DataItem list) list, bool list) world \<times> (nat \<Rightarrow> commitIO)) HintStore" where
  "freshHints = \<lparr>hsEngine = (freshWorld, \<lambda>_. commitFine), created = 0, delivered = 0\<rparr>"

lemma marker_fits: "worldFits (storageKey ''n'' ''k'') (deliveryMarker [nullItem])"
proof -
  have v: "validUtf8 ''n''" "validUtf8 (storageKey ''n'' ''k'')" "validUtf8 deliveredEntry"
    by (simp_all add: storageKey_def deliveredEntry_def sep_def validUtf8.simps utf8Len_ascii)
  have clock: "VectorClock (deliveryMarker [nullItem]) = fmupd deliveredEntry 1 (fmupd ''n'' 1 fmempty)"
    by (rule fmap_ext) (simp add: deliveryMarker_def UnionVectorClock_def unionStep_def nullItem_clock vcAt_def)
  have fields: "Value (deliveryMarker [nullItem]) = JNull" "LastUpdatedBy (deliveryMarker [nullItem]) = deliveredEntry"
    "IsDeleted (deliveryMarker [nullItem])" by (simp_all add: deliveryMarker_def)
  have ne: "deliveredEntry \<noteq> ''n''" "\<not> ''n'' < deliveredEntry" "deliveredEntry < ''n''"
    by (simp_all add: deliveredEntry_def sep_def less_char_def)
  have "itemOk (deliveryMarker [nullItem])" using v by (simp add: itemOk_def clock fields)
  moreover have "length (jsonText (sstRecordJson (sstToRecord (storageKey ''n'' ''k'', deliveryMarker [nullItem])))) < 2 ^ 32"
    using ne unfolding sstRecordJson_def sstToRecord_def fst_conv snd_conv clock fields Snapshot_id
    by (simp add: marshalRaw_def marshalClock_def sorted_list_of_fset.rep_eq vcAt_def storageKey_def)
      (simp add: deliveredEntry_def sep_def quoteString_def quoteBody.simps escapeASCII_def itoa.simps)
  ultimately show ?thesis using v by (simp add: worldFits_def sstFits_def)
qed


end
