(* ===== verification/Merkle.thy ===== *)
theory Merkle
  imports Store Sha256
begin

text \<open>
  The Merkle trees of anti-entropy (src/internal/merkle): a complete binary tree of SHA-256 digests
  over the buckets of a store, and the walk that finds the buckets in which two trees differ. That two
  inputs in play do not collide is a hypothesis where it matters.
\<close>

section \<open>Definitions\<close>

type_synonym Hash = string

record Tree =
  NumBuckets :: nat
  Nodes :: "Hash list"

datatype bucketError = NotPositive | NotPowerOfTwo | OddExponent

fun bitLen :: "nat \<Rightarrow> nat" where
  "bitLen n = (if n = 0 then 0 else Suc (bitLen (n div 2)))"

declare bitLen.simps [simp del]

definition validateBucketCount :: "int \<Rightarrow> bucketError option" where
  "validateBucketCount numBuckets =
     (if numBuckets < 1 then Some NotPositive
      else if and numBuckets (numBuckets - 1) \<noteq> 0 then Some NotPowerOfTwo
      else if (bitLen (nat numBuckets) - 1) mod 2 \<noteq> 0 then Some OddExponent
      else None)"

definition leafIndex :: "nat \<Rightarrow> nat \<Rightarrow> nat" where
  "leafIndex bucketIndex numBuckets = numBuckets - 1 + bucketIndex"

definition BucketFor :: "string \<Rightarrow> nat \<Rightarrow> nat" where
  "BucketFor key numBuckets = unat (fnv32a key) mod numBuckets"

definition canonicalItemString :: "DataItem \<Rightarrow> string" where
  "canonicalItemString item =
     (let vc = Snapshot (VectorClock item);
          vcParts = map (\<lambda>node. node @ '':'' @ itoa (unat (vcAt vc node))) (sorted_list_of_fset (fmdom vc))
      in ''value='' @ jsonText (Value item) @ ''|vc={['' @ joinSpace vcParts @ '']}|by='' @ LastUpdatedBy item @
         ''|deleted='' @ (if IsDeleted item then ''true'' else ''false''))"

text \<open>What \<open>hashBucketContents\<close> writes to the digest.\<close>

fun bucketText :: "('p, 'e) persister_ops \<Rightarrow> 'p DataStore \<Rightarrow> string list \<Rightarrow> 'e + string" where
  "bucketText P ds [] = Inr []"
| "bucketText P ds (key # keys) =
     (case dsGet P ds key of
        Inl err \<Rightarrow> Inl err
      | Inr (items, _) \<Rightarrow>
          (case bucketText P ds keys of
             Inl err \<Rightarrow> Inl err
           | Inr rest \<Rightarrow>
               Inr (key @ [CHR 0x00] @
                    concat (map (\<lambda>s. s @ [CHR 0x00]) (sort (map canonicalItemString items))) @ rest)))"

definition hashBucketContents :: "('p, 'e) persister_ops \<Rightarrow> 'p DataStore \<Rightarrow> string list \<Rightarrow> 'e + Hash" where
  "hashBucketContents P ds bucketKeys = map_sum id sha256 (bucketText P ds (sort bucketKeys))"

definition combineHashes :: "Hash \<Rightarrow> Hash \<Rightarrow> Hash" where
  "combineHashes left right = sha256 (left @ right)"

fun buildLeaves ::
  "('p, 'e) persister_ops \<Rightarrow> 'p DataStore \<Rightarrow> nat \<Rightarrow> string list \<Rightarrow> nat list \<Rightarrow> 'e + Hash list" where
  "buildLeaves P ds numBuckets allKeys [] = Inr []"
| "buildLeaves P ds numBuckets allKeys (b # bs) =
     (case hashBucketContents P ds (filter (\<lambda>k. BucketFor k numBuckets = b) allKeys) of
        Inl err \<Rightarrow> Inl err
      | Inr leaf \<Rightarrow>
          (case buildLeaves P ds numBuckets allKeys bs of
             Inl err \<Rightarrow> Inl err
           | Inr leaves \<Rightarrow> Inr (leaf # leaves)))"

text \<open>The loop over the internal nodes, from \<open>i - 1\<close> down to 0.\<close>

fun buildInternal :: "nat \<Rightarrow> Hash list \<Rightarrow> Hash list" where
  "buildInternal 0 nodes = nodes"
| "buildInternal (Suc i) nodes =
     buildInternal i (nodes[i := combineHashes (nodes ! (2 * i + 1)) (nodes ! (2 * i + 2))])"

text \<open>An invalid bucket count panics: None.\<close>

definition Build :: "('p, 'e) persister_ops \<Rightarrow> 'p DataStore \<Rightarrow> int \<Rightarrow> ('e + Tree) option" where
  "Build P ds numBuckets =
     (if validateBucketCount numBuckets \<noteq> None then None
      else
        let n = nat numBuckets in
        (case dsKeys P ds of
           Inl err \<Rightarrow> Some (Inl err)
         | Inr allKeys \<Rightarrow>
             (case buildLeaves P ds n allKeys [0..<n] of
                Inl err \<Rightarrow> Some (Inl err)
              | Inr leaves \<Rightarrow>
                  Some (Inr \<lparr>NumBuckets = n, Nodes = buildInternal (n - 1) (replicate (n - 1) [] @ leaves)\<rparr>))))"

definition isLeafIndex :: "nat \<Rightarrow> nat \<Rightarrow> bool" where
  "isLeafIndex nodeIndex numBuckets \<longleftrightarrow> nodeIndex \<ge> numBuckets - 1"

definition bucketIndexOfLeaf :: "nat \<Rightarrow> nat \<Rightarrow> nat" where
  "bucketIndexOfLeaf nodeIndex numBuckets = nodeIndex - (numBuckets - 1)"

text \<open>An index out of range panics: None.\<close>

function walk :: "Tree \<Rightarrow> Tree \<Rightarrow> nat \<Rightarrow> nat list \<Rightarrow> nat list option" where
  "walk local remote nodeIndex diverged =
     (if nodeIndex \<ge> length (Nodes local) \<or> nodeIndex \<ge> length (Nodes remote) then None
      else if Nodes local ! nodeIndex = Nodes remote ! nodeIndex then Some diverged
      else if isLeafIndex nodeIndex (NumBuckets local)
      then Some (diverged @ [bucketIndexOfLeaf nodeIndex (NumBuckets local)])
      else
        (case walk local remote (2 * nodeIndex + 1) diverged of
           None \<Rightarrow> None
         | Some diverged' \<Rightarrow> walk local remote (2 * nodeIndex + 2) diverged'))"
  by pat_completeness auto
termination
  by (relation "measure (\<lambda>(local, _, i, _). length (Nodes local) - i)") auto

declare walk.simps [simp del]

definition DivergentBuckets :: "Tree \<Rightarrow> Tree \<Rightarrow> nat list option" where
  "DivergentBuckets local remote =
     (if NumBuckets local \<noteq> NumBuckets remote then None else walk local remote 0 [])"

section \<open>Bucket counts\<close>

lemma bitLen_power: "bitLen (2 ^ k) = Suc k"
proof (induction k)
  case 0
  show ?case by (simp add: bitLen.simps [of "Suc 0"] bitLen.simps [of 0])
next
  case (Suc k)
  then show ?case by (subst bitLen.simps) simp
qed

lemma and_power_minus: "and (2 ^ k) (2 ^ k - 1) = (0 :: int)"
proof -
  have "and (2 ^ k) (2 ^ k - 1) = take_bit k (2 ^ k :: int)" by (simp add: take_bit_eq_mask mask_eq_exp_minus_1)
  then show ?thesis by (simp add: take_bit_eq_mod)
qed

lemma validate_power4: "validateBucketCount (4 ^ k) = None"
proof -
  have e: "(4 :: int) ^ k = 2 ^ (2 * k)" by (simp add: power_mult)
  have "nat (2 ^ (2 * k)) = 2 ^ (2 * k)" by (subst nat_power_eq) simp_all
  then have b: "bitLen (nat (4 ^ k)) = Suc (2 * k)" unfolding e by (simp only: bitLen_power)
  have a: "and (4 ^ k) (4 ^ k - 1) = (0 :: int)" unfolding e by (rule and_power_minus)
  have p: "\<not> (4 :: int) ^ k < 1" by (simp add: not_less)
  from a b p show ?thesis by (simp add: validateBucketCount_def)
qed

text \<open>Conversely, only powers of four are accepted: the exponent is read off the bits.\<close>

lemma and_minus_one_power: "0 < n \<Longrightarrow> and (int n) (int n - 1) = 0 \<Longrightarrow> \<exists>k. n = 2 ^ k"
proof (induction n rule: less_induct)
  case (less n)
  show ?case
  proof (cases "odd n")
    case True
    then have "and (int n) (int n - 1) = int n - 1"
    proof -
      obtain m where m: "n = 2 * m + 1" using True by (elim oddE)
      have "and (1 + 2 * int m) (2 * int m) = 2 * int m" by (subst and_int_rec) simp
      then show ?thesis using m by simp
    qed
    then have "n = 1" using less.prems by simp
    then show ?thesis by (intro exI [of _ 0]) simp
  next
    case False
    then obtain m where m: "n = 2 * m" by (auto elim: evenE)
    then have "0 < m" "m < n" using less.prems by simp_all
    have "and (int n) (int n - 1) = 2 * and (int n div 2) ((int n - 1) div 2)"
      using m by (subst and_int_rec) simp
    moreover have "int n div 2 = int m" "(int n - 1) div 2 = int m - 1" using m by simp_all
    ultimately have "and (int n) (int n - 1) = 2 * and (int m) (int m - 1)" by simp
    then have "and (int m) (int m - 1) = 0" using less.prems by simp
    from less.IH [OF \<open>m < n\<close> \<open>0 < m\<close> this] obtain k where "m = 2 ^ k" by blast
    then show ?thesis using m by (intro exI [of _ "Suc k"]) simp
  qed
qed

lemma validate_iff: "validateBucketCount n = None \<longleftrightarrow> (\<exists>k. n = 4 ^ k)"
proof
  assume v: "validateBucketCount n = None"
  then have n: "1 \<le> n" "and n (n - 1) = 0" "(bitLen (nat n) - 1) mod 2 = 0"
    by (auto simp: validateBucketCount_def split: if_splits)
  then obtain k where k: "nat n = 2 ^ k" using and_minus_one_power [of "nat n"] by auto
  then have "k mod 2 = 0" using n(3) bitLen_power [of k] by (simp only: k) simp
  then obtain j where "k = 2 * j" by (auto simp: mod_eq_0_iff_dvd)
  then have "n = 4 ^ j" using k n(1) by (simp add: power_mult nat_eq_iff split: if_splits)
  then show "\<exists>k. n = 4 ^ k" by blast
qed (auto simp: validate_power4)

section \<open>The tree\<close>

lemma length_buildInternal [simp]: "length (buildInternal m nodes) = length nodes"
  by (induction m arbitrary: nodes) simp_all

lemma buildInternal_above: "m \<le> i \<Longrightarrow> buildInternal m nodes ! i = nodes ! i"
  by (induction m arbitrary: nodes) simp_all

lemma buildInternal_children:
  "i < m \<Longrightarrow> m \<le> length nodes \<Longrightarrow> buildInternal m nodes ! i =
    combineHashes (buildInternal m nodes ! (2 * i + 1)) (buildInternal m nodes ! (2 * i + 2))"
proof (induction m arbitrary: nodes)
  case (Suc m)
  show ?case
  proof (cases "i = m")
    case True
    with Suc.prems show ?thesis by (simp add: buildInternal_above)
  next
    case False
    with Suc show ?thesis by simp
  qed
qed simp

lemma length_buildLeaves: "buildLeaves P ds n ks bs = Inr leaves \<Longrightarrow> length leaves = length bs"
  by (induction bs arbitrary: leaves) (auto split: sum.splits)

lemma buildLeaves_nth:
  "buildLeaves P ds n ks bs = Inr leaves \<Longrightarrow> j < length bs \<Longrightarrow>
    hashBucketContents P ds (filter (\<lambda>k. BucketFor k n = bs ! j) ks) = Inr (leaves ! j)"
  by (induction bs arbitrary: leaves j) (auto simp: nth_Cons split: sum.splits nat.splits)

text \<open>A tree whose internal nodes are the digests of their children.\<close>

definition treeOk :: "Tree \<Rightarrow> bool" where
  "treeOk t \<longleftrightarrow> 0 < NumBuckets t \<and> length (Nodes t) = 2 * NumBuckets t - 1 \<and>
     (\<forall>i < NumBuckets t - 1. Nodes t ! i = combineHashes (Nodes t ! (2 * i + 1)) (Nodes t ! (2 * i + 2)))"

lemma Build_ok:
  assumes "Build P ds n = Some (Inr t)"
  shows "treeOk t \<and> NumBuckets t = nat n \<and> (\<exists>ks. dsKeys P ds = Inr ks \<and> (\<forall>b < nat n.
    hashBucketContents P ds (filter (\<lambda>k. BucketFor k (nat n) = b) ks) = Inr (Nodes t ! leafIndex b (nat n))))"
proof -
  from assms obtain ks leaves where v: "validateBucketCount n = None" and ks: "dsKeys P ds = Inr ks"
    and l: "buildLeaves P ds (nat n) ks [0..<nat n] = Inr leaves"
    and t: "t = \<lparr>NumBuckets = nat n, Nodes = buildInternal (nat n - 1) (replicate (nat n - 1) [] @ leaves)\<rparr>"
    by (auto simp: Build_def Let_def split: if_splits sum.splits)
  have n: "0 < nat n" using v by (auto simp: validateBucketCount_def split: if_splits)
  have len: "length leaves = nat n" using length_buildLeaves [OF l] by simp
  have "treeOk t" unfolding treeOk_def t using n len buildInternal_children [of _ "nat n - 1" "replicate (nat n - 1) [] @ leaves"]
    by simp
  moreover have "hashBucketContents P ds (filter (\<lambda>k. BucketFor k (nat n) = b) ks) = Inr (Nodes t ! leafIndex b (nat n))"
    if "b < nat n" for b
  proof -
    have "Nodes t ! leafIndex b (nat n) = (replicate (nat n - 1) [] @ leaves) ! (nat n - 1 + b)"
      unfolding t leafIndex_def by (simp add: buildInternal_above)
    also have "\<dots> = leaves ! b" by (metis length_replicate nth_append_length_plus)
    finally show ?thesis using buildLeaves_nth [OF l, of b] that by simp
  qed
  ultimately show ?thesis using ks t by simp
qed

section \<open>The walk\<close>

text \<open>The buckets below a node, left to right.\<close>

function leavesUnder :: "nat \<Rightarrow> nat \<Rightarrow> nat list" where
  "leavesUnder n i = (if i \<ge> n - 1 then [i - (n - 1)] else leavesUnder n (2 * i + 1) @ leavesUnder n (2 * i + 2))"
  by pat_completeness auto
termination
  by (relation "measure (\<lambda>(n, i). n - i)") auto

declare leavesUnder.simps [simp del]

lemma leavesUnder_bound: "i \<le> 2 * n - 2 \<Longrightarrow> b \<in> set (leavesUnder n i) \<Longrightarrow> 0 < n \<Longrightarrow> b < n"
proof (induction n i rule: leavesUnder.induct)
  case (1 n i)
  then show ?case by (cases "n - 1 \<le> i") (auto simp: leavesUnder.simps [of n i])
qed

lemma leavesUnder_up: "j \<le> 2 * n - 2 \<Longrightarrow> 0 < n \<Longrightarrow> set (leavesUnder n j) \<subseteq> set (leavesUnder n 0)"
proof (induction j rule: less_induct)
  case (less j)
  show ?case
  proof (cases "j = 0")
    case False
    let ?p = "(j - 1) div 2"
    have p: "?p < j" "?p \<le> 2 * n - 2" "\<not> ?p \<ge> n - 1" using False less.prems by auto
    have "j = 2 * ?p + 1 \<or> j = 2 * ?p + 2" using False by (cases "even j") (auto elim!: evenE oddE)
    then have "set (leavesUnder n j) \<subseteq> set (leavesUnder n ?p)"
      using p(3) leavesUnder.simps [of n ?p] by auto
    then show ?thesis using less.IH [OF p(1,2) less.prems(2)] by blast
  qed simp
qed

lemma leavesUnder_root: "0 < n \<Longrightarrow> set (leavesUnder n 0) = {..<n}"
proof (intro equalityI subsetI)
  assume n: "0 < n"
  show "b \<in> {..<n}" if "b \<in> set (leavesUnder n 0)" for b using leavesUnder_bound [OF _ that n] by simp
  show "b \<in> set (leavesUnder n 0)" if "b \<in> {..<n}" for b
  proof -
    have "leavesUnder n (n - 1 + b) = [b]" by (subst leavesUnder.simps) simp
    moreover have "n - 1 + b \<le> 2 * n - 2" using that by simp
    ultimately show ?thesis using leavesUnder_up [OF _ n] by fastforce
  qed
qed

text \<open>That no two inputs of the internal nodes of two trees collide.\<close>

definition noCollision :: "Tree \<Rightarrow> Tree \<Rightarrow> bool" where
  "noCollision s t \<longleftrightarrow> (\<forall>i < NumBuckets s - 1.
     combineHashes (Nodes s ! (2 * i + 1)) (Nodes s ! (2 * i + 2)) =
     combineHashes (Nodes t ! (2 * i + 1)) (Nodes t ! (2 * i + 2)) \<longrightarrow>
     Nodes s ! (2 * i + 1) = Nodes t ! (2 * i + 1) \<and> Nodes s ! (2 * i + 2) = Nodes t ! (2 * i + 2))"

definition leafDiffers :: "Tree \<Rightarrow> Tree \<Rightarrow> nat \<Rightarrow> bool" where
  "leafDiffers s t b \<longleftrightarrow> Nodes s ! leafIndex b (NumBuckets s) \<noteq> Nodes t ! leafIndex b (NumBuckets s)"

lemma equal_node_equal_leaves:
  assumes ok: "treeOk s" "treeOk t" "NumBuckets t = NumBuckets s" "noCollision s t"
  shows "i \<le> 2 * NumBuckets s - 2 \<Longrightarrow> Nodes s ! i = Nodes t ! i \<Longrightarrow> b \<in> set (leavesUnder (NumBuckets s) i) \<Longrightarrow> \<not> leafDiffers s t b"
proof (induction "NumBuckets s" i rule: leavesUnder.induct)
  case (1 i)
  show ?case
  proof (cases "i \<ge> NumBuckets s - 1")
    case True
    then show ?thesis using "1.prems" by (simp add: leavesUnder.simps [of _ i] leafDiffers_def leafIndex_def)
  next
    case False
    then have "Nodes s ! (2 * i + 1) = Nodes t ! (2 * i + 1)" "Nodes s ! (2 * i + 2) = Nodes t ! (2 * i + 2)"
      using ok "1.prems"(2) by (auto simp: treeOk_def noCollision_def)
    moreover have "b \<in> set (leavesUnder (NumBuckets s) (2 * i + 1)) \<or> b \<in> set (leavesUnder (NumBuckets s) (2 * i + 2))"
      using "1.prems"(3) False by (simp add: leavesUnder.simps [of _ i])
    moreover have "2 * i + 1 \<le> 2 * NumBuckets s - 2" "2 * i + 2 \<le> 2 * NumBuckets s - 2" using False by simp_all
    ultimately show ?thesis using "1.hyps" [OF False] by blast
  qed
qed

lemma walk_spec:
  assumes ok: "treeOk s" "treeOk t" "NumBuckets t = NumBuckets s" "noCollision s t"
  shows "i \<le> 2 * NumBuckets s - 2 \<Longrightarrow>
    walk s t i acc = Some (acc @ filter (leafDiffers s t) (leavesUnder (NumBuckets s) i))"
proof (induction "NumBuckets s" i arbitrary: acc rule: leavesUnder.induct)
  case (1 i)
  have len: "i < length (Nodes s)" "i < length (Nodes t)" using ok "1.prems" by (auto simp: treeOk_def)
  show ?case
  proof (cases "Nodes s ! i = Nodes t ! i")
    case True
    then have "filter (leafDiffers s t) (leavesUnder (NumBuckets s) i) = []"
      using equal_node_equal_leaves [OF ok "1.prems" True] by (simp add: filter_empty_conv)
    then show ?thesis using len True by (simp add: walk.simps [of s t i])
  next
    case neq: False
    show ?thesis
    proof (cases "i \<ge> NumBuckets s - 1")
      case True
      then show ?thesis using len neq
        by (simp add: walk.simps [of s t i] leavesUnder.simps [of _ i] isLeafIndex_def bucketIndexOfLeaf_def leafDiffers_def leafIndex_def)
    next
      case False
      have b: "2 * i + 1 \<le> 2 * NumBuckets s - 2" "2 * i + 2 \<le> 2 * NumBuckets s - 2" using False by simp_all
      show ?thesis using len neq False "1.hyps"(1) [OF False b(1)] "1.hyps"(2) [OF False b(2)]
        by (simp add: walk.simps [of s t i] leavesUnder.simps [of _ i] isLeafIndex_def)
    qed
  qed
qed

text \<open>Two trees of one bucket count: the walk returns the buckets whose leaves differ.\<close>

lemma DivergentBuckets_leaves:
  assumes "Build P ds n = Some (Inr s)" "Build P ds' n = Some (Inr t)" "noCollision s t"
  shows "\<exists>bs. DivergentBuckets s t = Some bs \<and> set bs = {b. b < nat n \<and> leafDiffers s t b}"
proof -
  note s = Build_ok [OF assms(1)] and t = Build_ok [OF assms(2)]
  have "DivergentBuckets s t = Some (filter (leafDiffers s t) (leavesUnder (nat n) 0))"
    using s t walk_spec [of s t 0 "[]"] assms(3) by (simp add: DivergentBuckets_def)
  moreover have "set (filter (leafDiffers s t) (leavesUnder (nat n) 0)) = {b. b < nat n \<and> leafDiffers s t b}"
    using s leavesUnder_root [of "nat n"] by (auto simp: treeOk_def)
  ultimately show ?thesis by blast
qed

lemma hashBucketContents_length: "hashBucketContents P ds ks = Inr h \<Longrightarrow> length h = 32"
  by (cases "bucketText P ds (sort ks)") (auto simp: hashBucketContents_def)

lemma Build_nodes:
  assumes "Build P ds n = Some (Inr t)" "h \<in> set (Nodes t)"
  shows "length h = 32"
proof -
  note t = Build_ok [OF assms(1)]
  obtain i where i: "i < length (Nodes t)" "h = Nodes t ! i" using assms(2) by (auto simp: in_set_conv_nth)
  show ?thesis
  proof (cases "i < NumBuckets t - 1")
    case True
    then show ?thesis using t i by (simp add: treeOk_def combineHashes_def)
  next
    case False
    then have "i = leafIndex (i - (nat n - 1)) (nat n)" "i - (nat n - 1) < nat n"
      using t i by (auto simp: treeOk_def leafIndex_def)
    then show ?thesis using t i hashBucketContents_length by metis
  qed
qed

section \<open>Properties\<close>

text \<open>
  Exactly the bucket counts 4^k are accepted.
\<close>

theorem bucket_count_valid: "validateBucketCount n = None \<longleftrightarrow> (\<exists>k. n = 4 ^ k)"
  by (rule validate_iff)

text \<open>
  C39: Comparing the trees of two stores finds the buckets to reconcile. For two trees that \<open>Build\<close>
  returned with one bucket count, the comparison ends without an index out of range and returns
  exactly the buckets whose contents hash differently, provided no two digests of internal nodes at the
  same place collide; so a bucket is reported only if its contents differ, and equal stores report none.
\<close>

theorem divergent_buckets_exact:
  assumes "Build P ds n = Some (Inr s)" "Build P ds' n = Some (Inr t)" "noCollision s t"
  shows "\<exists>bs ks ks'. DivergentBuckets s t = Some bs \<and> dsKeys P ds = Inr ks \<and> dsKeys P ds' = Inr ks' \<and>
    set bs = {b. b < nat n \<and>
      hashBucketContents P ds (filter (\<lambda>k. BucketFor k (nat n) = b) ks) \<noteq>
      hashBucketContents P ds' (filter (\<lambda>k. BucketFor k (nat n) = b) ks')}"
proof -
  note s = Build_ok [OF assms(1)] and t = Build_ok [OF assms(2)]
  from s t obtain ks ks' where ks: "dsKeys P ds = Inr ks" "dsKeys P ds' = Inr ks'"
    and hs: "\<And>b. b < nat n \<Longrightarrow> hashBucketContents P ds (filter (\<lambda>k. BucketFor k (nat n) = b) ks) = Inr (Nodes s ! leafIndex b (nat n))"
    and ht: "\<And>b. b < nat n \<Longrightarrow> hashBucketContents P ds' (filter (\<lambda>k. BucketFor k (nat n) = b) ks') = Inr (Nodes t ! leafIndex b (nat n))"
    by blast
  from DivergentBuckets_leaves [OF assms] ks hs ht s show ?thesis by (auto simp: leafDiffers_def)
qed

theorem divergent_buckets_exact_witness:
  "\<exists>s. Build (enginePersister alTree bitFilter) freshStore 4 = Some (Inr s) \<and> DivergentBuckets s s = Some []"
proof -
  let ?P = "enginePersister alTree bitFilter"
  have keys: "dsKeys ?P freshStore = Inr []"
    by (simp add: dsKeys_def enginePersister_def engKeys_def mtKeys_def mtNew_def alTree_def)
  have "validateBucketCount 4 = None" using validate_power4 [of 1] by simp
  then obtain s where s: "Build ?P freshStore 4 = Some (Inr s)"
    by (auto simp: Build_def keys hashBucketContents_def upt_rec Let_def)
  have "noCollision s s" by (simp add: noCollision_def)
  from divergent_buckets_exact [OF s s this] obtain bs ks ks' where bs: "DivergentBuckets s s = Some bs"
    "dsKeys ?P freshStore = Inr ks" "dsKeys ?P freshStore = Inr ks'"
    "set bs = {b. b < nat 4 \<and>
      hashBucketContents ?P freshStore (filter (\<lambda>k. BucketFor k (nat 4) = b) ks) \<noteq>
      hashBucketContents ?P freshStore (filter (\<lambda>k. BucketFor k (nat 4) = b) ks')}"
    by blast
  have "set bs = {}" using bs(2-4) by (auto simp: keys hashBucketContents_def)
  then show ?thesis using s bs(1) by simp
qed

end
