(* ===== verification/Rpc.thy ===== *)
theory Rpc
  imports Hints Merkle
begin

text \<open>
  The RPC layer (src/internal/rpc): the messages, the handlers of the replication service over a
  node's store, and the client-facing service over a node's reads and writes. gRPC and the generated
  messages are outside the model: a call either reaches its handler, or ends in a status code. A
  protobuf message is a record of its fields.
\<close>

section \<open>Definitions\<close>

datatype code =
    OK | Canceled | Unknown | InvalidArgument | DeadlineExceeded | FailedPrecondition | Internal
  | Unavailable | Unimplemented

subsection \<open>Messages: convert.go\<close>

record pbItem =
  pbValue :: string
  pbClock :: vclock
  pbLastUpdatedBy :: string
  pbIsDeleted :: bool

definition marshalValue :: "goValue \<Rightarrow> string" where
  "marshalValue v = jsonText v"

definition unmarshalValue :: "string \<Rightarrow> goValue option" where
  "unmarshalValue b = parseJson b"

definition toProtoDataItem :: "DataItem \<Rightarrow> pbItem" where
  "toProtoDataItem item =
     \<lparr>pbValue = marshalValue (Value item), pbClock = Snapshot (VectorClock item),
      pbLastUpdatedBy = LastUpdatedBy item, pbIsDeleted = IsDeleted item\<rparr>"

definition fromProtoDataItem :: "pbItem \<Rightarrow> DataItem option" where
  "fromProtoDataItem p =
     (case unmarshalValue (pbValue p) of
        None \<Rightarrow> None
      | Some v \<Rightarrow> Some \<lparr>Value = v, VectorClock = FromSnapshot (pbClock p), LastUpdatedBy = pbLastUpdatedBy p,
                     IsDeleted = pbIsDeleted p\<rparr>)"

record pbTree =
  pbNumBuckets :: "32 word"
  pbNodes :: "string list"

definition toProtoTree :: "Tree \<Rightarrow> pbTree" where
  "toProtoTree t = \<lparr>pbNumBuckets = word_of_nat (NumBuckets t), pbNodes = Nodes t\<rparr>"

text \<open>A node is copied into an array of 32 bytes.\<close>

definition fromProtoTree :: "pbTree \<Rightarrow> Tree" where
  "fromProtoTree p =
     \<lparr>NumBuckets = nat (sint (pbNumBuckets p)),
      Nodes = map (\<lambda>b. take 32 (b @ replicate 32 (CHR 0x00))) (pbNodes p)\<rparr>"

subsection \<open>The replication service: server.go\<close>

text \<open>\<open>halted\<close> is \<open>errors.Is(err, store.ErrWritesHalted)\<close>.\<close>

fun replicateLoop ::
  "('p, 'e) persister_ops \<Rightarrow> ('e \<Rightarrow> bool) \<Rightarrow> 'p DataStore \<Rightarrow> string \<Rightarrow> pbItem list \<Rightarrow> 'p DataStore \<times> code" where
  "replicateLoop P halted ds key [] = (ds, OK)"
| "replicateLoop P halted ds key (protoItem # items) =
     (case fromProtoDataItem protoItem of
        None \<Rightarrow> (ds, InvalidArgument)
      | Some item \<Rightarrow>
          (case MergeReplicated P ds key item of
             (ds', Some err) \<Rightarrow> (ds', if halted err then Unavailable else Internal)
           | (ds', None) \<Rightarrow> replicateLoop P halted ds' key items))"

definition serveReplicate ::
  "('p, 'e) persister_ops \<Rightarrow> ('e \<Rightarrow> bool) \<Rightarrow> 'p DataStore \<Rightarrow> string \<Rightarrow> pbItem list \<Rightarrow> 'p DataStore \<times> code" where
  "serveReplicate P halted ds key items =
     (if length items = 0 then (ds, InvalidArgument) else replicateLoop P halted ds key items)"

definition serveFetchItem ::
  "('p, 'e) persister_ops \<Rightarrow> 'p DataStore \<Rightarrow> string \<Rightarrow> code + pbItem list \<times> bool" where
  "serveFetchItem P ds key =
     (case dsGet P ds key of
        Inl _ \<Rightarrow> Inl Internal
      | Inr (items, found) \<Rightarrow> if \<not> found then Inr ([], False) else Inr (map toProtoDataItem items, True))"

definition serveGetMerkleTree :: "('p, 'e) persister_ops \<Rightarrow> 'p DataStore \<Rightarrow> int \<Rightarrow> code + pbTree" where
  "serveGetMerkleTree P ds numBuckets =
     (case Build P ds numBuckets of Some (Inr t) \<Rightarrow> Inr (toProtoTree t) | _ \<Rightarrow> Inl Internal)"

definition serveGetBucketKeys ::
  "('p, 'e) persister_ops \<Rightarrow> 'p DataStore \<Rightarrow> nat \<Rightarrow> nat \<Rightarrow> code + string list" where
  "serveGetBucketKeys P ds bucketIndex numBuckets =
     (case dsKeys P ds of
        Inl _ \<Rightarrow> Inl Internal
      | Inr allKeys \<Rightarrow> Inr (filter (\<lambda>k. BucketFor k numBuckets = bucketIndex) allKeys))"

text \<open>\<open>Client.FetchItem\<close>: what the caller makes of the answer.\<close>

fun fromProtoItems :: "pbItem list \<Rightarrow> DataItem list option" where
  "fromProtoItems [] = Some []"
| "fromProtoItems (p # ps) =
     (case fromProtoDataItem p of
        None \<Rightarrow> None
      | Some item \<Rightarrow> (case fromProtoItems ps of None \<Rightarrow> None | Some items \<Rightarrow> Some (item # items)))"

definition clientFetchItem :: "code + pbItem list \<times> bool \<Rightarrow> code + DataItem list \<times> bool" where
  "clientFetchItem resp =
     (case resp of
        Inl c \<Rightarrow> Inl c
      | Inr (items, found) \<Rightarrow>
          if \<not> found then Inr ([], False)
          else (case fromProtoItems items of None \<Rightarrow> Inl Unknown | Some is \<Rightarrow> Inr (is, True)))"

subsection \<open>The client-facing service: client_service.go\<close>

definition contextFromProto :: "vclock option \<Rightarrow> vclock option" where
  "contextFromProto c = map_option (\<lambda>entries. fmadd fmempty entries) c"

definition valueString :: "goValue \<Rightarrow> string" where
  "valueString v = (case v of JStr s \<Rightarrow> s | _ \<Rightarrow> jsonText v)"

record getResponse =
  grValues :: "string list"
  grContext :: vclock
  grFound :: bool

text \<open>
  \<open>ctxCode e\<close>: the code of a canceled or expired call, for an error that wraps one. \<open>kvGet\<close> and
  \<open>kvPut\<close> are the node's operations.
\<close>

definition clientError :: "('x \<Rightarrow> code option) \<Rightarrow> 'x \<Rightarrow> code" where
  "clientError ctxCode err = (case ctxCode err of Some c \<Rightarrow> c | None \<Rightarrow> Unavailable)"

definition clientGet ::
  "('x \<Rightarrow> code option) \<Rightarrow> ('s \<Rightarrow> string \<Rightarrow> 's \<times> ('x + DataItem list)) \<Rightarrow> 's \<Rightarrow> string \<Rightarrow> 's \<times> (code + getResponse)" where
  "clientGet ctxCode kvGet s key =
     (if key = [] then (s, Inl InvalidArgument)
      else
        (case kvGet s key of
           (s', Inl err) \<Rightarrow> (s', Inl (clientError ctxCode err))
         | (s', Inr items) \<Rightarrow>
             (let values = map (\<lambda>item. valueString (Value item)) (filter (\<lambda>item. \<not> IsDeleted item) items)
              in (s', Inr \<lparr>grValues = values, grContext = UnionVectorClock items, grFound = (length values > 0)\<rparr>))))"

definition clientPut ::
  "('x \<Rightarrow> code option) \<Rightarrow> ('s \<Rightarrow> string \<Rightarrow> goValue \<Rightarrow> vclock option \<Rightarrow> 's \<times> 'x option) \<Rightarrow> 's \<Rightarrow> string \<Rightarrow> string \<Rightarrow>
    vclock option \<Rightarrow> 's \<times> code" where
  "clientPut ctxCode kvPut s key val ctx =
     (if key = [] then (s, InvalidArgument)
      else
        (case kvPut s key (JStr val) (contextFromProto ctx) of
           (s', Some err) \<Rightarrow> (s', clientError ctxCode err)
         | (s', None) \<Rightarrow> (s', OK)))"

section \<open>Items travel unchanged\<close>

lemma proto_roundtrip: "jsonOk (Value item) \<Longrightarrow> fromProtoDataItem (toProtoDataItem item) = Some item"
  by (simp add: fromProtoDataItem_def toProtoDataItem_def unmarshalValue_def marshalValue_def parseJson_jsonText Snapshot_id)

lemma proto_roundtrips: "list_all (\<lambda>i. jsonOk (Value i)) items \<Longrightarrow> fromProtoItems (map toProtoDataItem items) = Some items"
  by (induction items) (simp_all add: proto_roundtrip)

lemma tree_roundtrip:
  assumes "treeOk t" "NumBuckets t < 2 ^ 31" "\<And>h. h \<in> set (Nodes t) \<Longrightarrow> length h = 32"
  shows "fromProtoTree (toProtoTree t) = t"
proof -
  have "map (\<lambda>b. take 32 (b @ replicate 32 (CHR 0x00))) (Nodes t) = Nodes t"
    using assms(3) by (intro map_idI) simp
  moreover have "sint (word_of_nat (NumBuckets t) :: 32 word) = int (NumBuckets t)"
    using assms(2) by (simp add: signed_of_nat signed_take_bit_int_eq_self)
  ultimately show ?thesis by (simp add: fromProtoTree_def toProtoTree_def)
qed

text \<open>A fetch returns what the peer's store holds.\<close>

lemma fetch_view:
  assumes "persistence P pinv pview fits" "pinv (persister ds)" "list_all (\<lambda>i. jsonOk (Value i)) (pview (persister ds) key)"
    and "clientFetchItem (serveFetchItem P ds key) = Inr (items, found)"
  shows "items = rev (pview (persister ds) key)"
proof -
  from assms(4) obtain its f where g: "dsGet P ds key = Inr (its, f)"
    by (auto simp: clientFetchItem_def serveFetchItem_def split: sum.splits)
  note v = persistence.load_view [OF assms(1,2) g [unfolded dsGet_def]]
  have "list_all (\<lambda>i. jsonOk (Value i)) its" using v assms(3) by (simp add: list_all_iff)
  then show ?thesis using assms(4) g v proto_roundtrips [of its]
    by (auto simp: clientFetchItem_def serveFetchItem_def split: if_splits option.splits)
qed

text \<open>A replication that was accepted is covered by the peer's versions, and nothing is lost there.\<close>

lemma replicate_covers:
  assumes "persistence P pinv pview fits" "pinv (persister ds)"
    "\<And>i. i \<in> set items \<Longrightarrow> jsonOk (Value i) \<and> fits key i"
    and "replicateLoop P halted ds key (map toProtoDataItem items) = (ds', OK)"
  shows "pinv (persister ds') \<and> (\<forall>c. covers (pview (persister ds') key) c \<longleftrightarrow> covers (pview (persister ds) key) c \<or> covers items c)"
  using assms(2-)
proof (induction items arbitrary: ds)
  case Nil
  then show ?case by (simp add: covers_def)
next
  case (Cons i items)
  have i: "jsonOk (Value i)" "fits key i" using Cons.prems(2) by simp_all
  obtain p where put: "pPut P (persister ds) key i = (p, None)"
    and rest: "replicateLoop P halted (ds\<lparr>persister := p\<rparr>) key (map toProtoDataItem items) = (ds', OK)"
    using Cons.prems(3) proto_roundtrip [OF i(1)]
    by (auto simp: MergeReplicated_def split: prod.splits option.splits if_splits)
  have "pinv p" by (rule persistence.put_inv [OF assms(1) Cons.prems(1) i(2) put])
  note ih = Cons.IH [OF _ _ rest, simplified, OF this]
  have "covers (pview p key) c \<longleftrightarrow> covers (pview (persister ds) key) c \<or> c \<le> clk i" for c
    by (rule persistence.put_covers [OF assms(1) Cons.prems(1) i(2) put])
  with ih Cons.prems(2) show ?case by (auto simp: covers_def)
qed

end
