(* ===== verification/Node.thy ===== *)
theory Node
  imports View Rpc
begin

text \<open>
  A node (src/internal/node): its membership, its peers' health, its connections and its background
  work. The node's state is one record; an operation is a function on it, one for each function of
  the source. What comes from outside is an argument: the outcome of a dial, a peer's answer, the
  result of writing a file, whether a context had ended when it was checked. A connection is a value
  of an abstract type \<open>'c\<close>. Work handed to \<open>goBackground\<close> becomes an entry of the list \<open>tasks\<close>, which
  a later step runs, so that other operations come in between. Logging is left out.
\<close>

section \<open>Definitions: durable files\<close>

text \<open>Where \<open>WriteFileAtomic\<close> fails, if it does.\<close>

datatype atomicIO = AllFine | FailsBeforeRename | DirSyncFails

definition WriteFileAtomic :: "fileRead \<Rightarrow> json \<Rightarrow> atomicIO \<Rightarrow> fileRead \<times> bool" where
  "WriteFileAtomic old data io =
     (case io of
        FailsBeforeRename \<Rightarrow> (old, False)
      | DirSyncFails \<Rightarrow> (Holds (Some data), False)
      | AllFine \<Rightarrow> (Holds (Some data), True))"

definition writeMembership :: "fileRead \<Rightarrow> ClusterView \<Rightarrow> atomicIO \<Rightarrow> fileRead \<times> bool" where
  "writeMembership old v io = WriteFileAtomic old (membershipJson v) io"

definition writeHandoff :: "fileRead \<Rightarrow> ClusterView \<Rightarrow> atomicIO \<Rightarrow> fileRead \<times> bool" where
  "writeHandoff old v io = WriteFileAtomic old (handoffJson v) io"

text \<open>The identity of a data directory (src/internal/identity).\<close>

record identityFile =
  idNodeID :: string
  idIncarnation :: string

definition ClockID :: "string \<Rightarrow> string \<Rightarrow> string" where
  "ClockID nodeID incarnation = nodeID @ ''#'' @ incarnation"

definition validIncarnation :: "string \<Rightarrow> bool" where
  "validIncarnation s \<longleftrightarrow> length s = 2 * 8 \<and> list_all (\<lambda>c. hexVal c \<noteq> None) s"

definition identityJson :: "identityFile \<Rightarrow> json" where
  "identityJson f = JObj [(''node_id'', JStr (toUtf8 (idNodeID f))), (''incarnation'', JStr (toUtf8 (idIncarnation f)))]"

definition setIdentityField :: "identityFile \<Rightarrow> string \<Rightarrow> json \<Rightarrow> identityFile option" where
  "setIdentityField f k j =
     (if fieldIs k ''node_id'' then map_option (\<lambda>s. f\<lparr>idNodeID := s\<rparr>) (setString j (idNodeID f))
      else if fieldIs k ''incarnation'' then map_option (\<lambda>s. f\<lparr>idIncarnation := s\<rparr>) (setString j (idIncarnation f))
      else Some f)"

datatype identityError = EmptyNodeID | CorruptIdentity | OtherNode string | InvalidIncarnation | UnreadableIdentity | IdentityNotWritten

text \<open>\<open>random\<close> are the bytes \<open>rand.Read\<close> gives.\<close>

definition NewIncarnation :: "string \<Rightarrow> string" where
  "NewIncarnation random = hexEncode random"

definition LoadOrCreate ::
  "fileRead \<Rightarrow> string \<Rightarrow> string \<Rightarrow> atomicIO \<Rightarrow> fileRead \<times> (identityError + string)" where
  "LoadOrCreate f nodeID random io =
     (if nodeID = [] then (f, Inl EmptyNodeID)
      else
        (case f of
           Unreadable \<Rightarrow> (f, Inl UnreadableIdentity)
         | Holds None \<Rightarrow> (f, Inl CorruptIdentity)
         | Holds (Some j) \<Rightarrow>
             (f, case unmarshalStruct setIdentityField \<lparr>idNodeID = [], idIncarnation = []\<rparr> j of
                   None \<Rightarrow> Inl CorruptIdentity
                 | Some g \<Rightarrow>
                     if idNodeID g \<noteq> nodeID then Inl (OtherNode (idNodeID g))
                     else if \<not> validIncarnation (idIncarnation g) then Inl InvalidIncarnation
                     else Inr (idIncarnation g))
         | Missing \<Rightarrow>
             (let incarnation = NewIncarnation random;
                  (f', ok) = WriteFileAtomic f (identityJson \<lparr>idNodeID = nodeID, idIncarnation = incarnation\<rparr>) io
              in (f', if ok then Inr incarnation else Inl IdentityNotWritten))))"

section \<open>Definitions: the state of a node\<close>

record QuorumConfig =
  qN :: nat
  qW :: nat
  qR :: nat
  MaxMissedHeartbeats :: nat

definition NewQuorumConfig :: "nat \<Rightarrow> nat \<Rightarrow> nat \<Rightarrow> QuorumConfig" where
  "NewQuorumConfig n w r = \<lparr>qN = n, qW = w, qR = r, MaxMissedHeartbeats = 3\<rparr>"

record peerHealth =
  misses :: nat
  dead :: bool
  phEpoch :: u64
  reachable :: bool

record HandoffStatus =
  hoEpoch :: u64
  hoDone :: bool
  hoPushed :: nat
  hoHinted :: nat
  hoPending :: nat

text \<open>
  Background work: fetching a membership and adopting it, answering a ping with a ping, closing a
  retired connection, and a handoff with its generation, its views and, once the keys are listed, the
  keys still to move.
\<close>

datatype 'c fetchSource = ViaClient 'c | ViaAddress string

datatype 'c task =
    AdoptTask nodeID "'c fetchSource"
  | PingBackTask nodeID
  | CloseRetiredTask 'c
  | HandoffTask u64 ClusterView ClusterView "(string \<times> nodeID list) list option"

record ('c, 'p) Node =
  nID :: nodeID
  nClockID :: string
  nStore :: "'p DataStore"
  nAddress :: string
  quorum :: QuorumConfig
  membership :: ClusterView
  membershipDisk :: fileRead
  handoffBase :: ClusterView
  handoffTarget :: "ClusterView option"
  handoffGen :: u64
  handoffRunning :: bool
  handoffStatus :: HandoffStatus
  handoffDisk :: fileRead
  handoffsCompleted :: u64
  aeTrigger :: bool
  health :: "(nodeID, peerHealth) fmap"
  conflictSeen :: "(nodeID, string) fmap"
  mismatchSeen :: "(nodeID, string) fmap"
  pingingBack :: "nodeID fset"
  adopting :: bool
  membershipConflicts :: u64
  pingsReceived :: u64
  clients :: "(nodeID, string \<times> 'c) fmap"
  retired :: "'c list"
  clientsClosed :: bool
  nHints :: "'p HintStore"
  nClosed :: bool
  tasks :: "'c task list"
  bgStopped :: bool
  drainClosing :: bool
  writeQuorumFailures :: u64
  readQuorumFailures :: u64
  aeRounds :: u64
  aePeerFailures :: u64
  aeKeysPulled :: u64
  aeKeysPushed :: u64
  hintsPending :: u64
  hintsPendingKnown :: bool

definition newNode ::
  "nodeID \<Rightarrow> string \<Rightarrow> string \<Rightarrow> nat \<Rightarrow> nat \<Rightarrow> nat \<Rightarrow> ClusterView \<Rightarrow> ClusterView \<Rightarrow> 'p DataStore \<Rightarrow> 'p HintStore \<Rightarrow>
    fileRead \<Rightarrow> fileRead \<Rightarrow> ('c, 'p) Node" where
  "newNode i clockID address n w r v base ds hs mfile hfile =
     \<lparr>nID = i, nClockID = clockID, nStore = ds, nAddress = address, quorum = NewQuorumConfig n w r,
      membership = v, membershipDisk = mfile, handoffBase = base, handoffTarget = None, handoffGen = 0,
      handoffRunning = False,
      handoffStatus = \<lparr>hoEpoch = vEpoch v, hoDone = (vEpoch v \<le> vEpoch base), hoPushed = 0, hoHinted = 0, hoPending = 0\<rparr>,
      handoffDisk = hfile, handoffsCompleted = 0, aeTrigger = False, health = fmempty, conflictSeen = fmempty,
      mismatchSeen = fmempty, pingingBack = {||}, adopting = False, membershipConflicts = 0, pingsReceived = 0,
      clients = fmempty, retired = [], clientsClosed = False, nHints = hs, nClosed = False, tasks = [],
      bgStopped = False, drainClosing = False, writeQuorumFailures = 0, readQuorumFailures = 0, aeRounds = 0,
      aePeerFailures = 0, aeKeysPulled = 0, aeKeysPushed = 0, hintsPending = 0, hintsPendingKnown = False\<rparr>"

datatype 'e newError =
    BadRing ringError | StorageFailed 'e | IdentityFailed identityError | MembershipFailed loadError
  | HandoffFailed loadError | HintsFailed 'e

text \<open>The node of a data directory; \<open>store\<close> and \<open>hs\<close> are what opening the two engines gives.\<close>

definition New ::
  "(string \<Rightarrow> bool) \<Rightarrow> nodeID \<Rightarrow> string \<Rightarrow> nat \<Rightarrow> nat \<Rightarrow> nat \<Rightarrow> (nodeID, string) fmap \<Rightarrow> 'e + 'p \<Rightarrow> 'e + 'p HintStore \<Rightarrow>
    fileRead \<Rightarrow> string \<Rightarrow> atomicIO \<Rightarrow> fileRead \<Rightarrow> fileRead \<Rightarrow> fileRead \<times> ('e newError + ('c, 'p) Node)" where
  "New U i address n w r neighborAddrs store hs idFile random io mfile hfile =
     (case initialView U i address neighborAddrs n of
        Inl err \<Rightarrow> (idFile, Inl (BadRing err))
      | Inr v0 \<Rightarrow>
     (case store of
        Inl err \<Rightarrow> (idFile, Inl (StorageFailed err))
      | Inr e \<Rightarrow>
     (case LoadOrCreate idFile i random io of
        (idFile', Inl err) \<Rightarrow> (idFile', Inl (IdentityFailed err))
      | (idFile', Inr incarnation) \<Rightarrow>
     (case loadMembership U mfile n of
        Inl err \<Rightarrow> (idFile', Inl (MembershipFailed err))
      | Inr persisted \<Rightarrow>
     (case loadHandoff U hfile n of
        Inl err \<Rightarrow> (idFile', Inl (HandoffFailed err))
      | Inr handedOff \<Rightarrow>
     (case hs of
        Inl err \<Rightarrow> (idFile', Inl (HintsFailed err))
      | Inr hstore \<Rightarrow>
          (let v = (case persisted of None \<Rightarrow> v0 | Some p \<Rightarrow> p);
               base = (case handedOff of None \<Rightarrow> v0 | Some b \<Rightarrow> b);
               clockID = ClockID i incarnation
           in (idFile', Inr (newNode i clockID address n w r v base
                (NewDataStoreWithPersisterAndClockID i clockID e) hstore mfile hfile)))))))))"

section \<open>Definitions: background work and connections\<close>

definition goBackground :: "('c, 'p) Node \<Rightarrow> 'c task \<Rightarrow> ('c, 'p) Node \<times> bool" where
  "goBackground n t = (if bgStopped n then (n, False) else (n\<lparr>tasks := tasks n @ [t]\<rparr>, True))"

datatype clientError = UnknownPeer nodeID | NodeClosed | DialFailed nodeID

text \<open>\<open>dial\<close> is what \<open>dialPeer\<close> returns if it is called.\<close>

definition clientFor ::
  "('c, 'p) Node \<Rightarrow> ClusterView \<Rightarrow> nodeID \<Rightarrow> 'c option \<Rightarrow> ('c, 'p) Node \<times> (clientError + 'c)" where
  "clientFor n v peerID dial =
     (case fmlookup (vMembers v) peerID of
        None \<Rightarrow> (n, Inl (UnknownPeer peerID))
      | Some addr \<Rightarrow>
          if clientsClosed n then (n, Inl NodeClosed)
          else
            (let redial = (\<lambda>n. case dial of
                     None \<Rightarrow> (n, Inl (DialFailed peerID))
                   | Some client \<Rightarrow> (n\<lparr>clients := fmupd peerID (addr, client) (clients n)\<rparr>, Inr client))
             in case fmlookup (clients n) peerID of
                  None \<Rightarrow> redial n
                | Some (a, client) \<Rightarrow>
                    if a = addr then (n, Inr client)
                    else redial (n\<lparr>retired := retired n @ [client], clients := fmdrop peerID (clients n)\<rparr>)))"

definition getOrDialClient :: "('c, 'p) Node \<Rightarrow> nodeID \<Rightarrow> 'c option \<Rightarrow> ('c, 'p) Node \<times> (clientError + 'c)" where
  "getOrDialClient n peerID dial = clientFor n (membership n) peerID dial"

text \<open>The map's iteration order is not specified; the clients are retired in ID order here.\<close>

definition retireClientsNotIn :: "('c, 'p) Node \<Rightarrow> ClusterView \<Rightarrow> ('c, 'p) Node" where
  "retireClientsNotIn n v =
     (let gone = filter (\<lambda>i. fmlookup (vMembers v) i = None) (sorted_list_of_fset (fmdom (clients n)))
      in n\<lparr>retired := retired n @ map (\<lambda>i. snd (the (fmlookup (clients n) i))) gone,
           clients := fmdrop_set (set gone) (clients n)\<rparr>)"

definition retireClient :: "('c, 'p) Node \<Rightarrow> nodeID \<Rightarrow> ('c, 'p) Node \<times> 'c option" where
  "retireClient n peerID =
     (case fmlookup (clients n) peerID of
        None \<Rightarrow> (n, None)
      | Some (_, client) \<Rightarrow>
          (n\<lparr>retired := retired n @ [client], clients := fmdrop peerID (clients n)\<rparr>, Some client))"

definition closeRetiredLater :: "('c, 'p) Node \<Rightarrow> 'c \<Rightarrow> ('c, 'p) Node" where
  "closeRetiredLater n old = fst (goBackground n (CloseRetiredTask old))"

text \<open>The background part: \<open>fired\<close> says that the timer came before the context ended.\<close>

definition runCloseRetired :: "('c, 'p) Node \<Rightarrow> 'c \<Rightarrow> bool \<Rightarrow> ('c, 'p) Node" where
  "runCloseRetired n old fired = (if fired then n\<lparr>retired := remove1 old (retired n)\<rparr> else n)"

definition TriggerAntiEntropy :: "('c, 'p) Node \<Rightarrow> ('c, 'p) Node" where
  "TriggerAntiEntropy n = n\<lparr>aeTrigger := True\<rparr>"

section \<open>Definitions: health of the peers\<close>

definition isDead :: "('c, 'p) Node \<Rightarrow> nodeID \<Rightarrow> bool" where
  "isDead n peerID = (case fmlookup (health n) peerID of None \<Rightarrow> False | Some h \<Rightarrow> dead h)"

definition healthOf :: "('c, 'p) Node \<Rightarrow> nodeID \<Rightarrow> peerHealth" where
  "healthOf n peerID =
     (case fmlookup (health n) peerID of
        None \<Rightarrow> \<lparr>misses = 0, dead = False, phEpoch = 0, reachable = False\<rparr> | Some h \<Rightarrow> h)"

definition recordHeartbeat :: "('c, 'p) Node \<Rightarrow> nodeID \<Rightarrow> bool \<Rightarrow> ('c, 'p) Node" where
  "recordHeartbeat n peerID ok =
     (if fmlookup (vMembers (membership n)) peerID = None then n
      else
        (let h = healthOf n peerID;
             h1 = h\<lparr>reachable := ok\<rparr>;
             h2 = (if ok then h1\<lparr>misses := 0, dead := False\<rparr>
                   else
                     let m = misses h1 + 1
                     in if m \<ge> MaxMissedHeartbeats (quorum n) then h1\<lparr>misses := m, dead := True\<rparr> else h1\<lparr>misses := m\<rparr>)
         in n\<lparr>health := fmupd peerID h2 (health n)\<rparr>))"

definition recordPeerEpoch :: "('c, 'p) Node \<Rightarrow> nodeID \<Rightarrow> u64 \<Rightarrow> ('c, 'p) Node" where
  "recordPeerEpoch n peerID e =
     (if fmlookup (vMembers (membership n)) peerID = None then n
      else n\<lparr>health := fmupd peerID ((healthOf n peerID)\<lparr>phEpoch := e\<rparr>) (health n)\<rparr>)"

definition pruneHealth :: "('c, 'p) Node \<Rightarrow> ClusterView \<Rightarrow> ('c, 'p) Node" where
  "pruneHealth n v =
     (let member = (\<lambda>i. fmlookup (vMembers v) i \<noteq> None)
      in n\<lparr>health := fmfilter member (health n), conflictSeen := fmfilter member (conflictSeen n),
           mismatchSeen := fmfilter member (mismatchSeen n)\<rparr>)"

record PeerStatus =
  Alive :: bool
  LastSeenEpoch :: u64
  Reachable :: bool

definition IsMember :: "('c, 'p) Node \<Rightarrow> bool" where
  "IsMember n \<longleftrightarrow> fmlookup (vMembers (membership n)) (nID n) \<noteq> None"

definition otherMembers :: "('c, 'p) Node \<Rightarrow> ClusterView \<Rightarrow> nodeID list" where
  "otherMembers n v = filter (\<lambda>i. i \<noteq> nID n) (memberIDs (vMembers v))"

definition PeerStatuses :: "('c, 'p) Node \<Rightarrow> (nodeID, PeerStatus) fmap" where
  "PeerStatuses n =
     fmap_of_list (map (\<lambda>i. (i, case fmlookup (health n) i of
         None \<Rightarrow> \<lparr>Alive = True, LastSeenEpoch = 0, Reachable = False\<rparr>
       | Some h \<Rightarrow> \<lparr>Alive = \<not> dead h, LastSeenEpoch = phEpoch h, Reachable = reachable h\<rparr>)) (otherMembers n (membership n)))"

definition allPeersAtLeast :: "('c, 'p) Node \<Rightarrow> ClusterView \<Rightarrow> u64 \<Rightarrow> bool" where
  "allPeersAtLeast n v e =
     list_all (\<lambda>i. case fmlookup (health n) i of None \<Rightarrow> False | Some h \<Rightarrow> \<not> phEpoch h < e) (otherMembers n v)"

section \<open>Definitions: membership\<close>

definition startHandoff :: "('c, 'p) Node \<Rightarrow> ('c, 'p) Node" where
  "startHandoff n =
     (let newest = membership n; base = handoffBase n
      in if vEpoch newest \<le> vEpoch base then n
         else if handoffRunning n \<and> handoffTarget n = Some newest then n
         else
           (let gen = handoffGen n + 1;
                n1 = n\<lparr>handoffGen := gen, handoffTarget := Some newest,
                       handoffStatus := \<lparr>hoEpoch = vEpoch newest, hoDone = False, hoPushed = 0, hoHinted = 0, hoPending = 0\<rparr>\<rparr>;
                (n2, started) = goBackground n1 (HandoffTask gen base newest None)
            in if \<not> started then n2 else n2\<lparr>handoffRunning := True\<rparr>))"

datatype setError =
    InvalidMembership memberError | RingError ringError | ErrFingerprintMismatch | ErrStaleEpoch
  | ErrMembershipConflict | NotPersisted

definition setMembership ::
  "(string \<Rightarrow> bool) \<Rightarrow> ('c, 'p) Node \<Rightarrow> u64 \<Rightarrow> (nodeID, string) fmap \<Rightarrow> string \<Rightarrow> atomicIO \<Rightarrow>
    ('c, 'p) Node \<times> (setError + bool)" where
  "setMembership U n e members claimedFingerprint io =
     (case validateMembers members (qN (quorum n)) of
        Some err \<Rightarrow> (n, Inl (InvalidMembership err))
      | None \<Rightarrow>
     (case buildView U e members (qN (quorum n)) of
        Inl err \<Rightarrow> (n, Inl (RingError err))
      | Inr v \<Rightarrow>
          if claimedFingerprint \<noteq> [] \<and> vFingerprint v \<noteq> claimedFingerprint then (n, Inl ErrFingerprintMismatch)
          else
            (let cur = membership n
             in if e < vEpoch cur then (n, Inl ErrStaleEpoch)
                else if e = vEpoch cur \<and> vFingerprint v = vFingerprint cur then (n, Inr False)
                else if e = vEpoch cur then (n, Inl ErrMembershipConflict)
                else
                  (case writeMembership (membershipDisk n) v io of
                     (d, False) \<Rightarrow> (n\<lparr>membershipDisk := d\<rparr>, Inl NotPersisted)
                   | (d, True) \<Rightarrow>
                       (let n1 = n\<lparr>membershipDisk := d, membership := v\<rparr>;
                            n2 = retireClientsNotIn n1 v;
                            n3 = pruneHealth n2 v
                        in (startHandoff n3, Inr True))))))"

definition SetMembership ::
  "(string \<Rightarrow> bool) \<Rightarrow> ('c, 'p) Node \<Rightarrow> u64 \<Rightarrow> (nodeID, string) fmap \<Rightarrow> atomicIO \<Rightarrow> ('c, 'p) Node \<times> (setError + bool)" where
  "SetMembership U n e members io = setMembership U n e members [] io"

definition Membership :: "('c, 'p) Node \<Rightarrow> u64 \<times> (nodeID, string) fmap" where
  "Membership n = (vEpoch (membership n), vMembers (membership n))"

record MembershipInfo =
  miEpoch :: u64
  miMembers :: "(nodeID, string) fmap"
  miFingerprint :: string

definition CurrentMembership :: "('c, 'p) Node \<Rightarrow> MembershipInfo" where
  "CurrentMembership n =
     (let v = membership n in \<lparr>miEpoch = vEpoch v, miMembers = vMembers v, miFingerprint = vFingerprint v\<rparr>)"

section \<open>Definitions: heartbeats\<close>

record PingInfo =
  SenderID :: nodeID
  SenderAddress :: string
  piEpoch :: u64
  piFingerprint :: string

record PingReply =
  prNodeID :: nodeID
  prEpoch :: u64
  prFingerprint :: string

definition noteConflict :: "('c, 'p) Node \<Rightarrow> nodeID \<Rightarrow> u64 \<Rightarrow> string \<Rightarrow> ('c, 'p) Node" where
  "noteConflict n peerID e fp =
     n\<lparr>membershipConflicts := membershipConflicts n + 1,
       conflictSeen := fmupd peerID (itoa (unat e) @ ''/'' @ fp) (conflictSeen n)\<rparr>"

definition noteAddressMismatch :: "('c, 'p) Node \<Rightarrow> nodeID \<Rightarrow> string \<Rightarrow> ('c, 'p) Node" where
  "noteAddressMismatch n peerID claimed = n\<lparr>mismatchSeen := fmupd peerID claimed (mismatchSeen n)\<rparr>"

definition adoptFrom :: "('c, 'p) Node \<Rightarrow> nodeID \<Rightarrow> 'c fetchSource \<Rightarrow> ('c, 'p) Node" where
  "adoptFrom n peerID source =
     (if adopting n then n
      else
        (let (n1, started) = goBackground (n\<lparr>adopting := True\<rparr>) (AdoptTask peerID source)
         in if \<not> started then n1\<lparr>adopting := False\<rparr> else n1))"

definition adoptFetched ::
  "(string \<Rightarrow> bool) \<Rightarrow> ('c, 'p) Node \<Rightarrow> nodeID \<Rightarrow> MembershipInfo \<Rightarrow> atomicIO \<Rightarrow> ('c, 'p) Node" where
  "adoptFetched U n peerID info io =
     (case setMembership U n (miEpoch info) (miMembers info) (miFingerprint info) io of
        (n1, Inl ErrMembershipConflict) \<Rightarrow> noteConflict n1 peerID (miEpoch info) (miFingerprint info)
      | (n1, _) \<Rightarrow> n1)"

text \<open>The background part of \<open>adoptFrom\<close>; a fetch that fails is None.\<close>

definition runAdopt ::
  "(string \<Rightarrow> bool) \<Rightarrow> ('c, 'p) Node \<Rightarrow> nodeID \<Rightarrow> MembershipInfo option \<Rightarrow> atomicIO \<Rightarrow> ('c, 'p) Node" where
  "runAdopt U n peerID fetched io =
     (case fetched of None \<Rightarrow> n | Some info \<Rightarrow> adoptFetched U n peerID info io)\<lparr>adopting := False\<rparr>"

text \<open>
  \<open>ctxErr\<close>: the context had ended when it was checked. \<open>reply\<close> is what the ping gets back, None for
  an error.
\<close>

definition pingPeer ::
  "('c, 'p) Node \<Rightarrow> ClusterView \<Rightarrow> nodeID \<Rightarrow> bool \<Rightarrow> 'c option \<Rightarrow> (PingInfo \<Rightarrow> PingReply option) \<Rightarrow> ('c, 'p) Node" where
  "pingPeer n v peerID ctxErr dial reply =
     (case clientFor n v peerID dial of
        (n1, Inl _) \<Rightarrow> if \<not> ctxErr then recordHeartbeat n1 peerID False else n1
      | (n1, Inr client) \<Rightarrow>
          (let own = membership n1;
               answer = reply \<lparr>SenderID = nID n1, SenderAddress = nAddress n1, piEpoch = vEpoch own,
                               piFingerprint = vFingerprint own\<rparr>
           in if ctxErr then n1
              else
                (case answer of
                   None \<Rightarrow> recordHeartbeat n1 peerID False
                 | Some rep \<Rightarrow>
                     if prNodeID rep \<noteq> peerID then recordHeartbeat n1 peerID False
                     else
                       (let n2 = recordPeerEpoch (recordHeartbeat n1 peerID True) peerID (prEpoch rep);
                            cur = membership n2
                        in if prEpoch rep > vEpoch cur then adoptFrom n2 peerID (ViaClient client)
                           else if prEpoch rep = vEpoch cur \<and> prFingerprint rep \<noteq> vFingerprint cur
                                then noteConflict n2 peerID (vEpoch cur) (prFingerprint rep)
                           else n2))))"

text \<open>The pings of a round run in parallel; here they are made in the order given.\<close>

definition heartbeatRound ::
  "('c, 'p) Node \<Rightarrow> nodeID list \<Rightarrow> bool \<Rightarrow> (nodeID \<Rightarrow> 'c option) \<Rightarrow> (nodeID \<Rightarrow> PingInfo \<Rightarrow> PingReply option) \<Rightarrow> ('c, 'p) Node" where
  "heartbeatRound n order ctxErr dials replies =
     (let v = membership n
      in foldl (\<lambda>n i. if i = nID n then n else pingPeer n v i ctxErr (dials i) (replies i)) n order)"

definition pingBack :: "('c, 'p) Node \<Rightarrow> PingInfo \<Rightarrow> ('c, 'p) Node" where
  "pingBack n ping =
     (let peerID = SenderID ping
      in case fmlookup (vMembers (membership n)) peerID of
           None \<Rightarrow> n
         | Some addr \<Rightarrow>
             if peerID = nID n then n
             else if SenderAddress ping \<noteq> addr then noteAddressMismatch n peerID (SenderAddress ping)
             else
               (let n1 = n\<lparr>mismatchSeen := fmdrop peerID (mismatchSeen n)\<rparr>
                in if (case fmlookup (health n1) peerID of None \<Rightarrow> False | Some h \<Rightarrow> reachable h) \<or> peerID |\<in>| pingingBack n1
                   then n1
                   else
                     (let (n2, started) = goBackground (n1\<lparr>pingingBack := finsert peerID (pingingBack n1)\<rparr>) (PingBackTask peerID)
                      in if \<not> started then n2\<lparr>pingingBack := pingingBack n2 |-| {|peerID|}\<rparr> else n2)))"

definition runPingBack ::
  "('c, 'p) Node \<Rightarrow> nodeID \<Rightarrow> bool \<Rightarrow> 'c option \<Rightarrow> (PingInfo \<Rightarrow> PingReply option) \<Rightarrow> ('c, 'p) Node" where
  "runPingBack n peerID ctxErr dial reply =
     (let (n1, old) = retireClient n peerID;
          n2 = (case old of None \<Rightarrow> n1 | Some client \<Rightarrow> closeRetiredLater n1 client);
          n3 = pingPeer n2 (membership n2) peerID ctxErr dial reply
      in n3\<lparr>pingingBack := pingingBack n3 |-| {|peerID|}\<rparr>)"

definition HandlePing :: "('c, 'p) Node \<Rightarrow> PingInfo \<Rightarrow> ('c, 'p) Node \<times> PingReply" where
  "HandlePing n ping =
     (let n1 = pingBack (n\<lparr>pingsReceived := pingsReceived n + 1\<rparr>) ping;
          cur = membership n1;
          n2 = (if piEpoch ping > vEpoch cur \<and> SenderAddress ping \<noteq> []
                then adoptFrom n1 (SenderID ping) (ViaAddress (SenderAddress ping))
                else if piEpoch ping = vEpoch cur \<and> piFingerprint ping \<noteq> vFingerprint cur
                then noteConflict n1 (SenderID ping) (vEpoch cur) (piFingerprint ping)
                else n1)
      in (n2, \<lparr>prNodeID = nID n2, prEpoch = vEpoch cur, prFingerprint = vFingerprint cur\<rparr>))"

section \<open>Definitions: stopping, closing, statistics\<close>

text \<open>
  \<open>StopBackgroundLoops\<close> ends the context of every task and waits for the tasks to return: an adoption
  fetches nothing more, a ping-back only redials, a closing timer and a handoff are left.
\<close>

definition cancelTask :: "(nodeID \<Rightarrow> 'c option) \<Rightarrow> ('c, 'p) Node \<Rightarrow> 'c task \<Rightarrow> ('c, 'p) Node" where
  "cancelTask dials n t =
     (case t of
        AdoptTask peerID _ \<Rightarrow> n\<lparr>adopting := False\<rparr>
      | PingBackTask peerID \<Rightarrow> runPingBack n peerID True (dials peerID) (\<lambda>_. None)
      | CloseRetiredTask old \<Rightarrow> runCloseRetired n old False
      | HandoffTask _ _ _ _ \<Rightarrow> n)"

definition StopBackgroundLoops :: "(nodeID \<Rightarrow> 'c option) \<Rightarrow> ('c, 'p) Node \<Rightarrow> ('c, 'p) Node" where
  "StopBackgroundLoops dials n = foldl (cancelTask dials) (n\<lparr>bgStopped := True, tasks := []\<rparr>) (tasks n)"

text \<open>
  \<open>Close\<close>, up to the closing of the engines: the replication drains are calls of \<open>putAsReplica\<close>, which
  have ended. It runs once.
\<close>

definition nodeClose :: "(nodeID \<Rightarrow> 'c option) \<Rightarrow> ('c, 'p) Node \<Rightarrow> ('c, 'p) Node" where
  "nodeClose dials n =
     (if nClosed n then n
      else
        (let n1 = StopBackgroundLoops dials n
         in n1\<lparr>drainClosing := True, clientsClosed := True, clients := fmempty, retired := [], nClosed := True\<rparr>))"

record NodeStats =
  nsEpoch :: u64
  nsMember :: bool
  nsPeers :: nat
  nsPeersAlive :: nat
  nsPeersReachable :: nat
  nsMembershipConflicts :: u64
  nsPingsReceived :: u64
  nsWriteQuorumFailures :: u64
  nsReadQuorumFailures :: u64
  nsHints :: HintStats
  nsHintsPending :: u64
  nsHintsPendingKnown :: bool
  nsHandoff :: HandoffStatus
  nsHandoffsCompleted :: u64
  nsAntiEntropyRounds :: u64
  nsAntiEntropyPeerFailures :: u64
  nsAntiEntropyKeysPulled :: u64
  nsAntiEntropyKeysPushed :: u64

text \<open>The durations and the engine's statistics (theory Engine) are left out.\<close>

definition nodeStats :: "('c, 'p) Node \<Rightarrow> NodeStats" where
  "nodeStats n =
     (let v = membership n; peers = otherMembers n v
      in \<lparr>nsEpoch = vEpoch v, nsMember = (fmlookup (vMembers v) (nID n) \<noteq> None), nsPeers = length peers,
          nsPeersAlive = length (filter (\<lambda>i. case fmlookup (health n) i of None \<Rightarrow> True | Some h \<Rightarrow> \<not> dead h) peers),
          nsPeersReachable = length (filter (\<lambda>i. case fmlookup (health n) i of None \<Rightarrow> False | Some h \<Rightarrow> reachable h) peers),
          nsMembershipConflicts = membershipConflicts n, nsPingsReceived = pingsReceived n,
          nsWriteQuorumFailures = writeQuorumFailures n, nsReadQuorumFailures = readQuorumFailures n,
          nsHints = hintStats (nHints n), nsHintsPending = hintsPending n, nsHintsPendingKnown = hintsPendingKnown n,
          nsHandoff = handoffStatus n, nsHandoffsCompleted = handoffsCompleted n, nsAntiEntropyRounds = aeRounds n,
          nsAntiEntropyPeerFailures = aePeerFailures n, nsAntiEntropyKeysPulled = aeKeysPulled n,
          nsAntiEntropyKeysPushed = aeKeysPushed n\<rparr>)"

end
