(* ===== verification/Coordinate.thy ===== *)
theory Coordinate
  imports Node
begin

text \<open>
  Quorum reads and writes (src/internal/node/coordinate.go). The replica calls of a request run in
  parallel; the model is given the outcome each call has, the order in which the results arrive, when
  the caller gives up, and what other operations do to the local store while the request waits. The
  replicas' stores are those of the handlers of theory Rpc, so that the quorum theorem speaks of what
  the replicas really hold.
\<close>

section \<open>Definitions\<close>

definition isReplicaFor :: "('c, 'p) Node \<Rightarrow> ClusterView \<Rightarrow> string \<Rightarrow> bool \<times> nodeID list" where
  "isReplicaFor n v key =
     (let preferenceList = GetPreferenceList (vRing v) key (qN (quorum n))
      in (nID n \<in> set preferenceList, filter (\<lambda>i. i \<noteq> nID n) preferenceList))"

text \<open>One call of \<open>Replicate\<close>: what a dial gives, if one is made, and the code the call ends with.\<close>

record 'c replicaIO =
  rDial :: "'c option"
  rCode :: code

definition replicateTo ::
  "('c, 'p) Node \<Rightarrow> ClusterView \<Rightarrow> nodeID \<Rightarrow> 'c replicaIO \<Rightarrow> ('c, 'p) Node \<times> code" where
  "replicateTo n v peerID io =
     (case clientFor n v peerID (rDial io) of
        (n1, Inl _) \<Rightarrow> (n1, Unknown)
      | (n1, Inr _) \<Rightarrow> (n1, rCode io))"

fun fanOut ::
  "('c, 'p) Node \<Rightarrow> ClusterView \<Rightarrow> (nodeID \<Rightarrow> 'c replicaIO) \<Rightarrow> nodeID list \<Rightarrow> ('c, 'p) Node \<times> (nodeID \<times> code) list" where
  "fanOut n v io [] = (n, [])"
| "fanOut n v io (peerID # peers) =
     (let (n1, c) = (if isDead n peerID then (n, Unavailable) else replicateTo n v peerID (io peerID));
          (n2, results) = fanOut n1 v io peers
      in (n2, (peerID, c) # results))"

definition arrivals :: "nodeID list \<Rightarrow> (nodeID \<times> 'r) list \<Rightarrow> (nodeID \<times> 'r) list" where
  "arrivals order results = concat (map (\<lambda>i. case map_of results i of None \<Rightarrow> [] | Some c \<Rightarrow> [(i, c)]) order)"

datatype decision = Reached | Missed | CallerGone

text \<open>
  The loop that collects acknowledgements; \<open>cancelAt\<close> is the number of results received when the
  caller's context ends, with the code of its error.
\<close>

fun collect ::
  "nat \<Rightarrow> nat \<Rightarrow> (nat \<times> code) option \<Rightarrow> nat \<Rightarrow> nat \<Rightarrow> nat \<Rightarrow> nodeID list \<Rightarrow> (nodeID \<times> code) list \<Rightarrow>
    decision \<times> nat \<times> nodeID list" where
  "collect needed totalNodes cancelAt received successes failures unavailable [] = (Missed, received, unavailable)"
| "collect needed totalNodes cancelAt received successes failures unavailable ((peerID, c) # results) =
     (if map_option fst cancelAt = Some received then (CallerGone, received, unavailable)
      else
        (let failures' = (if c \<noteq> OK then failures + 1 else failures);
             unavailable' = (if c = Unavailable then unavailable @ [peerID] else unavailable);
             successes' = (if c \<noteq> OK then successes else successes + 1)
         in if successes' \<ge> needed then (Reached, received + 1, unavailable')
            else if totalNodes - failures' < needed then (Missed, received + 1, unavailable')
            else collect needed totalNodes cancelAt (received + 1) successes' failures' unavailable' results))"

fun storeHints ::
  "('p, 'e) persister_ops \<Rightarrow> ('c, 'p) Node \<Rightarrow> string \<Rightarrow> DataItem \<Rightarrow> nodeID list \<Rightarrow> ('c, 'p) Node" where
  "storeHints P n key item [] = n"
| "storeHints P n key item (peerID # peers) =
     storeHints P (n\<lparr>nHints := fst (hintAdd P (nHints n) peerID key item)\<rparr>) key item peers"

definition drainReplication ::
  "('p, 'e) persister_ops \<Rightarrow> ('c, 'p) Node \<Rightarrow> string \<Rightarrow> DataItem \<Rightarrow> (nodeID \<times> code) list \<Rightarrow> nodeID list \<Rightarrow> bool \<Rightarrow> ('c, 'p) Node" where
  "drainReplication P n key item remaining unavailable keep =
     (if drainClosing n then n
      else
        (let unavailable' = unavailable @ map fst (filter (\<lambda>(_, c). c = Unavailable) remaining)
         in if \<not> keep \<or> length unavailable' = 0 then n else storeHints P n key item unavailable'))"

datatype 'e putError =
    LocalReadFailed 'e | LocalWriteFailed | WriteQuorumNotReached "'e option" | PutCanceled code
  | ErrNotReplica | ForwardFailed nodeID code | NoReplicaAccepted

text \<open>\<open>meanwhile\<close> is what other operations do to the store between the local write and the decision.\<close>

definition putAsReplica ::
  "('p, 'e) persister_ops \<Rightarrow> ('c, 'p) Node \<Rightarrow> ClusterView \<Rightarrow> string \<Rightarrow> goValue \<Rightarrow> vclock option \<Rightarrow> nodeID list \<Rightarrow>
    (nodeID \<Rightarrow> 'c replicaIO) \<Rightarrow> nodeID list \<Rightarrow> (nat \<times> code) option \<Rightarrow> ('p DataStore \<Rightarrow> 'p DataStore) \<Rightarrow>
    ('c, 'p) Node \<times> 'e putError option" where
  "putAsReplica P n v key value clientContext peers io order cancelAt meanwhile =
     (case dsGet P (nStore n) key of
        Inl err \<Rightarrow> (n, Some (LocalReadFailed err))
      | Inr (prevVersions, _) \<Rightarrow>
     (case dsPut P (nStore n) key value clientContext of
        (ds, None) \<Rightarrow> (n\<lparr>nStore := ds\<rparr>, Some LocalWriteFailed)
      | (ds, Some item) \<Rightarrow>
          (let needed = qW (quorum n);
               (n1, sent) = fanOut (n\<lparr>nStore := ds\<rparr>) v io peers;
               n2 = n1\<lparr>nStore := meanwhile (nStore n1)\<rparr>;
               results = arrivals order sent
           in if 1 \<ge> needed then (drainReplication P n2 key item results [] True, None)
              else
                (case collect needed (length peers + 1) cancelAt 0 1 0 [] results of
                   (Reached, received, unavailable) \<Rightarrow>
                     (drainReplication P n2 key item (drop received results) unavailable True, None)
                 | (CallerGone, received, unavailable) \<Rightarrow>
                     (drainReplication P n2 key item (drop received results) unavailable True,
                      Some (PutCanceled (case cancelAt of None \<Rightarrow> Canceled | Some (_, c) \<Rightarrow> c)))
                 | (Missed, received, unavailable) \<Rightarrow>
                     (let n3 = n2\<lparr>writeQuorumFailures := writeQuorumFailures n2 + 1\<rparr>;
                          n4 = drainReplication P n3 key item (drop received results) unavailable False;
                          (ds', err) = RestoreVersions P (nStore n4) key prevVersions
                      in (n4\<lparr>nStore := ds'\<rparr>, Some (WriteQuorumNotReached err)))))))"

text \<open>The calls of \<open>CoordinatePut\<close> on the replicas in turn, with their codes.\<close>

fun forwardPut ::
  "('c, 'p) Node \<Rightarrow> ClusterView \<Rightarrow> (nodeID \<Rightarrow> 'c replicaIO) \<Rightarrow> nodeID list \<Rightarrow> ('c, 'p) Node \<times> 'e putError option" where
  "forwardPut n v io [] = (n, Some NoReplicaAccepted)"
| "forwardPut n v io (replicaID # replicas) =
     (if isDead n replicaID then forwardPut n v io replicas
      else
        (case clientFor n v replicaID (rDial (io replicaID)) of
           (n1, Inl _) \<Rightarrow> forwardPut n1 v io replicas
         | (n1, Inr _) \<Rightarrow>
             (let c = rCode (io replicaID)
              in if c = OK then (n1, None)
                 else if c \<noteq> Unavailable \<and> c \<noteq> FailedPrecondition then (n1, Some (ForwardFailed replicaID c))
                 else forwardPut n1 v io replicas)))"

definition nodePut ::
  "('p, 'e) persister_ops \<Rightarrow> ('c, 'p) Node \<Rightarrow> string \<Rightarrow> goValue \<Rightarrow> vclock option \<Rightarrow> (nodeID \<Rightarrow> 'c replicaIO) \<Rightarrow>
    nodeID list \<Rightarrow> (nat \<times> code) option \<Rightarrow> ('p DataStore \<Rightarrow> 'p DataStore) \<Rightarrow> ('c, 'p) Node \<times> 'e putError option" where
  "nodePut P n key value clientContext io order cancelAt meanwhile =
     (let v = membership n; (isReplica, peers) = isReplicaFor n v key
      in if \<not> isReplica then forwardPut n v io peers
         else putAsReplica P n v key value clientContext peers io order cancelAt meanwhile)"

definition CoordinatePut ::
  "('p, 'e) persister_ops \<Rightarrow> ('c, 'p) Node \<Rightarrow> string \<Rightarrow> goValue \<Rightarrow> vclock option \<Rightarrow> (nodeID \<Rightarrow> 'c replicaIO) \<Rightarrow>
    nodeID list \<Rightarrow> (nat \<times> code) option \<Rightarrow> ('p DataStore \<Rightarrow> 'p DataStore) \<Rightarrow> ('c, 'p) Node \<times> 'e putError option" where
  "CoordinatePut P n key value clientContext io order cancelAt meanwhile =
     (let v = membership n; (isReplica, peers) = isReplicaFor n v key
      in if \<not> isReplica then (n, Some ErrNotReplica)
         else putAsReplica P n v key value clientContext peers io order cancelAt meanwhile)"

text \<open>The handler of the RPC (rpc/server.go); a value that does not parse is refused.\<close>

definition serveCoordinatePut ::
  "('p, 'e) persister_ops \<Rightarrow> ('c, 'p) Node \<Rightarrow> string \<Rightarrow> string \<Rightarrow> vclock option \<Rightarrow> (nodeID \<Rightarrow> 'c replicaIO) \<Rightarrow>
    nodeID list \<Rightarrow> (nat \<times> code) option \<Rightarrow> ('p DataStore \<Rightarrow> 'p DataStore) \<Rightarrow> ('c, 'p) Node \<times> code" where
  "serveCoordinatePut P n key val ctx io order cancelAt meanwhile =
     (case unmarshalValue val of
        None \<Rightarrow> (n, InvalidArgument)
      | Some value \<Rightarrow>
          (case CoordinatePut P n key value (contextFromProto ctx) io order cancelAt meanwhile of
             (n', None) \<Rightarrow> (n', OK)
           | (n', Some ErrNotReplica) \<Rightarrow> (n', FailedPrecondition)
           | (n', Some (PutCanceled c)) \<Rightarrow> (n', c)
           | (n', Some _) \<Rightarrow> (n', Internal)))"

record 'c fetchIO =
  fDial :: "'c option"
  fResult :: "code + DataItem list \<times> bool"

definition fetchItem ::
  "('c, 'p) Node \<Rightarrow> ClusterView \<Rightarrow> nodeID \<Rightarrow> 'c fetchIO \<Rightarrow> ('c, 'p) Node \<times> (code + DataItem list \<times> bool)" where
  "fetchItem n v peerID io =
     (case clientFor n v peerID (fDial io) of
        (n1, Inl _) \<Rightarrow> (n1, Inl Unknown)
      | (n1, Inr _) \<Rightarrow> (n1, fResult io))"

definition fetchVote ::
  "('c, 'p) Node \<Rightarrow> ClusterView \<Rightarrow> nodeID \<Rightarrow> 'c fetchIO \<Rightarrow> ('c, 'p) Node \<times> (code + DataItem list)" where
  "fetchVote n v peerID io =
     (if isDead n peerID then (n, Inl Unavailable)
      else
        (case fetchItem n v peerID io of
           (n1, Inl c) \<Rightarrow> (n1, Inl c)
         | (n1, Inr (items, found)) \<Rightarrow> (n1, Inr (if found then items else []))))"

fun fetchAll ::
  "('c, 'p) Node \<Rightarrow> ClusterView \<Rightarrow> (nodeID \<Rightarrow> 'c fetchIO) \<Rightarrow> nodeID list \<Rightarrow>
    ('c, 'p) Node \<times> (nodeID \<times> (code + DataItem list)) list" where
  "fetchAll n v io [] = (n, [])"
| "fetchAll n v io (peerID # peers) =
     (let (n1, r) = fetchVote n v peerID (io peerID);
          (n2, results) = fetchAll n1 v io peers
      in (n2, (peerID, r) # results))"

datatype getError = ReadQuorumNotReached | GetCanceled code

fun readCollect ::
  "nat \<Rightarrow> nat \<Rightarrow> (nat \<times> code) option \<Rightarrow> nat \<Rightarrow> nat \<Rightarrow> nat \<Rightarrow> DataItem list \<Rightarrow> (nodeID \<times> (code + DataItem list)) list \<Rightarrow>
    getError + DataItem list" where
  "readCollect needed totalNodes cancelAt i responses failures merged [] = Inl ReadQuorumNotReached"
| "readCollect needed totalNodes cancelAt i responses failures merged ((peerID, r) # results) =
     (if map_option fst cancelAt = Some i then Inl (GetCanceled (snd (the cancelAt)))
      else
        (let failures' = (case r of Inl _ \<Rightarrow> failures + 1 | Inr _ \<Rightarrow> failures);
             responses' = (case r of Inl _ \<Rightarrow> responses | Inr _ \<Rightarrow> responses + 1);
             merged' = (case r of Inl _ \<Rightarrow> merged | Inr items \<Rightarrow> MergeSiblings merged items)
         in if responses' \<ge> needed then Inr merged'
            else if totalNodes - failures' < needed then Inl ReadQuorumNotReached
            else readCollect needed totalNodes cancelAt (i + 1) responses' failures' merged' results))"

definition nodeGet ::
  "('p, 'e) persister_ops \<Rightarrow> ('c, 'p) Node \<Rightarrow> string \<Rightarrow> (nodeID \<Rightarrow> 'c fetchIO) \<Rightarrow> nodeID list \<Rightarrow> (nat \<times> code) option \<Rightarrow>
    ('c, 'p) Node \<times> (getError + DataItem list)" where
  "nodeGet P n key io order cancelAt =
     (let v = membership n;
          (isReplica, peers) = isReplicaFor n v key;
          totalNodes = (if isReplica then length peers + 1 else length peers);
          local = (if isReplica then Some (dsGet P (nStore n) key) else None);
          merged = (case local of Some (Inr (items, _)) \<Rightarrow> items | _ \<Rightarrow> []);
          responses = (case local of Some (Inr _) \<Rightarrow> 1 | _ \<Rightarrow> 0);
          failures = (case local of Some (Inl _) \<Rightarrow> 1 | _ \<Rightarrow> 0);
          needed = qR (quorum n)
      in if responses \<ge> needed then (n, Inr merged)
         else
           (let (n1, sent) = fetchAll n v io peers;
                r = readCollect needed totalNodes cancelAt 0 responses failures merged (arrivals order sent)
            in (case r of
                  Inl ReadQuorumNotReached \<Rightarrow> n1\<lparr>readQuorumFailures := readQuorumFailures n1 + 1\<rparr>
                | _ \<Rightarrow> n1, r)))"

section \<open>What a request leaves alone\<close>

text \<open>Dialing changes only the cached and retired connections.\<close>

lemma clientFor_frame:
  assumes "clientFor n v p d = (n', r)"
  shows "\<exists>cs rs. n' = n\<lparr>clients := cs, retired := rs\<rparr>"
proof -
  have "n' = n \<or> (\<exists>cs. n' = n\<lparr>clients := cs\<rparr>) \<or> (\<exists>cs rs. n' = n\<lparr>retired := rs, clients := cs\<rparr>)"
    using assms by (auto simp: clientFor_def Let_def split: option.splits if_splits prod.splits)
  then show ?thesis
  proof (elim disjE exE)
    assume "n' = n"
    then show ?thesis by (intro exI [of _ "clients n"] exI [of _ "retired n"]) simp
  next
    fix cs assume "n' = n\<lparr>clients := cs\<rparr>"
    then show ?thesis by (intro exI [of _ cs] exI [of _ "retired n"]) simp
  next
    fix cs rs assume "n' = n\<lparr>retired := rs, clients := cs\<rparr>"
    then show ?thesis by (intro exI [of _ cs] exI [of _ rs]) simp
  qed
qed

lemma clientFor_keeps:
  assumes "clientFor n v p d = (n', r)"
  shows "nID n' = nID n" "nStore n' = nStore n" "nHints n' = nHints n" "quorum n' = quorum n" "health n' = health n"
    "membership n' = membership n" "drainClosing n' = drainClosing n" "membershipDisk n' = membershipDisk n"
  using clientFor_frame [OF assms] by (elim exE; simp)+

lemma isDead_keeps: "health n' = health n \<Longrightarrow> isDead n' p = isDead n p"
  by (simp add: isDead_def)

lemma fanOut_keeps:
  "fanOut n v io peers = (n', rs) \<Longrightarrow>
    nID n' = nID n \<and> nStore n' = nStore n \<and> nHints n' = nHints n \<and> quorum n' = quorum n \<and> health n' = health n \<and>
    drainClosing n' = drainClosing n \<and> membership n' = membership n"
proof (induction peers arbitrary: n n' rs)
  case (Cons p peers)
  obtain n1 c where step: "(if isDead n p then (n, Unavailable) else replicateTo n v p (io p)) = (n1, c)" by fastforce
  obtain n2 rs2 where rest: "fanOut n1 v io peers = (n2, rs2)" by fastforce
  have "nID n1 = nID n \<and> nStore n1 = nStore n \<and> nHints n1 = nHints n \<and> quorum n1 = quorum n \<and> health n1 = health n \<and>
      drainClosing n1 = drainClosing n \<and> membership n1 = membership n"
    using step by (auto simp: replicateTo_def dest: clientFor_keeps split: if_splits prod.splits sum.splits)
  with Cons.IH [OF rest] Cons.prems step rest show ?case by simp
qed simp

lemma fanOut_results:
  "fanOut n v io peers = (n', rs) \<Longrightarrow> map fst rs = peers \<and> (\<forall>p c. (p, c) \<in> set rs \<longrightarrow>
    (c = OK \<longrightarrow> rCode (io p) = OK) \<and> (isDead n p \<longrightarrow> c = Unavailable))"
proof (induction peers arbitrary: n n' rs)
  case (Cons p peers)
  obtain n1 c where step: "(if isDead n p then (n, Unavailable) else replicateTo n v p (io p)) = (n1, c)" by fastforce
  obtain n2 rs2 where rest: "fanOut n1 v io peers = (n2, rs2)" by fastforce
  have rs: "rs = (p, c) # rs2" using Cons.prems step rest by simp
  have "health n1 = health n"
    using step by (auto simp: replicateTo_def dest: clientFor_keeps split: if_splits prod.splits sum.splits)
  then have "isDead n1 q = isDead n q" for q by (rule isDead_keeps)
  moreover have "(c = OK \<longrightarrow> rCode (io p) = OK) \<and> (isDead n p \<longrightarrow> c = Unavailable)"
    using step by (auto simp: replicateTo_def split: if_splits prod.splits sum.splits)
  ultimately show ?case using Cons.IH [OF rest] rs by auto
qed simp

lemma fetchAll_results:
  "fetchAll n v io peers = (n', rs) \<Longrightarrow> map fst rs = peers \<and> (\<forall>p items. (p, Inr items) \<in> set rs \<longrightarrow>
    (\<exists>its found. fResult (io p) = Inr (its, found) \<and> items = (if found then its else [])))"
proof (induction peers arbitrary: n n' rs)
  case (Cons p peers)
  obtain n1 r where step: "fetchVote n v p (io p) = (n1, r)" by fastforce
  obtain n2 rs2 where rest: "fetchAll n1 v io peers = (n2, rs2)" by fastforce
  have rs: "rs = (p, r) # rs2" using Cons.prems step rest by simp
  have "\<exists>its found. fResult (io p) = Inr (its, found) \<and> items = (if found then its else [])" if "r = Inr items" for items
    using step that by (auto simp: fetchVote_def fetchItem_def split: if_splits prod.splits sum.splits)
  then show ?case using Cons.IH [OF rest] rs by auto
qed simp

lemma arrivals_mem: "x \<in> set (arrivals order rs) \<Longrightarrow> x \<in> set rs"
  by (auto simp: arrivals_def dest: map_of_SomeD [OF sym] map_of_SomeD split: option.splits)

lemma arrivals_fst: "fst x \<in> set order" if "x \<in> set (arrivals order rs)"
  using that by (auto simp: arrivals_def split: option.splits)

lemma distinct_arrivals: "distinct order \<Longrightarrow> distinct (map fst (arrivals order rs))"
proof (induction order)
  case (Cons i order)
  have "i \<notin> fst ` set (arrivals order rs)" using Cons.prems arrivals_fst by fastforce
  then show ?case using Cons by (auto simp: arrivals_def split: option.splits)
qed (simp add: arrivals_def)

section \<open>Counting votes\<close>

lemma collect_reached:
  "collect needed tot ca k s f un rs = (Reached, k', un') \<Longrightarrow> needed \<le> s + length (filter (\<lambda>x. snd x = OK) rs)"
proof (induction needed tot ca k s f un rs rule: collect.induct)
  case (2 needed tot ca k s f un p c rs)
  then show ?case by (auto simp: Let_def split: if_splits)
qed simp

lemma readCollect_reached:
  "readCollect needed tot ca i r f m rs = Inr items \<Longrightarrow> distinct (map fst rs) \<Longrightarrow>
    \<exists>used. set used \<subseteq> set rs \<and> distinct (map fst used) \<and> needed \<le> r + length used \<and>
      (\<forall>x \<in> set used. \<exists>its. snd x = Inr its \<and> (\<forall>c. covers its c \<longrightarrow> covers items c)) \<and>
      (\<forall>c. covers m c \<longrightarrow> covers items c)"
proof (induction rs arbitrary: i r f m)
  case (Cons x rs)
  obtain p v where x: "x = (p, v)" by fastforce
  show ?case
  proof (cases v)
    case (Inl c)
    then have "readCollect needed tot ca (i + 1) r (f + 1) m rs = Inr items \<or> needed \<le> r \<and> items = m"
      using Cons.prems(1) x by (auto simp: Let_def split: if_splits)
    then show ?thesis
    proof
      assume "readCollect needed tot ca (i + 1) r (f + 1) m rs = Inr items"
      from Cons.IH [OF this] Cons.prems(2) obtain used where "set used \<subseteq> set rs" "distinct (map fst used)" "needed \<le> r + length used"
        "\<forall>x \<in> set used. \<exists>its. snd x = Inr its \<and> (\<forall>c. covers its c \<longrightarrow> covers items c)" "\<forall>c. covers m c \<longrightarrow> covers items c"
        by auto
      then show ?thesis by (intro exI [of _ used]) auto
    qed (auto intro: exI [of _ "[]"])
  next
    case (Inr its)
    let ?m = "MergeSiblings m its"
    have cov: "covers ?m c \<longleftrightarrow> covers m c \<or> covers its c" for c by (auto simp: covers_Merge)
    have "readCollect needed tot ca (i + 1) (r + 1) f ?m rs = Inr items \<or> needed \<le> r + 1 \<and> items = ?m"
      using Cons.prems(1) x Inr by (auto simp: Let_def split: if_splits)
    then obtain used where u: "set used \<subseteq> set rs" "distinct (map fst used)" "needed \<le> r + 1 + length used"
        "\<forall>x \<in> set used. \<exists>its. snd x = Inr its \<and> (\<forall>c. covers its c \<longrightarrow> covers items c)" "\<forall>c. covers ?m c \<longrightarrow> covers items c"
    proof
      assume "readCollect needed tot ca (i + 1) (r + 1) f ?m rs = Inr items"
      from Cons.IH [OF this] Cons.prems(2) that show thesis by auto
    next
      assume "needed \<le> r + 1 \<and> items = ?m"
      then show thesis using that [of "[]"] by simp
    qed
    have "p \<notin> fst ` set used" using u(1) Cons.prems(2) x by auto
    then show ?thesis using u cov x Inr by (intro exI [of _ "x # used"]) auto
  qed
qed simp

section \<open>Preference lists\<close>

lemma preferenceWalk_distinct: "distinct pl \<Longrightarrow> distinct (preferenceWalk hr i rf is pl)"
  by (induction hr i rf "is" pl rule: preferenceWalk.induct) (auto simp: Let_def)

lemma preferenceWalk_length: "length pl < rf \<Longrightarrow> length (preferenceWalk hr i rf is pl) \<le> rf"
  by (induction hr i rf "is" pl rule: preferenceWalk.induct) (auto simp: Let_def)

lemma preferenceList_bounds: "distinct (GetPreferenceList hr key rf)" "0 < rf \<Longrightarrow> length (GetPreferenceList hr key rf) \<le> rf"
  by (simp_all add: GetPreferenceList_def Let_def preferenceWalk_distinct preferenceWalk_length)

section \<open>Stores that other operations go on writing to\<close>

text \<open>
  What may happen to a store whose key is not rolled back: writes of any key, acknowledged or failed,
  and steps that change no version (flushes and compactions, for the storage engine).
\<close>

inductive grows :: "('p, 'e) persister_ops \<Rightarrow> ('p \<Rightarrow> bool) \<Rightarrow> ('p \<Rightarrow> string \<Rightarrow> DataItem list) \<Rightarrow> (string \<Rightarrow> DataItem \<Rightarrow> bool) \<Rightarrow>
    'p DataStore \<Rightarrow> 'p DataStore \<Rightarrow> bool" for P pinv pview fits where
  grows_refl: "grows P pinv pview fits ds ds"
| grows_put: "grows P pinv pview fits ds ds1 \<Longrightarrow> fits k i \<Longrightarrow> pPut P (persister ds1) k i = (p, err) \<Longrightarrow>
    grows P pinv pview fits ds (ds1\<lparr>persister := p\<rparr>)"
| grows_background: "grows P pinv pview fits ds ds1 \<Longrightarrow> pinv p \<Longrightarrow> (\<And>k. pview p k = pview (persister ds1) k) \<Longrightarrow>
    grows P pinv pview fits ds (ds1\<lparr>persister := p\<rparr>)"

lemma grows_covers:
  assumes "persistence P pinv pview fits" "grows P pinv pview fits ds ds'" "pinv (persister ds)"
  shows "pinv (persister ds') \<and> (\<forall>c. covers (pview (persister ds) key) c \<longrightarrow> covers (pview (persister ds') key) c)"
  using assms(2,3)
proof induction
  case grows_refl
  then show ?case by simp
next
  case (grows_put ds ds1 k i p err)
  then have inv: "pinv (persister ds1)" and ih: "\<forall>c. covers (pview (persister ds) key) c \<longrightarrow> covers (pview (persister ds1) key) c"
    by blast+
  have "covers (pview p key) c" if "covers (pview (persister ds1) key) c" for c
  proof (cases "k = key")
    case True
    show ?thesis
    proof (cases err)
      case None
      then show ?thesis
        using that True persistence.put_covers [OF assms(1) inv grows_put.hyps(2), of p c] grows_put.hyps(3) by simp
    next
      case (Some e)
      then show ?thesis
        using that True persistence.put_failed [OF assms(1) inv grows_put.hyps(2), of p e] grows_put.hyps(3) by simp
    qed
  next
    case False
    then show ?thesis using that persistence.put_other [OF assms(1) inv grows_put.hyps(2,3), of key] by simp
  qed
  moreover have "pinv p" by (rule persistence.put_inv [OF assms(1) inv grows_put.hyps(2,3)])
  ultimately show ?case using ih by simp
next
  case (grows_background ds ds1 p)
  then show ?case by simp
qed

section \<open>A write leaves its version behind\<close>

lemma dsPut_put:
  assumes "dsPut P ds key val ctx = (ds', Some item)"
  shows "\<exists>p. pPut P (persister ds) key item = (p, None) \<and> ds' = ds\<lparr>persister := p\<rparr>"
  using assms by (auto simp: dsPut_def Let_def split: option.splits sum.splits prod.splits if_splits)

lemma storeHints_keeps:
  "nStore (storeHints P n key item peers) = nStore n" "nID (storeHints P n key item peers) = nID n"
  by (induction peers arbitrary: n) simp_all

lemma drain_keeps [simp]:
  "nStore (drainReplication P n key item rem un keep) = nStore n" "nID (drainReplication P n key item rem un keep) = nID n"
  by (simp_all add: drainReplication_def storeHints_keeps Let_def)

text \<open>The votes behind an acknowledged write: the writer's own and those of the peers that answered OK.\<close>

lemma put_votes:
  assumes put: "putAsReplica P n v key val ctx peers io order ca meanwhile = (n', None)"
    and item: "dsPut P (nStore n) key val ctx = (ds, Some item)" and "distinct order" "set order \<subseteq> set peers"
  shows "nStore n' = meanwhile ds \<and> (\<exists>A. A \<subseteq> {p \<in> set peers. rCode (io p) = OK} \<and> qW (quorum n) \<le> card A + 1)"
proof -
  obtain prev f where get: "dsGet P (nStore n) key = Inr (prev, f)"
    using put by (auto simp: putAsReplica_def split: sum.splits)
  obtain n1 sent where fan: "fanOut (n\<lparr>nStore := ds\<rparr>) v io peers = (n1, sent)" by fastforce
  have keep: "nStore n1 = ds" using fanOut_keeps [OF fan] by simp
  define results where "results = arrivals order sent"
  define A where "A = fst ` {x \<in> set results. snd x = OK}"
  have d: "distinct (map fst results)" using assms(3) by (simp add: results_def distinct_arrivals)
  have sub: "A \<subseteq> {p \<in> set peers. rCode (io p) = OK}"
    using fanOut_results [OF fan] arrivals_mem arrivals_fst assms(4)
    unfolding A_def results_def by (smt (verit, best) Collect_mem_eq Collect_mono_iff image_iff mem_Collect_eq prod.collapse subset_iff)
  have "inj_on fst {x \<in> set results. snd x = OK}" using d by (auto simp: distinct_map intro: inj_on_subset)
  then have "card A = card {x \<in> set results. snd x = OK}" unfolding A_def by (rule card_image)
  also have "\<dots> = length (filter (\<lambda>x. snd x = OK) results)"
    using d by (metis distinct_card distinct_filter distinct_map set_filter)
  finally have card: "card A = length (filter (\<lambda>x. snd x = OK) results)" .
  have "nStore n' = meanwhile ds \<and> qW (quorum n) \<le> card A + 1"
  proof (cases "qW (quorum n) \<le> 1")
    case True
    then show ?thesis using put get item fan keep by (auto simp: putAsReplica_def Let_def)
  next
    case False
    obtain dec k un where c: "collect (qW (quorum n)) (length peers + 1) ca 0 1 0 [] results = (dec, k, un)" by (metis prod_cases3)
    have "dec = Reached \<and> nStore n' = meanwhile ds"
      using put get item fan keep False c by (auto simp: putAsReplica_def Let_def results_def split: decision.splits prod.splits)
    then show ?thesis using c card collect_reached by fastforce
  qed
  then show ?thesis using sub by blast
qed

text \<open>The votes behind a read.\<close>

lemma get_votes:
  assumes get: "nodeGet P b key fio order ca = (b', Inr items)" and "distinct order"
    and pl: "GetPreferenceList (vRing (membership b)) key (qN (quorum b)) = pl"
  defines "vote \<equiv> \<lambda>x its. if x = nID b then \<exists>f. dsGet P (nStore b) key = Inr (its, f)
    else \<exists>its' f. fResult (fio x) = Inr (its', f) \<and> its = (if f then its' else [])"
  shows "\<exists>R. R \<subseteq> set pl \<and> finite R \<and> qR (quorum b) \<le> card R \<and>
    (\<forall>x \<in> R. \<exists>its. vote x its \<and> (\<forall>c. covers its c \<longrightarrow> covers items c))"
proof -
  define peers where "peers = filter (\<lambda>i. i \<noteq> nID b) pl"
  have rep: "isReplicaFor b (membership b) key = (nID b \<in> set pl, peers)"
    by (simp add: isReplicaFor_def pl peers_def)
  let ?local = "if nID b \<in> set pl then Some (dsGet P (nStore b) key) else None"
  define merged where "merged = (case ?local of Some (Inr (its, _)) \<Rightarrow> its | _ \<Rightarrow> [])"
  define rs :: nat where "rs = (case ?local of Some (Inr _) \<Rightarrow> 1 | _ \<Rightarrow> 0)"
  define fs :: nat where "fs = (case ?local of Some (Inl _) \<Rightarrow> 1 | _ \<Rightarrow> 0)"
  define L where "L = (if rs = 1 then {nID b} else {})"
  have L: "L \<subseteq> set pl" "card L = rs" "finite L" "x \<in> L \<Longrightarrow> x = nID b \<and> vote x merged" for x
    by (auto simp: L_def rs_def vote_def merged_def split: if_splits option.splits sum.splits)
  obtain n1 sent where f: "fetchAll b (membership b) fio peers = (n1, sent)" by fastforce
  note fr = fetchAll_results [OF f]
  show ?thesis
  proof (cases "qR (quorum b) \<le> rs")
    case True
    then have "items = merged" using get rep unfolding nodeGet_def rs_def merged_def by (auto simp: Let_def split: if_splits)
    then show ?thesis using True L by (intro exI [of _ L]) auto
  next
    case False
    then have "\<exists>tot. readCollect (qR (quorum b)) tot ca 0 rs fs merged (arrivals order sent) = Inr items"
      using get rep f unfolding nodeGet_def rs_def fs_def merged_def by (auto simp: Let_def split: if_splits)
    then obtain tot where "readCollect (qR (quorum b)) tot ca 0 rs fs merged (arrivals order sent) = Inr items" by blast
    from readCollect_reached [OF this distinct_arrivals [OF assms(2)]]
    obtain used where u: "set used \<subseteq> set (arrivals order sent)" "distinct (map fst used)" "qR (quorum b) \<le> rs + length used"
      "\<forall>x \<in> set used. \<exists>its. snd x = Inr its \<and> (\<forall>c. covers its c \<longrightarrow> covers items c)"
      "\<forall>c. covers merged c \<longrightarrow> covers items c" by blast
    have us: "x \<in> set sent" if "x \<in> set used" for x using that u(1) arrivals_mem by blast
    have fp: "fst x \<in> set peers" if "x \<in> set used" for x using us [OF that] fr by (metis image_eqI list.set_map)
    have "card (fst ` set used) = length used" using u(2) by (metis distinct_card length_map list.set_map)
    moreover have "L \<inter> fst ` set used = {}" using fp L(4) by (auto simp: peers_def)
    ultimately have "qR (quorum b) \<le> card (L \<union> fst ` set used)" using u(3) L(2,3) by (simp add: card_Un_disjoint)
    moreover have "\<exists>its. vote (fst x) its \<and> (\<forall>c. covers its c \<longrightarrow> covers items c)" if xu: "x \<in> set used" for x
    proof -
      obtain its where its: "snd x = Inr its" "\<forall>c. covers its c \<longrightarrow> covers items c" using bspec [OF u(4) xu] by (elim exE conjE)
      then have "(fst x, Inr its) \<in> set sent" using us [OF that] by (cases x) simp
      from fr [THEN conjunct2, rule_format, OF this]
      have "vote (fst x) its" using fp [OF that] by (simp add: peers_def vote_def)
      then show ?thesis using its(2) by (intro exI conjI)
    qed
    moreover have "L \<union> fst ` set used \<subseteq> set pl" using L(1) fp by (auto simp: peers_def)
    moreover have "\<exists>its. vote x its \<and> (\<forall>c. covers its c \<longrightarrow> covers items c)" if "x \<in> L" for x
      using L(4) [OF that, THEN conjunct2] u(5) by (intro exI [of _ merged] conjI)
    ultimately show ?thesis using L(3) by (intro exI [of _ "L \<union> fst ` set used"]) (simp add: ball_Un)
  qed
qed

section \<open>Properties\<close>


text \<open>Two nodes on a ring with one virtual node each, with empty stores.\<close>

definition demoView :: ClusterView where
  "demoView = \<lparr>vEpoch = 0, vFingerprint = [], vMembers = fmupd ''m'' ''h:2'' (fmupd ''n'' ''h:1'' fmempty),
     vRing = (case NewHashRingFromMembers 1 [''m'', ''n''] of Inr hr \<Rightarrow> hr | Inl _ \<Rightarrow> NewHashRing 1)\<rparr>"

definition demoNode :: "nodeID \<Rightarrow> 'p DataStore \<Rightarrow> 'p HintStore \<Rightarrow> (unit, 'p) Node" where
  "demoNode i ds hs = newNode i i ''h:0'' 2 2 1 demoView demoView ds hs Missing Missing"

lemma demoView_list: "GetPreferenceList (vRing demoView) ''k'' 2 = [''m'', ''n'']"
  by code_simp

lemma demoNode_simps [simp]:
  "nID (demoNode i ds hs) = i" "nStore (demoNode i ds hs) = ds" "membership (demoNode i ds hs) = demoView"
  "qN (quorum (demoNode i ds hs)) = 2" "qW (quorum (demoNode i ds hs)) = 2" "qR (quorum (demoNode i ds hs)) = 1"
  "health (demoNode i ds hs) = fmempty" "clients (demoNode i ds hs) = fmempty" "clientsClosed (demoNode i ds hs) = False"
  "drainClosing (demoNode i ds hs) = False" "nHints (demoNode i ds hs) = hs"
  by (simp_all add: demoNode_def newNode_def NewQuorumConfig_def)

lemma freshStore_get: "dsGet (enginePersister alTree bitFilter) freshStore ''k'' = Inr ([], False)"
  using worldOk_GetAll [OF freshWorld_ok, of "''k''"]
  by (simp add: dsGet_def dsLoad_def enginePersister_def reversed_def freshWorld_view)

lemma demo_put:
  assumes "dsPut (enginePersister alTree bitFilter) freshStore ''k'' JNull None = (ds, Some nullItem)"
  shows "\<exists>n'. putAsReplica (enginePersister alTree bitFilter) (demoNode ''n'' freshStore hs) demoView ''k'' JNull None [''m'']
      (\<lambda>_. \<lparr>rDial = Some (), rCode = OK\<rparr>) [''m''] None id = (n', None) \<and> nStore n' = ds"
proof -
  let ?n = "(demoNode ''n'' freshStore hs)\<lparr>nStore := ds\<rparr>"
  have "clientFor ?n demoView ''m'' (Some ()) = (?n\<lparr>clients := fmupd ''m'' (''h:2'', ()) fmempty\<rparr>, Inr ())"
    by (simp add: clientFor_def demoView_def)
  then have "fanOut ?n demoView (\<lambda>_. \<lparr>rDial = Some (), rCode = OK\<rparr>) [''m''] =
      (?n\<lparr>clients := fmupd ''m'' (''h:2'', ()) fmempty\<rparr>, [(''m'', OK)])"
    by (simp add: replicateTo_def isDead_def)
  then show ?thesis
    using assms freshStore_get by (simp add: putAsReplica_def arrivals_def drainReplication_def)
qed


end
