(* ===== verification/Writes.thy ===== *)
theory Writes
  imports Coordinate
begin

text \<open>
  What becomes of a write that is forwarded, that misses its quorum, or whose replicas are
  unreachable (src/internal/node/coordinate.go): a forwarded write is versioned at most once, a missed
  quorum leaves the key as it was, and a write that stands leaves a hint for each unreachable replica.
\<close>

section \<open>Forwarding\<close>

text \<open>The replicas on which \<open>CoordinatePut\<close> is called.\<close>

fun contacted :: "('c, 'p) Node \<Rightarrow> ClusterView \<Rightarrow> (nodeID \<Rightarrow> 'c replicaIO) \<Rightarrow> nodeID list \<Rightarrow> nodeID list" where
  "contacted n v io [] = []"
| "contacted n v io (r # rs) =
     (if isDead n r then contacted n v io rs
      else
        (case clientFor n v r (rDial (io r)) of
           (n1, Inl _) \<Rightarrow> contacted n1 v io rs
         | (n1, Inr _) \<Rightarrow>
             r # (if rCode (io r) = Unavailable \<or> rCode (io r) = FailedPrecondition then contacted n1 v io rs else [])))"

lemma contacted_subset: "set (contacted n v io rs) \<subseteq> set rs"
proof (induction rs arbitrary: n)
  case (Cons a rs)
  obtain n1 x where x: "clientFor n v a (rDial (io a)) = (n1, x)" by fastforce
  show ?case using Cons.IH [of n] Cons.IH [of n1] x by (cases x) (auto split: if_splits)
qed simp

lemma contacted_butlast:
  "r \<in> set (butlast (contacted n v io rs)) \<Longrightarrow> rCode (io r) = Unavailable \<or> rCode (io r) = FailedPrecondition"
proof (induction rs arbitrary: n)
  case (Cons a rs)
  obtain n1 x where x: "clientFor n v a (rDial (io a)) = (n1, x)" by fastforce
  show ?case using Cons.IH [of n] Cons.IH [of n1] Cons.prems x by (cases x) (auto split: if_splits)
qed simp

lemma forwardPut_result:
  "snd (forwardPut n v io rs) =
    (if contacted n v io rs = [] then Some NoReplicaAccepted
     else let r = last (contacted n v io rs); c = rCode (io r)
       in if c = OK then None else if c = Unavailable \<or> c = FailedPrecondition then Some NoReplicaAccepted
          else Some (ForwardFailed r c))"
proof (induction rs arbitrary: n)
  case (Cons a rs)
  obtain n1 x where x: "clientFor n v a (rDial (io a)) = (n1, x)" by fastforce
  show ?case using Cons.IH [of n] Cons.IH [of n1] x by (cases x) (auto simp: Let_def split: if_splits)
qed simp

lemma serveCoordinatePut_codes:
  assumes "serveCoordinatePut P n key val ctx io order ca meanwhile = (n', c)"
    and "map_option snd ca \<noteq> Some Unavailable" "map_option snd ca \<noteq> Some FailedPrecondition"
  shows "c \<noteq> Unavailable \<and> (c = FailedPrecondition \<longrightarrow> n' = n)"
proof -
  have never: "e \<noteq> PutCanceled Unavailable \<and> e \<noteq> PutCanceled FailedPrecondition \<and> e \<noteq> ErrNotReplica"
    if "putAsReplica P n v key w ct peers io order ca meanwhile = (n1, Some e)" for v w ct peers n1 e
    using that assms(2,3)
    by (auto simp: putAsReplica_def Let_def split: sum.splits prod.splits option.splits if_splits decision.splits)
  show ?thesis using assms(1)
    by (auto simp: serveCoordinatePut_def CoordinatePut_def Let_def dest: never
        split: option.splits prod.splits if_splits putError.splits)
qed

section \<open>Missed quorums and hints\<close>

text \<open>The codes of a fan-out on which every dial succeeds.\<close>

definition peerCode :: "('c, 'p) Node \<Rightarrow> (nodeID \<Rightarrow> 'c replicaIO) \<Rightarrow> nodeID \<Rightarrow> code" where
  "peerCode n io p = (if isDead n p then Unavailable else rCode (io p))"

lemma clientFor_dialed:
  assumes "fmlookup (vMembers v) p \<noteq> None" "\<not> clientsClosed n" "d \<noteq> None"
  shows "\<exists>n1 c. clientFor n v p d = (n1, Inr c) \<and> \<not> clientsClosed n1 \<and> health n1 = health n"
  using assms by (auto simp: clientFor_def Let_def split: option.splits)

lemma fanOut_codes:
  assumes "\<And>p. p \<in> set peers \<Longrightarrow> fmlookup (vMembers v) p \<noteq> None \<and> rDial (io p) \<noteq> None" "\<not> clientsClosed n"
  shows "snd (fanOut n v io peers) = map (\<lambda>p. (p, peerCode n io p)) peers"
  using assms
proof (induction peers arbitrary: n)
  case (Cons p peers)
  show ?case
  proof (cases "isDead n p")
    case True
    then show ?thesis using Cons by (simp add: peerCode_def split_def)
  next
    case False
    obtain n1 c where c: "clientFor n v p (rDial (io p)) = (n1, Inr c)" "\<not> clientsClosed n1" "health n1 = health n"
      using clientFor_dialed [of v p n "rDial (io p)"] Cons.prems by auto
    have "peerCode n1 io q = peerCode n io q" for q using c(3) by (simp add: peerCode_def isDead_def)
    then show ?thesis using Cons.IH [of n1] Cons.prems(1) c False
      by (simp add: replicateTo_def split_def) (simp add: peerCode_def)
  qed
qed simp

lemma arrivals_perm: "set order \<subseteq> set peers \<Longrightarrow> arrivals order (map (\<lambda>p. (p, f p)) peers) = map (\<lambda>p. (p, f p)) order"
proof (induction order)
  case (Cons p order)
  then have "map_of (map (\<lambda>p. (p, f p)) peers) p = Some (f p)" by (simp add: map_of_map_restrict)
  then show ?case using Cons by (simp add: arrivals_def)
qed (simp add: arrivals_def)

abbreviation unavailableOf :: "(nodeID \<times> code) list \<Rightarrow> nodeID list" where
  "unavailableOf rs \<equiv> map fst (filter (\<lambda>(_, c). c = Unavailable) rs)"

lemma collect_unavailable:
  "collect needed tot ca k s f un rs = (dec, k', un') \<Longrightarrow> un' @ unavailableOf (drop (k' - k) rs) = un @ unavailableOf rs \<and> k \<le> k'"
proof (induction needed tot ca k s f un rs rule: collect.induct)
  case (2 needed tot ca k s f un p c rs)
  let ?un = "if c = Unavailable then un @ [p] else un"
  consider (stop) "dec = CallerGone" "k' = k" "un' = un" | (one) "k' = k + 1" "un' = ?un"
    | (more) "\<not> map_option fst ca = Some k"
      "\<not> needed \<le> (if c \<noteq> OK then s else s + 1)" "\<not> tot - (if c \<noteq> OK then f + 1 else f) < needed"
      "collect needed tot ca (k + 1) (if c \<noteq> OK then s else s + 1) (if c \<noteq> OK then f + 1 else f) ?un rs = (dec, k', un')"
    using "2.prems" by (auto simp: Let_def split: if_splits)
  then show ?case
  proof cases
    case more
    note ih = "2.IH" [OF more(1) refl refl refl more(2,3,4)]
    then have "drop (k' - k) ((p, c) # rs) = drop (k' - (k + 1)) rs" by (simp add: drop_Cons')
    with ih show ?thesis by (auto split: if_splits)
  qed auto
qed auto

lemma storeHints_foldl:
  "nHints (storeHints P n key item peers) = foldl (\<lambda>h p. fst (hintAdd P h p key item)) (nHints n) peers"
  by (induction peers arbitrary: n) simp_all

lemma fanOut_counters: "fanOut n v io peers = (n', rs) \<Longrightarrow> writeQuorumFailures n' = writeQuorumFailures n"
proof (induction peers arbitrary: n n' rs)
  case (Cons p peers)
  obtain n1 c where step: "(if isDead n p then (n, Unavailable) else replicateTo n v p (io p)) = (n1, c)" by fastforce
  obtain n2 rs2 where rest: "fanOut n1 v io peers = (n2, rs2)" by fastforce
  have "writeQuorumFailures n1 = writeQuorumFailures n"
    using step by (auto simp: replicateTo_def dest!: clientFor_frame split: if_splits prod.splits sum.splits)
  with Cons.IH [OF rest] Cons.prems step rest show ?case by simp
qed simp

lemma drain_counters: "writeQuorumFailures (drainReplication P n key item rem un keep) = writeQuorumFailures n"
proof -
  have "writeQuorumFailures (storeHints P n key item ps) = writeQuorumFailures n" for ps
    by (induction ps arbitrary: n) simp_all
  then show ?thesis by (simp add: drainReplication_def Let_def)
qed

lemma drain_hints:
  "nHints (drainReplication P n key item rem un keep) =
    (if drainClosing n \<or> \<not> keep then nHints n else foldl (\<lambda>h p. fst (hintAdd P h p key item)) (nHints n) (un @ unavailableOf rem))"
  by (auto simp: drainReplication_def Let_def storeHints_foldl simp del: foldl_append)

section \<open>Properties\<close>




lemma nullItem_small: "\<not> snd (mtPut alTree (mtNew alTree 1000) ''k'' nullItem)"
  by (simp add: mtPut_def mtReplaceSet_def mtNew_def mtCurrent_def alTree_def nullItem_def setSize_def estimatedSize_def Resolve_eq covers_def Let_def)

lemma freshPut_state:
  assumes "pPut (enginePersister alTree bitFilter) (freshWorld, \<lambda>_. commitFine) ''k'' nullItem = ((w, ios), None)"
  shows "ios = (\<lambda>_. commitFine)" "flushing (eng w) = None" "sstables (eng w) = []" "haltCause (eng w) = None" "\<not> writesClosed (eng w)"
  using assms nullItem_small
  by (auto simp: enginePersister_def engPut_def engWrite_def commit_def haltErr_def logWriteBatch_def WriteBatch_def
        writeAndSync_def fileWrite_def fileSync_def commitFine_def engApply_def newReq_def Let_def afterWrite_def
        split: prod.splits if_splits)

lemma restore_empty:
  assumes "flushing (eng w) = None" "sstables (eng w) = []" "haltCause (eng w) = None" "\<not> writesClosed (eng w)"
    and "alInv (tree (active (eng w)))"
  shows "\<exists>p. pRestore (enginePersister alTree bitFilter) (w, \<lambda>_. commitFine) k [] = (p, None)"
proof -
  obtain e' job err where r: "engRestore alTree bitFilter (eng w) k [] commitFine = (e', job, err)"
    by (metis prod_cases3)
  have act: "active e' = mtReplace alTree (active (eng w)) k []" "flushing e' = None" "sstables e' = []"
    "err = (case engGetAll alTree bitFilter e' k of Inl x \<Rightarrow> Some (VerifyFailed x)
     | Inr (visible, _) \<Rightarrow> if visible = [] then None else Some ErrRestoreIncomplete)"
    using r assms(1-4) by (auto simp: engRestore_def engWrite_def haltErr_def commit_def newReq_def engApply_def Let_def
        replaceAndVerify_def logWriteBatch_def WriteBatch_def writeAndSync_def fileWrite_def fileSync_def
        commitFine_def sameVersions_def engGetAll_def split: prod.splits sum.splits)
  have "engGetAll alTree bitFilter e' k = Inr ([], False)"
    by (subst GetAll_layers) (simp_all add: layers_def act(1-3) al.current_Replace assms(5))
  then have "err = None" using act(4) by simp
  then show ?thesis using r by (simp add: enginePersister_def)
qed


text \<open>
  C3: Hints for unreachable replicas. When the local write stands, because the quorum was reached or
  the caller gave up, a hint is stored for each replica that is marked dead or answered Unavailable,
  once, whether its result came before the decision or after it, and for no other; after a rollback or
  once the node is closing none is stored. \<open>order\<close> is the order in which the results arrive.
\<close>

theorem hints_for_unavailable:
  assumes "putAsReplica P n v key val ctx peers io order ca meanwhile = (n', res)"
    and "dsGet P (nStore n) key = Inr prev" "dsPut P (nStore n) key val ctx = (ds, Some item)"
    and "\<And>p. p \<in> set peers \<Longrightarrow> fmlookup (vMembers v) p \<noteq> None \<and> rDial (io p) \<noteq> None" "\<not> clientsClosed n"
    and "set order \<subseteq> set peers"
  shows "nHints n' =
    (if drainClosing n \<or> (\<exists>err. res = Some (WriteQuorumNotReached err)) then nHints n
     else foldl (\<lambda>h p. fst (hintAdd P h p key item)) (nHints n) (filter (\<lambda>p. peerCode n io p = Unavailable) order))"
proof -
  obtain n1 sent where fan: "fanOut (n\<lparr>nStore := ds\<rparr>) v io peers = (n1, sent)" by fastforce
  note keep = fanOut_keeps [OF fan]
  have "peerCode (n\<lparr>nStore := ds\<rparr>) io = peerCode n io" by (simp add: peerCode_def isDead_def fun_eq_iff)
  then have "sent = map (\<lambda>p. (p, peerCode n io p)) peers"
    using fanOut_codes [where n = "n\<lparr>nStore := ds\<rparr>" and peers = peers and v = v and io = io] assms(4,5) fan by simp
  then have rs: "arrivals order sent = map (\<lambda>p. (p, peerCode n io p)) order" using arrivals_perm [OF assms(6)] by simp
  let ?rs = "arrivals order sent"
  have un: "unavailableOf ?rs = filter (\<lambda>p. peerCode n io p = Unavailable) order"
    unfolding rs by (induction order) auto
  obtain dec k us where c: "collect (qW (quorum n)) (length peers + 1) ca 0 1 0 [] ?rs = (dec, k, us)" by (metis prod_cases3)
  have split: "us @ unavailableOf (drop k ?rs) = unavailableOf ?rs" using collect_unavailable [OF c] by simp
  obtain ps f where prev: "prev = (ps, f)" by fastforce
  show ?thesis
    using assms(1-3) fan keep c split un prev
    by (auto simp: putAsReplica_def Let_def drain_hints simp del: foldl_append
        split: if_splits prod.splits decision.splits)
qed

theorem hints_for_unavailable_witness:
  "\<exists>n'. putAsReplica (enginePersister alTree bitFilter) (demoNode ''n'' freshStore freshHints) demoView ''k'' JNull None
       [''m''] (\<lambda>_. \<lparr>rDial = Some (), rCode = Unavailable\<rparr>) [''m''] (Some (0, Canceled)) id = (n', Some (PutCanceled Canceled)) \<and>
     nHints n' = fst (hintAdd (enginePersister alTree bitFilter) freshHints ''m'' ''k'' nullItem)"
proof -
  let ?P = "enginePersister alTree bitFilter" and ?io = "\<lambda>_ :: nodeID. \<lparr>rDial = Some (), rCode = Unavailable\<rparr>"
    and ?n = "demoNode ''n'' freshStore freshHints"
  obtain ds where put: "dsPut ?P freshStore ''k'' JNull None = (ds, Some nullItem)" using freshStore_put by blast
  obtain n' res where n': "putAsReplica ?P ?n demoView ''k'' JNull None [''m''] ?io [''m''] (Some (0, Canceled)) id = (n', res)" by fastforce
  let ?n1 = "?n\<lparr>nStore := ds, clients := fmupd ''m'' (''h:2'', ()) fmempty\<rparr>"
  have "clientFor (?n\<lparr>nStore := ds\<rparr>) demoView ''m'' (Some ()) = (?n1, Inr ())"
    by (simp add: clientFor_def demoView_def)
  then have "fanOut (?n\<lparr>nStore := ds\<rparr>) demoView ?io [''m''] = (?n1, [(''m'', Unavailable)])"
    by (simp add: replicateTo_def isDead_def)
  then have res: "res = Some (PutCanceled Canceled)"
    using n' put freshStore_get by (simp add: putAsReplica_def arrivals_def)
  have h: "fmlookup (vMembers demoView) p \<noteq> None \<and> rDial (?io p) \<noteq> None" if "p \<in> set [''m'']" for p
    using that by (simp add: demoView_def)
  have "nHints n' = fst (hintAdd ?P freshHints ''m'' ''k'' nullItem)"
    using hints_for_unavailable [OF n', of "([], False)" ds nullItem, OF _ _ h] put freshStore_get
    by (simp add: res peerCode_def)
  then show ?thesis using n' res by blast
qed

end
