(* ===== verification/AntiEntropy.thy ===== *)
theory AntiEntropy
  imports Writes
begin

text \<open>
  Anti-entropy (src/internal/node/antientropy.go): a node compares its Merkle tree with a peer's and
  exchanges, key by key, the versions the other side lacks. The peer is its store under the handlers of
  theory Rpc; a call reaches its handler or not, and its reply may be lost. What other operations do to
  the two stores between the reads and the installation of a key, and between the comparison and the
  reconciliation, is given as functions on the stores.
\<close>

section \<open>Definitions\<close>

definition antiEntropyNumBuckets :: nat where
  "antiEntropyNumBuckets = 16"

text \<open>The map's iteration order is not specified; the peers are taken in ID order here.\<close>

definition coReplicantPeers :: "('c, 'p) Node \<Rightarrow> ClusterView \<Rightarrow> nodeID list" where
  "coReplicantPeers n v = filter (\<lambda>i. i \<noteq> nID n) (sorted_list_of_fset (fmdom (vMembers v)))"

definition sharesReplicaSet :: "('c, 'p) Node \<Rightarrow> ClusterView \<Rightarrow> string \<Rightarrow> nodeID \<Rightarrow> bool" where
  "sharesReplicaSet n v key peerID =
     (let (self, peer) =
            foldl (\<lambda>(self, peer) i. (self \<or> i = nID n, peer \<or> i = peerID)) (False, False)
              (GetPreferenceList (vRing v) key (qN (quorum n)))
      in self \<and> peer)"

text \<open>How a call to the peer goes: it is answered, it never arrives, or its reply is lost.\<close>

datatype callIO = Answered | NotReached code | ReplyLost code

definition replyOf :: "callIO \<Rightarrow> code + 'r \<Rightarrow> code + 'r" where
  "replyOf io r = (case io of Answered \<Rightarrow> r | NotReached c \<Rightarrow> Inl c | ReplyLost c \<Rightarrow> Inl c)"

fun missingFrom :: "DataItem list \<Rightarrow> DataItem list \<Rightarrow> DataItem list" where
  "missingFrom have [] = []"
| "missingFrom have (item # incoming) =
     (if list_ex (\<lambda>h. let c = Compare (VectorClock h) (VectorClock item) in c = After \<or> c = Equal) have
      then missingFrom have incoming
      else item # missingFrom have incoming)"

text \<open>The outcomes of one key's calls, and what happens to the two stores after its reads.\<close>

record ('c, 'p) keyIO =
  kFetch :: callIO
  kWindow :: "'p DataStore \<Rightarrow> 'p DataStore"
  kPeerWindow :: "'p DataStore \<Rightarrow> 'p DataStore"
  kDial :: "'c option"
  kPush :: callIO

datatype 'e aeError = AeLocal 'e | AeDial clientError | AeRemote code | AePanic

fun mergePulled ::
  "('p, 'e) persister_ops \<Rightarrow> 'p DataStore \<Rightarrow> string \<Rightarrow> DataItem list \<Rightarrow> 'p DataStore \<times> 'e option" where
  "mergePulled P ds key [] = (ds, None)"
| "mergePulled P ds key (item # toPull) =
     (case MergeReplicated P ds key item of
        (ds', Some err) \<Rightarrow> (ds', Some err)
      | (ds', None) \<Rightarrow> mergePulled P ds' key toPull)"

definition pushItems ::
  "('p, 'e) persister_ops \<Rightarrow> ('e \<Rightarrow> bool) \<Rightarrow> ('c, 'p) Node \<Rightarrow> ClusterView \<Rightarrow> nodeID \<Rightarrow> 'p DataStore \<Rightarrow> string \<Rightarrow>
    DataItem list \<Rightarrow> 'c option \<Rightarrow> callIO \<Rightarrow> ('c, 'p) Node \<times> 'p DataStore \<times> 'e aeError option" where
  "pushItems P halted n v peerID peer key items dial io =
     (case clientFor n v peerID dial of
        (n1, Inl err) \<Rightarrow> (n1, peer, Some (AeDial err))
      | (n1, Inr _) \<Rightarrow>
          (let (peer1, c) = serveReplicate P halted peer key (map toProtoDataItem items)
           in case io of
                Answered \<Rightarrow> (n1, peer1, if c = OK then None else Some (AeRemote c))
              | NotReached code \<Rightarrow> (n1, peer, Some (AeRemote code))
              | ReplyLost code \<Rightarrow> (n1, peer1, Some (AeRemote code))))"

definition reconcileKey ::
  "('p, 'e) persister_ops \<Rightarrow> ('e \<Rightarrow> bool) \<Rightarrow> ('c, 'p) Node \<Rightarrow> ClusterView \<Rightarrow> nodeID \<Rightarrow> 'p DataStore \<Rightarrow> string \<Rightarrow>
    ('c, 'p) keyIO \<Rightarrow> ('c, 'p) Node \<times> 'p DataStore \<times> 'e aeError option" where
  "reconcileKey P halted n v peerID peer key io =
     (case dsGet P (nStore n) key of
        Inl err \<Rightarrow> (n, peer, Some (AeLocal err))
      | Inr (localItems, _) \<Rightarrow>
     (case clientFetchItem (replyOf (kFetch io) (serveFetchItem P peer key)) of
        Inl c \<Rightarrow> (n, peer, Some (AeRemote c))
      | Inr (remoteItems, _) \<Rightarrow>
          (let peer1 = kPeerWindow io peer;
               toPull = missingFrom localItems remoteItems;
               (ds, err) = mergePulled P (kWindow io (nStore n)) key toPull
           in case err of
                Some e \<Rightarrow> (n\<lparr>nStore := ds\<rparr>, peer1, Some (AeLocal e))
              | None \<Rightarrow>
                  (let n1 = n\<lparr>nStore := ds, aeKeysPulled := aeKeysPulled n + (if length toPull > 0 then 1 else 0)\<rparr>;
                       toPush = missingFrom remoteItems localItems
                   in if length toPush > 0 then
                        (case pushItems P halted n1 v peerID peer1 key toPush (kDial io) (kPush io) of
                           (n2, peer2, Some e) \<Rightarrow> (n2, peer2, Some e)
                         | (n2, peer2, None) \<Rightarrow> (n2\<lparr>aeKeysPushed := aeKeysPushed n2 + 1\<rparr>, peer2, None))
                      else (n1, peer1, None)))))"

fun reconcileKeys ::
  "('p, 'e) persister_ops \<Rightarrow> ('e \<Rightarrow> bool) \<Rightarrow> ('c, 'p) Node \<Rightarrow> ClusterView \<Rightarrow> nodeID \<Rightarrow> 'p DataStore \<Rightarrow> string list \<Rightarrow>
    (string \<Rightarrow> ('c, 'p) keyIO) \<Rightarrow> ('c, 'p) Node \<times> 'p DataStore \<times> 'e aeError option" where
  "reconcileKeys P halted n v peerID peer [] io = (n, peer, None)"
| "reconcileKeys P halted n v peerID peer (key # keys) io =
     (case reconcileKey P halted n v peerID peer key (io key) of
        (n1, peer1, Some err) \<Rightarrow> (n1, peer1, Some err)
      | (n1, peer1, None) \<Rightarrow> reconcileKeys P halted n1 v peerID peer1 keys io)"

text \<open>\<open>allKeys\<close> is a Go map; its keys are handled in sorted order here.\<close>

definition reconcileBucket ::
  "('p, 'e) persister_ops \<Rightarrow> ('e \<Rightarrow> bool) \<Rightarrow> ('c, 'p) Node \<Rightarrow> nodeID \<Rightarrow> 'p DataStore \<Rightarrow> nat \<Rightarrow> callIO \<Rightarrow>
    (string \<Rightarrow> ('c, 'p) keyIO) \<Rightarrow> ('c, 'p) Node \<times> 'p DataStore \<times> 'e aeError option" where
  "reconcileBucket P halted n peerID peer bucketIdx keysIO io =
     (let v = membership n in
      case dsKeys P (nStore n) of
        Inl err \<Rightarrow> (n, peer, Some (AeLocal err))
      | Inr allLocalKeys \<Rightarrow>
     (let localKeys = filter (\<lambda>k. BucketFor k antiEntropyNumBuckets = bucketIdx) allLocalKeys in
      case replyOf keysIO (serveGetBucketKeys P peer bucketIdx antiEntropyNumBuckets) of
        Inl c \<Rightarrow> (n, peer, Some (AeRemote c))
      | Inr remoteKeys \<Rightarrow>
          (let allKeys = filter (\<lambda>k. sharesReplicaSet n v k peerID) (localKeys @ remoteKeys)
           in reconcileKeys P halted n v peerID peer (sort (remdups allKeys)) io)))"

fun reconcileBuckets ::
  "('p, 'e) persister_ops \<Rightarrow> ('e \<Rightarrow> bool) \<Rightarrow> ('c, 'p) Node \<Rightarrow> nodeID \<Rightarrow> 'p DataStore \<Rightarrow> nat list \<Rightarrow> (nat \<Rightarrow> callIO) \<Rightarrow>
    (nat \<Rightarrow> string \<Rightarrow> ('c, 'p) keyIO) \<Rightarrow> ('c, 'p) Node \<times> 'p DataStore \<times> 'e aeError option" where
  "reconcileBuckets P halted n peerID peer [] keysIO io = (n, peer, None)"
| "reconcileBuckets P halted n peerID peer (b # diverged) keysIO io =
     (case reconcileBucket P halted n peerID peer b (keysIO b) (io b) of
        (n1, peer1, Some err) \<Rightarrow> (n1, peer1, Some err)
      | (n1, peer1, None) \<Rightarrow> reconcileBuckets P halted n1 peerID peer1 diverged keysIO io)"

record ('c, 'p) aeIO =
  aDial :: "'c option"
  aTree :: callIO
  aWindow :: "'p DataStore \<Rightarrow> 'p DataStore"
  aPeerWindow :: "'p DataStore \<Rightarrow> 'p DataStore"
  aKeys :: "nat \<Rightarrow> callIO"
  aKey :: "nat \<Rightarrow> string \<Rightarrow> ('c, 'p) keyIO"

text \<open>A panic, for an invalid bucket count or trees of different sizes, is \<open>AePanic\<close>.\<close>

definition RunAntiEntropy ::
  "('p, 'e) persister_ops \<Rightarrow> ('e \<Rightarrow> bool) \<Rightarrow> ('c, 'p) Node \<Rightarrow> nodeID \<Rightarrow> 'p DataStore \<Rightarrow> ('c, 'p) aeIO \<Rightarrow>
    ('c, 'p) Node \<times> 'p DataStore \<times> 'e aeError option" where
  "RunAntiEntropy P halted n peerID peer io =
     (case Build P (nStore n) (int antiEntropyNumBuckets) of
        None \<Rightarrow> (n, peer, Some AePanic)
      | Some (Inl err) \<Rightarrow> (n, peer, Some (AeLocal err))
      | Some (Inr localTree) \<Rightarrow>
     (case getOrDialClient n peerID (aDial io) of
        (n1, Inl err) \<Rightarrow> (n1, peer, Some (AeDial err))
      | (n1, Inr _) \<Rightarrow>
     (case replyOf (aTree io) (serveGetMerkleTree P peer (int antiEntropyNumBuckets)) of
        Inl c \<Rightarrow> (n1, peer, Some (AeRemote c))
      | Inr remoteTree \<Rightarrow>
     (case DivergentBuckets localTree (fromProtoTree remoteTree) of
        None \<Rightarrow> (n1, peer, Some AePanic)
      | Some diverged \<Rightarrow>
          if length diverged = 0 then (n1, peer, None)
          else reconcileBuckets P halted (n1\<lparr>nStore := aWindow io (nStore n1)\<rparr>) peerID (aPeerWindow io peer)
                 diverged (aKeys io) (aKey io)))))"

text \<open>\<open>ended i\<close>: the context has ended when peer i's turn comes. \<open>stores\<close> are the peers' stores.\<close>

fun roundPeers ::
  "('p, 'e) persister_ops \<Rightarrow> ('e \<Rightarrow> bool) \<Rightarrow> ('c, 'p) Node \<Rightarrow> (nodeID \<Rightarrow> 'p DataStore) \<Rightarrow> nodeID list \<Rightarrow>
    (nodeID \<Rightarrow> bool) \<Rightarrow> (nodeID \<Rightarrow> ('c, 'p) aeIO) \<Rightarrow> ('c, 'p) Node \<times> (nodeID \<Rightarrow> 'p DataStore)" where
  "roundPeers P halted n stores [] ended io = (n, stores)"
| "roundPeers P halted n stores (peerID # peers) ended io =
     (if ended peerID then (n, stores)
      else if isDead n peerID then roundPeers P halted n stores peers ended io
      else
        (case RunAntiEntropy P halted n peerID (stores peerID) (io peerID) of
           (n1, peer, err) \<Rightarrow>
             roundPeers P halted (if err = None then n1 else n1\<lparr>aePeerFailures := aePeerFailures n1 + 1\<rparr>)
               (stores(peerID := peer)) peers ended io))"

definition runAntiEntropyRound ::
  "('p, 'e) persister_ops \<Rightarrow> ('e \<Rightarrow> bool) \<Rightarrow> ('c, 'p) Node \<Rightarrow> (nodeID \<Rightarrow> 'p DataStore) \<Rightarrow> (nodeID \<Rightarrow> bool) \<Rightarrow>
    (nodeID \<Rightarrow> ('c, 'p) aeIO) \<Rightarrow> ('c, 'p) Node \<times> (nodeID \<Rightarrow> 'p DataStore)" where
  "runAntiEntropyRound P halted n stores ended io =
     (case roundPeers P halted n stores (coReplicantPeers n (membership n)) ended io of
        (n1, stores1) \<Rightarrow> (n1\<lparr>aeRounds := aeRounds n1 + 1\<rparr>, stores1))"

section \<open>The keys of a store\<close>

text \<open>What anti-entropy needs of a persister beyond the contract: it lists every key it holds.\<close>

locale listed_persistence = persistence +
  assumes keys_view: "pinv s \<Longrightarrow> pKeys P s = Inr ks \<Longrightarrow> pview s k \<noteq> [] \<Longrightarrow> k \<in> set ks"
    and view_fits: "pinv s \<Longrightarrow> i \<in> set (pview s k) \<Longrightarrow> fits k i"
    and fits_json: "fits k i \<Longrightarrow> jsonOk (Value i)"

context engine_libs
begin

lemma current_listed: "memOk B binv m \<Longrightarrow> i \<in> set (mtCurrent B m k) \<Longrightarrow> k \<in> set (mtKeys B m)"
  using bt.current_map [of m k] by (cases "map_of (btAscend B (tree m)) k") (auto simp: memOk_def mtKeys_def dest: map_of_SomeD intro: rev_image_eqI)

lemma table_versions_listed:
  assumes "tableOk F d s" "i \<in> set (tableVersions d s k)"
  shows "k \<in> set (sstKeys s) \<and> sstFits (k, i)"
proof -
  obtain es where es: "sstOf F d s es" "list_all sstFits es" using assms(1) by (auto simp: tableOk_def)
  have "(k, i) \<in> set es"
    using assms(2) tableVersions_sstOf [OF es(1), of k] by (auto simp: versionsOf_def)
  then show ?thesis using sstOf_Keys [OF es(1)] es(2) by (force simp: list_all_iff)
qed

lemma layers_listed:
  assumes "worldOk B binv F w" "i \<in> set (layers B (eng w) k)"
  shows "k \<in> set (engKeys B (eng w)) \<and> sstFits (k, i)"
proof -
  let ?e = "eng w"
  have keys: "set (engKeys B ?e) = set (mtKeys B (active ?e)) \<union> (case flushing ?e of None \<Rightarrow> {} | Some m \<Rightarrow> set (mtKeys B m)) \<union>
      (\<Union>sst \<in> set (sstables ?e). set (sstKeys sst))"
    unfolding engKeys_def Let_def by (rule set_sorted_list_of_set) (auto split: option.splits)
  have ok: "memOk B binv (active ?e)" "\<And>m. flushing ?e = Some m \<Longrightarrow> memOk B binv m"
    "\<And>s. s \<in> set (sstables ?e) \<Longrightarrow> tableOk F (dataDir ?e) s"
    using assms(1) unfolding worldOk_def by auto
  consider "i \<in> set (mtCurrent B (active ?e) k)" | m where "flushing ?e = Some m" "i \<in> set (mtCurrent B m k)"
    | s where "s \<in> set (sstables ?e)" "i \<in> set (tableVersions (dataDir ?e) s k)"
    using assms(2) by (cases "flushing ?e") (auto simp: layers_def)
  then show ?thesis
  proof cases
    case 1
    then show ?thesis using ok(1) current_listed [OF ok(1) 1] by (simp add: keys memOk_def)
  next
    case (2 m)
    then show ?thesis using ok(2) [OF 2(1)] current_listed [OF ok(2) [OF 2(1)] 2(2)] by (simp add: keys memOk_def)
  next
    case (3 s)
    then show ?thesis using table_versions_listed [OF ok(3) [OF 3(1)] 3(2)] by (auto simp: keys)
  qed
qed

end

sublocale engine_libs \<subseteq> listed: listed_persistence "enginePersister B F" "\<lambda>(w, _). worldOk B binv F w"
  "\<lambda>(w, _). view B w" worldFits
proof
  fix s :: "('t, 'f) world \<times> (nat \<Rightarrow> commitIO)" and ks k i
  assume inv: "case s of (w, _) \<Rightarrow> worldOk B binv F w"
  obtain w ios where s: "s = (w, ios)" by fastforce
  have sub: "set (view B w k) \<subseteq> set (layers B (eng w) k)" using set_MergeSiblings_subset [of "[]" "layers B (eng w) k"] by (simp add: view_def)
  {
    assume "pKeys (enginePersister B F) s = Inr ks" "(case s of (w, _) \<Rightarrow> view B w) k \<noteq> []"
    then show "k \<in> set ks" using layers_listed [of w _ k] inv sub
      by (cases "view B w k") (auto simp: s enginePersister_def)
  }
  assume "i \<in> set ((case s of (w, _) \<Rightarrow> view B w) k)"
  then show "worldFits k i" using layers_listed [of w i k] inv sub by (auto simp: s worldFits_def)
next
  fix k i assume "worldFits k i"
  then show "jsonOk (Value i)" by (simp add: worldFits_def sstFits_def itemOk_def)
qed

section \<open>Exchanging versions\<close>

lemma missingFrom_set: "set (missingFrom have incoming) = {i \<in> set incoming. \<not> covers have (clk i)}"
proof (induction incoming)
  case (Cons i incoming)
  have "(let c = Compare (VectorClock h) (VectorClock i) in c = After \<or> c = Equal) \<longleftrightarrow> clk i \<le> clk h" for h
    by (auto simp: Compare_cases le_less Let_def)
  then have "list_ex (\<lambda>h. let c = Compare (VectorClock h) (VectorClock i) in c = After \<or> c = Equal) have \<longleftrightarrow> covers have (clk i)"
    by (simp add: list_ex_iff covers_def)
  with Cons show ?case by auto
qed simp

lemma missingFrom_covers:
  "covers xs c \<or> covers (missingFrom xs ys) c \<longleftrightarrow> covers xs c \<or> covers ys c"
  by (auto simp: covers_def missingFrom_set intro: order_trans)

text \<open>The clocks of two antichains that cover the same clocks are the same.\<close>

lemma covers_same_clocks:
  assumes "antichain xs" "antichain ys" "\<And>c. covers xs c \<longleftrightarrow> covers ys c"
  shows "clk ` set xs \<subseteq> clk ` set ys"
proof
  fix c assume "c \<in> clk ` set xs"
  then obtain x where x: "x \<in> set xs" "c = clk x" by blast
  then obtain y where y: "y \<in> set ys" "c \<le> clk y" using assms(3) [of c] by (auto simp: covers_def)
  then obtain z where z: "z \<in> set xs" "clk y \<le> clk z" using assms(3) [of "clk y"] by (auto simp: covers_def)
  then have "x = z" using antichain_mem_eq [OF assms(1) x(1) z(1)] x(2) y(2) by (auto intro: order_trans)
  then have "clk y = c" using x(2) y(2) z(2) by (intro antisym) auto
  then show "c \<in> clk ` set ys" using y(1) by auto
qed

lemma serveGetMerkleTree_Build:
  "serveGetMerkleTree P ds n = Inr r \<Longrightarrow> \<exists>t. Build P ds n = Some (Inr t) \<and> r = toProtoTree t"
  by (auto simp: serveGetMerkleTree_def split: option.splits sum.splits)

text \<open>A store took some versions of a key, all of them if \<open>ok\<close>.\<close>

definition absorbed ::
  "(string \<Rightarrow> DataItem list) \<Rightarrow> (string \<Rightarrow> DataItem list) \<Rightarrow> string \<Rightarrow> DataItem list \<Rightarrow> bool \<Rightarrow> bool" where
  "absorbed V V' key items ok \<longleftrightarrow> (\<forall>k. k \<noteq> key \<longrightarrow> V' k = V k) \<and>
     (\<forall>c. covers (V key) c \<or> ok \<and> covers items c \<longrightarrow> covers (V' key) c) \<and>
     (\<forall>c. covers (V' key) c \<longrightarrow> covers (V key) c \<or> covers items c)"

lemma absorbed_Nil [simp]: "absorbed V V key items False" "absorbed V V key [] ok"
  by (simp_all add: absorbed_def covers_def)

lemma absorbed_Cons: "absorbed V V1 key [i] True \<Longrightarrow> absorbed V1 V2 key items ok \<Longrightarrow> absorbed V V2 key (i # items) ok"
  unfolding absorbed_def covers_Cons by (auto simp: covers_Nil)

lemma absorbed_failed: "absorbed V V1 key [i] False \<Longrightarrow> absorbed V V1 key (i # items) False"
  unfolding absorbed_def covers_Cons by (auto simp: covers_Nil)

context persistence
begin

lemma merge_absorbed:
  assumes "pinv (persister ds)" "fits key i" "MergeReplicated P ds key i = (ds', err)"
  shows "pinv (persister ds') \<and> absorbed (pview (persister ds)) (pview (persister ds')) key [i] (err = None)"
proof -
  obtain p where p: "pPut P (persister ds) key i = (p, err)" "persister ds' = p"
    using assms(3) by (auto simp: MergeReplicated_def split: prod.splits)
  note inv = put_inv [OF assms(1,2) p(1)] and other = put_other [OF assms(1,2) p(1)]
  show ?thesis
  proof (cases err)
    case None
    then show ?thesis using inv other p put_covers [OF assms(1,2)] by (auto simp: absorbed_def covers_Cons covers_Nil)
  next
    case (Some e)
    then have "pview p key = pview (persister ds) key" using p put_failed [OF assms(1,2)] by simp
    then have "pview p = pview (persister ds)" using other by (metis ext)
    then show ?thesis using inv p Some by simp
  qed
qed

lemma mergePulled_absorbed:
  assumes "pinv (persister ds)" "\<forall>i \<in> set items. fits key i" "mergePulled P ds key items = (ds', err)"
  shows "pinv (persister ds') \<and> absorbed (pview (persister ds)) (pview (persister ds')) key items (err = None)"
  using assms
proof (induction items arbitrary: ds)
  case (Cons i items)
  obtain ds1 e where m: "MergeReplicated P ds key i = (ds1, e)" by fastforce
  note one = merge_absorbed [OF Cons.prems(1) _ m]
  show ?case
  proof (cases e)
    case None
    then have "mergePulled P ds1 key items = (ds', err)" using Cons.prems(3) m by simp
    then show ?thesis using Cons.IH [of ds1] one Cons.prems(2) None absorbed_Cons by auto
  next
    case (Some x)
    then show ?thesis using Cons.prems(2,3) m one absorbed_failed by auto
  qed
qed simp

lemma replicateLoop_absorbed:
  assumes "pinv (persister ds)" "\<forall>i \<in> set items. fits key i \<and> jsonOk (Value i)"
    "replicateLoop P halted ds key (map toProtoDataItem items) = (ds', c)"
  shows "pinv (persister ds') \<and> absorbed (pview (persister ds)) (pview (persister ds')) key items (c = OK)"
  using assms
proof (induction items arbitrary: ds)
  case (Cons i items)
  obtain ds1 e where m: "MergeReplicated P ds key i = (ds1, e)" by fastforce
  have f: "fromProtoDataItem (toProtoDataItem i) = Some i" using Cons.prems(2) by (simp add: proto_roundtrip)
  note one = merge_absorbed [OF Cons.prems(1) _ m]
  show ?case
  proof (cases e)
    case None
    then have "replicateLoop P halted ds1 key (map toProtoDataItem items) = (ds', c)" using Cons.prems(3) m f by simp
    then show ?thesis using Cons.IH [of ds1] one Cons.prems(2) None absorbed_Cons by auto
  next
    case (Some x)
    then show ?thesis using Cons.prems(2,3) m f one absorbed_failed by auto
  qed
qed simp

lemma serveReplicate_absorbed:
  assumes "pinv (persister ds)" "\<forall>i \<in> set items. fits key i \<and> jsonOk (Value i)"
    "serveReplicate P halted ds key (map toProtoDataItem items) = (ds', c)"
  shows "pinv (persister ds') \<and> absorbed (pview (persister ds)) (pview (persister ds')) key items (c = OK)"
  using assms replicateLoop_absorbed by (auto simp: serveReplicate_def split: if_splits)

lemma pushItems_absorbed:
  assumes "pinv (persister peer)" "\<forall>i \<in> set items. fits key i \<and> jsonOk (Value i)"
    "pushItems P halted n v peerID peer key items dial io = (n', peer', err)"
  shows "nStore n' = nStore n \<and> nID n' = nID n \<and> membership n' = membership n \<and> quorum n' = quorum n \<and>
    pinv (persister peer') \<and> absorbed (pview (persister peer)) (pview (persister peer')) key items (err = None)"
proof -
  obtain n1 x where c: "clientFor n v peerID dial = (n1, x)" by fastforce
  note k = clientFor_keeps [OF c]
  obtain peer1 cd where s: "serveReplicate P halted peer key (map toProtoDataItem items) = (peer1, cd)" by fastforce
  show ?thesis using assms(1,3) c s k serveReplicate_absorbed [OF assms(1,2) s]
    by (cases x; cases io) (auto simp: pushItems_def absorbed_def split: if_splits)
qed

end

section \<open>Reconciling a key\<close>

text \<open>
  The views of the two stores before and after: nothing is lost on either side; if \<open>ok\<close>, each side of
  the keys \<open>K\<close> covers both sides; if \<open>calm\<close>, nothing else came in and no key outside \<open>K\<close> changed.
\<close>

definition reconciled ::
  "(string \<Rightarrow> DataItem list) \<Rightarrow> (string \<Rightarrow> DataItem list) \<Rightarrow> (string \<Rightarrow> DataItem list) \<Rightarrow> (string \<Rightarrow> DataItem list) \<Rightarrow>
    string set \<Rightarrow> bool \<Rightarrow> bool \<Rightarrow> bool" where
  "reconciled L R L' R' K ok calm \<longleftrightarrow>
     (\<forall>k c. (covers (L k) c \<longrightarrow> covers (L' k) c) \<and> (covers (R k) c \<longrightarrow> covers (R' k) c)) \<and>
     (ok \<longrightarrow> (\<forall>k \<in> K. \<forall>c. covers (L k) c \<or> covers (R k) c \<longrightarrow> covers (L' k) c \<and> covers (R' k) c)) \<and>
     (calm \<longrightarrow> (\<forall>k. k \<notin> K \<longrightarrow> L' k = L k \<and> R' k = R k) \<and>
        (\<forall>k c. covers (L' k) c \<or> covers (R' k) c \<longrightarrow> covers (L k) c \<or> covers (R k) c))"

lemma reconciled_refl: "reconciled L R L R K False calm" "reconciled L R L R {} ok calm"
  by (auto simp: reconciled_def)

lemma reconciled_trans:
  assumes "reconciled L R L1 R1 K1 True calm" "reconciled L1 R1 L2 R2 K2 ok calm"
  shows "reconciled L R L2 R2 (K1 \<union> K2) ok calm"
  using assms unfolding reconciled_def by (auto; blast)

lemma reconciled_calm: "reconciled L R L' R' K ok calm \<Longrightarrow> (calm' \<Longrightarrow> calm) \<Longrightarrow> reconciled L R L' R' K ok calm'"
  by (auto simp: reconciled_def)

lemma reconciled_failed:
  assumes "reconciled L R L1 R1 K1 ok calm"
  shows "reconciled L R L1 R1 (K1 \<union> K2) False calm"
  using assms unfolding reconciled_def by auto

lemma reconciled_extend:
  assumes "reconciled L R L' R' K ok calm" "K \<subseteq> K'" "\<And>k. k \<in> K' - K \<Longrightarrow> L k = [] \<and> R k = []"
  shows "reconciled L R L' R' K' ok calm"
  using assms unfolding reconciled_def by (auto simp: covers_Nil; metis covers_Nil DiffI)

definition growing ::
  "('p, 'e) persister_ops \<Rightarrow> ('p \<Rightarrow> bool) \<Rightarrow> ('p \<Rightarrow> string \<Rightarrow> DataItem list) \<Rightarrow> (string \<Rightarrow> DataItem \<Rightarrow> bool) \<Rightarrow> ('c, 'p) keyIO \<Rightarrow> bool" where
  "growing P pinv pview fits io \<longleftrightarrow>
     (\<forall>ds. grows P pinv pview fits ds (kWindow io ds) \<and> grows P pinv pview fits ds (kPeerWindow io ds))"

definition calmKey :: "('c, 'p) keyIO \<Rightarrow> bool" where
  "calmKey io \<longleftrightarrow> kWindow io = id \<and> kPeerWindow io = id"

lemma exchange_reconciled:
  assumes li: "\<And>c. covers li c \<longleftrightarrow> covers (L key) c" and ri: "\<And>c. covers ri c \<longleftrightarrow> covers (R key) c"
    and w: "\<And>k c. covers (L k) c \<Longrightarrow> covers (W k) c" "\<And>k c. covers (R k) c \<Longrightarrow> covers (X k) c" "calm \<Longrightarrow> W = L \<and> X = R"
    and pull: "absorbed W L' key (missingFrom li ri) ok1" and push: "absorbed X R' key (missingFrom ri li) ok2"
  shows "reconciled L R L' R' {key} (ok1 \<and> ok2) calm"
proof -
  note m = missingFrom_covers [of li _ ri] missingFrom_covers [of ri _ li]
  have up: "covers (L' k) c" if "covers (W k) c" for k c using pull that by (cases "k = key") (auto simp: absorbed_def)
  have up': "covers (R' k) c" if "covers (X k) c" for k c using push that by (cases "k = key") (auto simp: absorbed_def)
  have both: "covers (L' key) c \<and> covers (R' key) c" if "ok1 \<and> ok2" "covers (L key) c \<or> covers (R key) c" for c
  proof -
    have "covers (L' key) c" if "covers (missingFrom li ri) c" using pull that \<open>ok1 \<and> ok2\<close> by (auto simp: absorbed_def)
    moreover have "covers (R' key) c" if "covers (missingFrom ri li) c" using push that \<open>ok1 \<and> ok2\<close> by (auto simp: absorbed_def)
    ultimately show ?thesis using that(2) li ri m [of c] w up up' by metis
  qed
  have down: "covers (L k) c \<or> covers (R k) c" if "calm" "covers (L' k) c \<or> covers (R' k) c" for k c
  proof (cases "k = key")
    case True
    then have "covers (L key) c \<or> covers (R key) c \<or> covers (missingFrom li ri) c \<or> covers (missingFrom ri li) c"
      using pull push that w(3) by (auto simp: absorbed_def)
    then show ?thesis using m [of c] li ri True by metis
  next
    case False
    then show ?thesis using pull push that w(3) by (auto simp: absorbed_def)
  qed
  have other: "L' k = L k \<and> R' k = R k" if "calm" "k \<noteq> key" for k
    using pull push w(3) that by (auto simp: absorbed_def)
  show ?thesis unfolding reconciled_def using w(1,2) up up' both down other by auto
qed

context listed_persistence
begin

lemma reconcileKey_reconciled:
  assumes inv: "pinv (persister (nStore n))" "pinv (persister peer)" and io: "growing P pinv pview fits io"
    and r: "reconcileKey P halted n v peerID peer key io = (n', peer', err)"
  shows "nID n' = nID n \<and> membership n' = membership n \<and> quorum n' = quorum n \<and>
    pinv (persister (nStore n')) \<and> pinv (persister peer') \<and>
    reconciled (pview (persister (nStore n))) (pview (persister peer)) (pview (persister (nStore n'))) (pview (persister peer'))
      {key} (err = None) (calmKey io)"
proof (cases "dsGet P (nStore n) key")
  case (Inl e)
  then show ?thesis using r inv by (auto simp: reconcileKey_def reconciled_refl)
next
  case (Inr lf)
  then obtain li f where lf: "dsGet P (nStore n) key = Inr (li, f)" by (cases lf) auto
  have li: "li = rev (pview (persister (nStore n)) key)" using load_view [OF inv(1) lf [unfolded dsGet_def]] by simp
  show ?thesis
  proof (cases "clientFetchItem (replyOf (kFetch io) (serveFetchItem P peer key))")
    case (Inl c)
    then show ?thesis using r inv lf by (auto simp: reconcileKey_def reconciled_refl)
  next
    case (Inr rf)
    then obtain ri g where rf: "clientFetchItem (replyOf (kFetch io) (serveFetchItem P peer key)) = Inr (ri, g)" by (cases rf) auto
    then have "clientFetchItem (serveFetchItem P peer key) = Inr (ri, g)"
      by (cases "kFetch io") (auto simp: replyOf_def clientFetchItem_def)
    moreover have js: "list_all (\<lambda>i. jsonOk (Value i)) (pview (persister peer) key)"
      using view_fits [OF inv(2)] fits_json by (auto simp: list_all_iff)
    ultimately have ri: "ri = rev (pview (persister peer) key)"
      using fetch_view [OF persistence_axioms inv(2)] by blast
    let ?W = "kWindow io (nStore n)" and ?X = "kPeerWindow io peer"
    have grow: "grows P pinv pview fits (nStore n) ?W" "grows P pinv pview fits peer ?X" using io by (auto simp: growing_def)
    note W = grows_covers [OF persistence_axioms grow(1) inv(1)] and X = grows_covers [OF persistence_axioms grow(2) inv(2)]
    obtain ds e where pull: "mergePulled P ?W key (missingFrom li ri) = (ds, e)" by fastforce
    have "\<forall>i \<in> set (missingFrom li ri). fits key i" using ri view_fits [OF inv(2)] by (auto simp: missingFrom_set)
    then have d: "pinv (persister ds)" "absorbed (pview (persister ?W)) (pview (persister ds)) key (missingFrom li ri) (e = None)"
      using mergePulled_absorbed [OF _ _ pull] W by auto
    have toPush: "\<forall>i \<in> set (missingFrom ri li). fits key i \<and> jsonOk (Value i)"
      using li view_fits [OF inv(1)] fits_json by (auto simp: missingFrom_set)
    have rec: "reconciled (pview (persister (nStore n))) (pview (persister peer)) (pview (persister ds)) (pview (persister p))
        {key} (e = None \<and> ok) (calmKey io)"
      if "absorbed (pview (persister ?X)) (pview (persister p)) key (missingFrom ri li) ok" for p ok
      by (rule exchange_reconciled [where li = li and ri = ri, OF _ _ _ _ _ d(2) that])
        (use W X in \<open>auto simp: li ri covers_def calmKey_def\<close>)
    show ?thesis
    proof (cases e)
      case (Some x)
      then show ?thesis using r lf rf pull d rec [of ?X False] X by (auto simp: reconcileKey_def Let_def)
    next
      case None
      let ?n1 = "n\<lparr>nStore := ds, aeKeysPulled := aeKeysPulled n + (if length (missingFrom li ri) > 0 then 1 else 0)\<rparr>"
      obtain n2 p2 e2 where push: "pushItems P halted ?n1 v peerID ?X key (missingFrom ri li) (kDial io) (kPush io) = (n2, p2, e2)"
        by (metis prod.collapse)
      have X': "pinv (persister ?X)" using X by blast
      note p = pushItems_absorbed [OF X' toPush push]
      show ?thesis
      proof (cases "missingFrom ri li")
        case Nil
        then show ?thesis using r lf rf pull None d X rec [of ?X True] by (auto simp: reconcileKey_def Let_def)
      next
        case (Cons x xs)
        have "err = e2" "peer' = p2" "nID n' = nID n2" "membership n' = membership n2" "quorum n' = quorum n2" "nStore n' = nStore n2"
          using r lf rf pull push None Cons by (auto simp: reconcileKey_def Let_def split: option.splits)
        then show ?thesis using p d None rec [of p2 "e2 = None"] by auto
      qed
    qed
  qed
qed

lemma reconcileKeys_reconciled:
  assumes "pinv (persister (nStore n))" "pinv (persister peer)" "\<forall>k. growing P pinv pview fits (io k)"
    and "reconcileKeys P halted n v peerID peer keys io = (n', peer', err)"
  shows "nID n' = nID n \<and> membership n' = membership n \<and> quorum n' = quorum n \<and>
    pinv (persister (nStore n')) \<and> pinv (persister peer') \<and>
    reconciled (pview (persister (nStore n))) (pview (persister peer)) (pview (persister (nStore n'))) (pview (persister peer'))
      (set keys) (err = None) (\<forall>k. calmKey (io k))"
  using assms(1,2,4)
proof (induction keys arbitrary: n peer)
  case Nil
  then show ?case by (auto simp: reconciled_refl)
next
  case (Cons k keys)
  obtain n1 p1 e where k: "reconcileKey P halted n v peerID peer k (io k) = (n1, p1, e)" by (metis prod.collapse)
  note one = reconcileKey_reconciled [OF Cons.prems(1,2) assms(3) [rule_format] k]
  have one': "reconciled (pview (persister (nStore n))) (pview (persister peer)) (pview (persister (nStore n1))) (pview (persister p1))
      {k} (e = None) (\<forall>k. calmKey (io k))"
    by (rule reconciled_calm [where calm = "calmKey (io k)"]) (use one in simp_all)
  show ?case
  proof (cases e)
    case None
    then have rest: "reconcileKeys P halted n1 v peerID p1 keys io = (n', peer', err)" using Cons.prems(3) k by simp
    have inv: "pinv (persister (nStore n1))" "pinv (persister p1)" using one by auto
    note ih = Cons.IH [OF inv rest]
    have "reconciled (pview (persister (nStore n))) (pview (persister peer)) (pview (persister (nStore n'))) (pview (persister peer'))
        ({k} \<union> set keys) (err = None) (\<forall>k. calmKey (io k))"
      using reconciled_trans [OF one' [unfolded None simp_thms(6)]] ih by blast
    then show ?thesis using one ih by simp
  next
    case (Some x)
    then have "n' = n1" "peer' = p1" "err \<noteq> None" using Cons.prems(3) k by auto
    then show ?thesis using one reconciled_failed [OF one', of "set keys"] by auto
  qed
qed

lemma reconcileBucket_reconciled:
  assumes inv: "pinv (persister (nStore n))" "pinv (persister peer)" and io: "\<forall>k. growing P pinv pview fits (io k)"
    and r: "reconcileBucket P halted n peerID peer b kio io = (n', peer', err)"
  shows "nID n' = nID n \<and> membership n' = membership n \<and> quorum n' = quorum n \<and>
    pinv (persister (nStore n')) \<and> pinv (persister peer') \<and>
    reconciled (pview (persister (nStore n))) (pview (persister peer)) (pview (persister (nStore n'))) (pview (persister peer'))
      {k. BucketFor k antiEntropyNumBuckets = b \<and> sharesReplicaSet n (membership n) k peerID} (err = None) (\<forall>k. calmKey (io k))"
proof (cases "dsKeys P (nStore n)")
  case (Inl e)
  then show ?thesis using r inv by (auto simp: reconcileBucket_def reconciled_refl)
next
  case ks: (Inr ks)
  show ?thesis
  proof (cases "replyOf kio (serveGetBucketKeys P peer b antiEntropyNumBuckets)")
    case (Inl c)
    then show ?thesis using r inv ks by (auto simp: reconcileBucket_def reconciled_refl)
  next
    case (Inr rs)
    then obtain ps where ps: "dsKeys P peer = Inr ps" "rs = filter (\<lambda>k. BucketFor k antiEntropyNumBuckets = b) ps"
      by (cases kio) (auto simp: replyOf_def serveGetBucketKeys_def split: sum.splits)
    let ?all = "sort (remdups (filter (\<lambda>k. sharesReplicaSet n (membership n) k peerID)
      (filter (\<lambda>k. BucketFor k antiEntropyNumBuckets = b) ks @ rs)))"
    have keys: "reconcileKeys P halted n (membership n) peerID peer ?all io = (n', peer', err)"
      using r ks Inr by (simp add: reconcileBucket_def Let_def)
    note step = reconcileKeys_reconciled [OF inv io keys]
    have empty: "pview (persister (nStore n)) k = [] \<and> pview (persister peer) k = []"
      if "k \<notin> set ks" "k \<notin> set ps" for k
      using that keys_view [OF inv(1), of ks k] keys_view [OF inv(2), of ps k] ks ps(1)
      by (auto simp: dsKeys_def split: sum.splits)
    from step have rec: "reconciled (pview (persister (nStore n))) (pview (persister peer)) (pview (persister (nStore n'))) (pview (persister peer'))
        (set ?all) (err = None) (\<forall>k. calmKey (io k))" by blast
    have "reconciled (pview (persister (nStore n))) (pview (persister peer)) (pview (persister (nStore n'))) (pview (persister peer'))
        {k. BucketFor k antiEntropyNumBuckets = b \<and> sharesReplicaSet n (membership n) k peerID} (err = None) (\<forall>k. calmKey (io k))"
    proof (rule reconciled_extend [OF rec])
      fix k assume "k \<in> {k. BucketFor k antiEntropyNumBuckets = b \<and> sharesReplicaSet n (membership n) k peerID} - set ?all"
      then have "k \<notin> set ks" "k \<notin> set ps" using ps(2) by auto
      then show "pview (persister (nStore n)) k = [] \<and> pview (persister peer) k = []" by (rule empty)
    qed (use ps(2) in auto)
    then show ?thesis using step by blast
  qed
qed

lemma reconcileBuckets_reconciled:
  assumes "pinv (persister (nStore n))" "pinv (persister peer)" "\<forall>b k. growing P pinv pview fits (io b k)"
    and "reconcileBuckets P halted n peerID peer bs kio io = (n', peer', err)"
  shows "pinv (persister (nStore n')) \<and> pinv (persister peer') \<and>
    reconciled (pview (persister (nStore n))) (pview (persister peer)) (pview (persister (nStore n'))) (pview (persister peer'))
      {k. BucketFor k antiEntropyNumBuckets \<in> set bs \<and> sharesReplicaSet n (membership n) k peerID} (err = None) (\<forall>b k. calmKey (io b k))"
  using assms(1,2,4)
proof (induction bs arbitrary: n peer)
  case Nil
  then show ?case by (auto simp: reconciled_refl)
next
  case (Cons b bs)
  let ?K = "\<lambda>B. {k. BucketFor k antiEntropyNumBuckets \<in> B \<and> sharesReplicaSet n (membership n) k peerID}"
  obtain n1 p1 e where k: "reconcileBucket P halted n peerID peer b (kio b) (io b) = (n1, p1, e)" by (metis prod.collapse)
  have io: "\<forall>k. growing P pinv pview fits (io b k)" using assms(3) by blast
  note one = reconcileBucket_reconciled [OF Cons.prems(1,2) io k]
  have one': "reconciled (pview (persister (nStore n))) (pview (persister peer)) (pview (persister (nStore n1))) (pview (persister p1))
      (?K {b}) (e = None) (\<forall>b k. calmKey (io b k))"
    by (rule reconciled_calm [where calm = "\<forall>k. calmKey (io b k)"]) (use one in simp_all)
  have K: "?K (set (b # bs)) = ?K {b} \<union> ?K (set bs)" by auto
  show ?case
  proof (cases e)
    case None
    then have rest: "reconcileBuckets P halted n1 peerID p1 bs kio io = (n', peer', err)" using Cons.prems(3) k by simp
    have inv: "pinv (persister (nStore n1))" "pinv (persister p1)" using one by auto
    have "sharesReplicaSet n1 (membership n1) k peerID = sharesReplicaSet n (membership n) k peerID" for k
      using one by (simp add: sharesReplicaSet_def)
    note ih = Cons.IH [OF inv rest, unfolded this]
    have "reconciled (pview (persister (nStore n))) (pview (persister peer)) (pview (persister (nStore n'))) (pview (persister peer'))
        (?K {b} \<union> ?K (set bs)) (err = None) (\<forall>b k. calmKey (io b k))"
      using reconciled_trans [OF one' [unfolded None simp_thms(6)]] ih by blast
    then show ?thesis using ih unfolding K by blast
  next
    case (Some x)
    then have "n' = n1" "peer' = p1" "err \<noteq> None" using Cons.prems(3) k by auto
    then show ?thesis unfolding K using one reconciled_failed [OF one', of "?K (set bs)"] by auto
  qed
qed

lemma RunAntiEntropy_reconciled:
  assumes inv: "pinv (persister (nStore n))" "pinv (persister peer)"
    and io: "\<forall>b k. growing P pinv pview fits (aKey io b k)"
      "\<forall>ds. grows P pinv pview fits ds (aWindow io ds) \<and> grows P pinv pview fits ds (aPeerWindow io ds)"
    and r: "RunAntiEntropy P halted n peerID peer io = (n', peer', err)"
  shows "\<exists>bs. pinv (persister (nStore n')) \<and> pinv (persister peer') \<and>
    reconciled (pview (persister (nStore n))) (pview (persister peer)) (pview (persister (nStore n'))) (pview (persister peer'))
      {k. BucketFor k antiEntropyNumBuckets \<in> set bs \<and> sharesReplicaSet n (membership n) k peerID} (err = None)
      (aWindow io = id \<and> aPeerWindow io = id \<and> (\<forall>b k. calmKey (aKey io b k))) \<and>
    (err = None \<longrightarrow> (\<exists>s t. Build P (nStore n) (int antiEntropyNumBuckets) = Some (Inr s) \<and>
       Build P peer (int antiEntropyNumBuckets) = Some (Inr t) \<and> DivergentBuckets s t = Some bs))"
proof -
  have idle: ?thesis if "nStore n' = nStore n" "peer' = peer" "err \<noteq> None"
    using that inv by (intro exI [of _ "[]"]) (auto simp: reconciled_refl)
  show ?thesis
  proof (cases "\<exists>s. Build P (nStore n) (int antiEntropyNumBuckets) = Some (Inr s)")
    case False
    then have "nStore n' = nStore n \<and> peer' = peer \<and> err \<noteq> None"
      using r by (auto simp: RunAntiEntropy_def split: option.splits sum.splits)
    then show ?thesis by (elim conjE) (rule idle)
  next
    case True
    then obtain s where s: "Build P (nStore n) (int antiEntropyNumBuckets) = Some (Inr s)" by blast
    obtain n1 x where c: "getOrDialClient n peerID (aDial io) = (n1, x)" by fastforce
    note k = clientFor_keeps [OF c [unfolded getOrDialClient_def]]
    let ?r = "replyOf (aTree io) (serveGetMerkleTree P peer (int antiEntropyNumBuckets))"
    show ?thesis
    proof (cases "\<exists>y t. x = Inr y \<and> ?r = Inr t \<and> DivergentBuckets s (fromProtoTree t) \<noteq> None")
      case False
      then have "nStore n' = nStore n \<and> peer' = peer \<and> err \<noteq> None"
        using r s c k(2) by (auto simp: RunAntiEntropy_def split: option.splits sum.splits)
      then show ?thesis by (elim conjE) (rule idle)
    next
      case True
      then obtain y pt bs where t: "x = Inr y" "?r = Inr pt" "DivergentBuckets s (fromProtoTree pt) = Some bs" by auto
      then have "serveGetMerkleTree P peer (int antiEntropyNumBuckets) = Inr pt"
        by (cases "aTree io") (auto simp: replyOf_def)
      then obtain t where bt: "Build P peer (int antiEntropyNumBuckets) = Some (Inr t)" and pt: "pt = toProtoTree t"
        using serveGetMerkleTree_Build by blast
      have "treeOk t" "NumBuckets t = 16" using Build_ok [OF bt] by (simp_all add: antiEntropyNumBuckets_def)
      then have "fromProtoTree pt = t" unfolding pt using Build_nodes [OF bt] by (intro tree_roundtrip) auto
      then have bs: "DivergentBuckets s t = Some bs" using t(3) by simp
      let ?W = "aWindow io (nStore n)" and ?X = "aPeerWindow io peer"
      let ?n1 = "n1\<lparr>nStore := aWindow io (nStore n1)\<rparr>"
      note W = grows_covers [OF persistence_axioms _ inv(1), of ?W] and X = grows_covers [OF persistence_axioms _ inv(2), of ?X]
      show ?thesis
      proof (cases "bs = []")
        case True
        then have "nStore n' = nStore n" "peer' = peer" "err = None" using r s c t k by (auto simp: RunAntiEntropy_def)
        then show ?thesis using inv bs s bt True by (intro exI [of _ "[]"]) (auto simp: reconciled_refl)
      next
        case False
        then have run: "reconcileBuckets P halted ?n1 peerID ?X bs (aKeys io) (aKey io) = (n', peer', err)"
          using r s c t by (auto simp: RunAntiEntropy_def)
        have inv1: "pinv (persister (nStore ?n1))" "pinv (persister ?X)" using W X io(2) k by auto
        note b = reconcileBuckets_reconciled [OF inv1 io(1) run]
        have sh: "sharesReplicaSet ?n1 (membership ?n1) key peerID = sharesReplicaSet n (membership n) key peerID" for key
          using k by (simp add: sharesReplicaSet_def)
        have pre: "reconciled (pview (persister (nStore n))) (pview (persister peer)) (pview (persister (nStore ?n1))) (pview (persister ?X))
            {} True (aWindow io = id \<and> aPeerWindow io = id \<and> (\<forall>b k. calmKey (aKey io b k)))"
          using W X io(2) k by (auto simp: reconciled_def)
        from b have "reconciled (pview (persister (nStore ?n1))) (pview (persister ?X)) (pview (persister (nStore n'))) (pview (persister peer'))
            {k. BucketFor k antiEntropyNumBuckets \<in> set bs \<and> sharesReplicaSet n (membership n) k peerID} (err = None)
            (\<forall>b k. calmKey (aKey io b k))"
          unfolding sh by blast
        then have "reconciled (pview (persister (nStore ?n1))) (pview (persister ?X)) (pview (persister (nStore n'))) (pview (persister peer'))
            {k. BucketFor k antiEntropyNumBuckets \<in> set bs \<and> sharesReplicaSet n (membership n) k peerID} (err = None)
            (aWindow io = id \<and> aPeerWindow io = id \<and> (\<forall>b k. calmKey (aKey io b k)))"
          by (rule reconciled_calm) blast
        note all = reconciled_trans [OF pre this, unfolded Un_empty_left]
        show ?thesis using all b s bt bs by blast
      qed
    qed
  qed
qed

end

section \<open>Properties\<close>

text \<open>
  C5: Anti-entropy brings two replicas together. When a run against a peer succeeds, then each key of a
  divergent bucket that both nodes replicate is afterwards covered on both sides by what either side held,
  whatever other requests wrote meanwhile; and if nothing else was written, both sides end with the same
  clocks, the maximal ones of what the two held. The buckets are those the tree comparison reports.
\<close>

theorem anti_entropy_converges:
  assumes "listed_persistence P pinv pview fits" "pinv (persister (nStore n))" "pinv (persister peer)"
    and "\<forall>b k. growing P pinv pview fits (aKey io b k)"
    and "\<forall>ds. grows P pinv pview fits ds (aWindow io ds) \<and> grows P pinv pview fits ds (aPeerWindow io ds)"
    and "RunAntiEntropy P halted n peerID peer io = (n', peer', None)"
  shows "\<exists>s t bs. Build P (nStore n) 16 = Some (Inr s) \<and> Build P peer 16 = Some (Inr t) \<and> DivergentBuckets s t = Some bs \<and>
    (noCollision s t \<longrightarrow> set bs = {b. b < 16 \<and> leafDiffers s t b}) \<and>
    (\<forall>key. BucketFor key 16 \<in> set bs \<and> sharesReplicaSet n (membership n) key peerID \<longrightarrow>
      (\<forall>c. covers (pview (persister (nStore n)) key) c \<or> covers (pview (persister peer) key) c \<longrightarrow>
         covers (pview (persister (nStore n')) key) c \<and> covers (pview (persister peer') key) c) \<and>
      (aWindow io = id \<and> aPeerWindow io = id \<and> (\<forall>b k. calmKey (aKey io b k)) \<longrightarrow>
         clk ` set (pview (persister (nStore n')) key) = clk ` set (pview (persister peer') key) \<and>
         (\<forall>c. covers (pview (persister peer') key) c \<longleftrightarrow>
            covers (pview (persister (nStore n)) key) c \<or> covers (pview (persister peer) key) c)))"
proof -
  let ?L = "pview (persister (nStore n))" and ?R = "pview (persister peer)"
    and ?L' = "pview (persister (nStore n'))" and ?R' = "pview (persister peer')"
    and ?calm = "aWindow io = id \<and> aPeerWindow io = id \<and> (\<forall>b k. calmKey (aKey io b k))"
  from listed_persistence.RunAntiEntropy_reconciled [OF assms] obtain s t bs
    where b: "Build P (nStore n) 16 = Some (Inr s)" "Build P peer 16 = Some (Inr t)" "DivergentBuckets s t = Some bs"
      and rec: "reconciled ?L ?R ?L' ?R' {k. BucketFor k 16 \<in> set bs \<and> sharesReplicaSet n (membership n) k peerID} True ?calm"
    by (auto simp: antiEntropyNumBuckets_def)
  have anti: "antichain (?L' key)" "antichain (?R' key)" for key
    using assms(1) by (auto simp: listed_persistence_def intro: persistence.view_antichain)
  have both: "covers (?L' key) c \<and> covers (?R' key) c"
    if "BucketFor key 16 \<in> set bs \<and> sharesReplicaSet n (membership n) key peerID" "covers (?L key) c \<or> covers (?R key) c" for key c
    using rec that unfolding reconciled_def by blast
  have none: "covers (?L key) c \<or> covers (?R key) c" if ?calm "covers (?L' key) c \<or> covers (?R' key) c" for key c
    using rec that unfolding reconciled_def by blast
  have same: "clk ` set (?L' key) = clk ` set (?R' key)"
    if "BucketFor key 16 \<in> set bs \<and> sharesReplicaSet n (membership n) key peerID" ?calm for key
    using covers_same_clocks [OF anti] covers_same_clocks [OF anti(2,1)] both [OF that(1)] none [OF that(2)] by blast
  have "noCollision s t \<Longrightarrow> set bs = {b. b < 16 \<and> leafDiffers s t b}"
    using DivergentBuckets_leaves [OF b(1,2)] b(3) by auto
  then show ?thesis using b both none same by (intro exI [of _ s] exI [of _ t] exI [of _ bs]) blast
qed

text \<open>A replica that holds a key, against one with an empty store.\<close>

definition calmIO :: "(unit, 'p) keyIO" where
  "calmIO = \<lparr>kFetch = Answered, kWindow = id, kPeerWindow = id, kDial = Some (), kPush = Answered\<rparr>"

definition demoIO :: "(unit, 'p) aeIO" where
  "demoIO = \<lparr>aDial = Some (), aTree = Answered, aWindow = id, aPeerWindow = id, aKeys = (\<lambda>_. Answered), aKey = (\<lambda>_ _. calmIO)\<rparr>"

lemma walk_total:
  assumes "length (Nodes s) = 2 * NumBuckets s - 1" "length (Nodes t) = length (Nodes s)"
  shows "i < length (Nodes s) \<Longrightarrow> \<exists>bs. walk s t i acc = Some bs"
  using assms
proof (induction s t i acc rule: walk.induct)
  case (1 s t i acc)
  show ?case
  proof (cases "Nodes s ! i = Nodes t ! i \<or> isLeafIndex i (NumBuckets s)")
    case True
    then show ?thesis using "1.prems" by (subst walk.simps) auto
  next
    case False
    then have i: "2 * i + 1 < length (Nodes s)" "2 * i + 2 < length (Nodes s)"
      using "1.prems" by (auto simp: isLeafIndex_def)
    obtain bs where bs: "walk s t (2 * i + 1) acc = Some bs" using "1.IH"(1) i False "1.prems" by auto
    obtain bs' where "walk s t (2 * i + 2) bs = Some bs'" using "1.IH"(2) [OF _ _ _ bs] i False "1.prems" by auto
    then show ?thesis using bs False "1.prems" by (subst walk.simps) auto
  qed
qed

lemma demo_reconcileKey:
  assumes x: "nStore x = M" "membership x = demoView" "nID x = ''n''" "\<not> clientsClosed x"
    and get: "dsGet P M ''k'' = Inr ([nullItem], True)" "dsGet P peer ''k'' = Inr (its, f)"
    and peer: "its = [nullItem] \<and> f \<and> peer' = peer \<or> its = [] \<and> \<not> f \<and> serveReplicate P h peer ''k'' [toProtoDataItem nullItem] = (peer', OK)"
  shows "\<exists>x'. reconcileKey P h x demoView ''m'' peer ''k'' calmIO = (x', peer', None) \<and>
    nStore x' = M \<and> membership x' = demoView \<and> nID x' = ''n'' \<and> \<not> clientsClosed x' \<and> quorum x' = quorum x"
proof -
  have js: "jsonOk (Value nullItem)" by (simp add: nullItem_def)
  have eq: "Compare (VectorClock nullItem) (VectorClock nullItem) = Equal" by (simp add: Compare_cases)
  from peer show ?thesis
  proof
    assume "its = [nullItem] \<and> f \<and> peer' = peer"
    then show ?thesis using x get js eq
      by (simp add: reconcileKey_def calmIO_def replyOf_def clientFetchItem_def serveFetchItem_def proto_roundtrip)
  next
    assume p: "its = [] \<and> \<not> f \<and> serveReplicate P h peer ''k'' [toProtoDataItem nullItem] = (peer', OK)"
    obtain x1 c where c: "clientFor (x\<lparr>nStore := M\<rparr>) demoView ''m'' (Some ()) = (x1, Inr c)" "\<not> clientsClosed x1"
      using clientFor_dialed [of demoView "''m''" "x\<lparr>nStore := M\<rparr>" "Some ()"] x(4) by (auto simp: demoView_def)
    note k = clientFor_keeps [OF c(1)]
    show ?thesis using x get c k p
      by (simp add: reconcileKey_def calmIO_def replyOf_def clientFetchItem_def serveFetchItem_def pushItems_def)
  qed
qed

lemma demo_reconcileBuckets:
  assumes M: "dsKeys P M = Inr [''k'']" "dsGet P M ''k'' = Inr ([nullItem], True)"
    and F: "dsKeys P F = Inr []" "dsGet P F ''k'' = Inr ([], False)" "serveReplicate P h F ''k'' [toProtoDataItem nullItem] = (M, OK)"
    and "nStore x = M" "membership x = demoView" "nID x = ''n''" "qN (quorum x) = 2" "\<not> clientsClosed x" "peer = F \<or> peer = M"
  shows "\<exists>x' peer'. reconcileBuckets P h x ''m'' peer bs (\<lambda>_. Answered) (\<lambda>_ _. calmIO) = (x', peer', None)"
  using assms(6-)
proof (induction bs arbitrary: x peer)
  case (Cons b bs)
  have shares: "sharesReplicaSet x demoView ''k'' ''m''"
    using Cons.prems by (simp add: sharesReplicaSet_def demoView_list)
  obtain its f where get: "dsGet P peer ''k'' = Inr (its, f)" using Cons.prems(6) M(2) F(2) by auto
  have "\<exists>x1 p1. reconcileKey P h x demoView ''m'' peer ''k'' calmIO = (x1, p1, None) \<and> nStore x1 = M \<and> membership x1 = demoView \<and>
      nID x1 = ''n'' \<and> \<not> clientsClosed x1 \<and> quorum x1 = quorum x \<and> (p1 = F \<or> p1 = M)"
    using demo_reconcileKey [OF Cons.prems(1-3,5) M(2) get, where peer' = M and h = h] Cons.prems(6) get M(2) F(2,3) by auto
  then obtain x1 p1 where k: "reconcileKey P h x demoView ''m'' peer ''k'' calmIO = (x1, p1, None)" "nStore x1 = M" "membership x1 = demoView"
      "nID x1 = ''n''" "\<not> clientsClosed x1" "quorum x1 = quorum x" "p1 = F \<or> p1 = M" by blast
  let ?here = "BucketFor ''k'' antiEntropyNumBuckets = b"
  have "reconcileBucket P h x ''m'' peer b Answered (\<lambda>_. calmIO) = (if ?here then (x1, p1, None) else (x, peer, None))"
    using Cons.prems M(1) F(1) shares k(1)
    by (auto simp: reconcileBucket_def Let_def replyOf_def serveGetBucketKeys_def)
  then show ?case using Cons.IH [of x1 p1] Cons.IH [of x peer] k Cons.prems by (cases ?here) auto
qed simp

lemma demo_run:
  assumes M: "dsKeys P M = Inr [''k'']" "dsGet P M ''k'' = Inr ([nullItem], True)"
    and F: "dsKeys P F = Inr []" "dsGet P F ''k'' = Inr ([], False)" "serveReplicate P h F ''k'' [toProtoDataItem nullItem] = (M, OK)"
    and x: "nStore x = M" "membership x = demoView" "nID x = ''n''" "qN (quorum x) = 2" "\<not> clientsClosed x"
  shows "\<exists>x' peer'. RunAntiEntropy P h x ''m'' F demoIO = (x', peer', None)"
proof -
  have leaves: "\<exists>ls. buildLeaves P ds m ks bs = Inr ls" if reads: "\<forall>k \<in> set ks. \<exists>r. dsGet P ds k = Inr r" for ds m ks bs
  proof -
    have contents: "\<exists>t. bucketText P ds ks' = Inr t" if "set ks' \<subseteq> set ks" for ks'
      using that reads by (induction ks') fastforce+
    have digest: "\<exists>hh. hashBucketContents P ds (filter Q ks) = Inr hh" for Q
      using contents [of "sort (filter Q ks)"] by (auto simp: hashBucketContents_def)
    show ?thesis
    proof (induction bs)
      case (Cons b bs)
      then show ?case using digest [of "\<lambda>k. BucketFor k m = b"] by auto
    qed simp
  qed
  have "validateBucketCount 16 = None" using validate_power4 [of 2] by simp
  then obtain s t where s: "Build P M 16 = Some (Inr s)" and t: "Build P F 16 = Some (Inr t)"
    using leaves [of "[''k'']" M 16 "[0..<16]"] leaves [of "[]" F 16 "[0..<16]"] M F
    by (fastforce simp: Build_def Let_def)
  obtain x1 c where c: "clientFor x demoView ''m'' (Some ()) = (x1, Inr c)" "\<not> clientsClosed x1"
    using clientFor_dialed [of demoView "''m''" x "Some ()"] x(5) by (auto simp: demoView_def)
  note k = clientFor_keeps [OF c(1)]
  have tr: "fromProtoTree (toProtoTree t) = t"
    using Build_ok [OF t] Build_nodes [OF t] by (intro tree_roundtrip) auto
  obtain bs where bs: "DivergentBuckets s t = Some bs"
    using walk_total [of s t 0 "[]"] Build_ok [OF s] Build_ok [OF t] by (auto simp: DivergentBuckets_def treeOk_def)
  have x1: "nStore x1 = M" "membership x1 = demoView" "nID x1 = ''n''" "qN (quorum x1) = 2" using k x by simp_all
  obtain x' p' where r: "reconcileBuckets P h (x1\<lparr>nStore := M\<rparr>) ''m'' F bs (\<lambda>_. Answered) (\<lambda>_ _. calmIO) = (x', p', None)"
    using demo_reconcileBuckets [OF M F, of "x1\<lparr>nStore := M\<rparr>" F bs] x1 c(2) by auto
  then show ?thesis using s t tr bs c x x1
    by (simp add: RunAntiEntropy_def demoIO_def antiEntropyNumBuckets_def getOrDialClient_def replyOf_def serveGetMerkleTree_def)
qed

lemma demo_growing:
  "\<forall>b k. growing P pinv pview fits (aKey demoIO b k)"
  "\<forall>ds. grows P pinv pview fits ds (aWindow demoIO ds) \<and> grows P pinv pview fits ds (aPeerWindow demoIO ds)"
  by (simp_all add: growing_def demoIO_def calmIO_def grows_refl)

lemma demo_stores:
  "\<exists>w ios. dsPut (enginePersister alTree bitFilter) freshStore ''k'' JNull None = (freshStore\<lparr>persister := (w, ios)\<rparr>, Some nullItem) \<and>
     worldOk alTree alInv bitFilter w \<and> view alTree w ''k'' = [nullItem] \<and>
     (\<exists>x p. RunAntiEntropy (enginePersister alTree bitFilter) (\<lambda>_. False)
        (demoNode ''n'' (freshStore\<lparr>persister := (w, ios)\<rparr>) freshHints) ''m'' freshStore demoIO = (x, p, None))"
proof -
  let ?P = "enginePersister alTree bitFilter"
  obtain w ios where p: "pPut ?P (freshWorld, \<lambda>_. commitFine) ''k'' nullItem = ((w, ios), None)"
    and put: "dsPut ?P freshStore ''k'' JNull None = (freshStore\<lparr>persister := (w, ios)\<rparr>, Some nullItem)"
    using freshStore_put by fastforce
  define M where "M = freshStore\<lparr>persister := (w, ios)\<rparr>"
  have ok: "worldOk alTree alInv bitFilter w"
    using alBits.pers.put_inv [OF _ nullItem_fits p] freshWorld_ok by simp
  have v: "view alTree w ''k'' = [nullItem]"
    using alBits.pers.put_dominates [OF _ nullItem_fits p] freshWorld_ok by (simp add: freshWorld_view)
  have act: "active (eng w) = fst (mtPut alTree (mtNew alTree 1000) ''k'' nullItem)"
    using p nullItem_small
    by (auto simp: enginePersister_def engPut_def engWrite_def commit_def haltErr_def logWriteBatch_def WriteBatch_def
        writeAndSync_def fileWrite_def fileSync_def commitFine_def engApply_def newReq_def Let_def afterWrite_def
        split: prod.splits if_splits)
  have "engKeys alTree (eng w) = [''k'']" unfolding engKeys_def freshPut_state(2,3) [OF p] act
    by (simp add: mtKeys_def mtPut_def mtReplaceSet_def mtNew_def mtCurrent_def alTree_def Resolve_eq covers_def Let_def)
  then have M: "dsKeys ?P M = Inr [''k'']" by (simp add: dsKeys_def enginePersister_def M_def)
  have get: "dsGet ?P M ''k'' = Inr ([nullItem], True)"
    using worldOk_GetAll [OF ok, of "''k''"] v by (simp add: dsGet_def dsLoad_def enginePersister_def M_def reversed_def)
  have F: "dsKeys ?P freshStore = Inr []"
    by (simp add: dsKeys_def enginePersister_def engKeys_def mtKeys_def mtNew_def alTree_def)
  have js: "jsonOk (Value nullItem)" by (simp add: nullItem_def)
  have rep: "serveReplicate ?P (\<lambda>_. False) freshStore ''k'' [toProtoDataItem nullItem] = (M, OK)"
    using p js by (simp add: serveReplicate_def proto_roundtrip MergeReplicated_def M_def)
  have "\<exists>x q. RunAntiEntropy ?P (\<lambda>_. False) (demoNode ''n'' M freshHints) ''m'' freshStore demoIO = (x, q, None)"
    by (rule demo_run [OF M get F freshStore_get rep]) simp_all
  then show ?thesis using put ok v unfolding M_def by blast
qed

theorem anti_entropy_converges_witness:
  "\<exists>w ios x p. dsPut (enginePersister alTree bitFilter) freshStore ''k'' JNull None = (freshStore\<lparr>persister := (w, ios)\<rparr>, Some nullItem) \<and>
     RunAntiEntropy (enginePersister alTree bitFilter) (\<lambda>_. False) (demoNode ''n'' (freshStore\<lparr>persister := (w, ios)\<rparr>) freshHints)
       ''m'' freshStore demoIO = (x, p, None) \<and>
     (\<exists>s t bs. Build (enginePersister alTree bitFilter) (freshStore\<lparr>persister := (w, ios)\<rparr>) 16 = Some (Inr s) \<and>
        Build (enginePersister alTree bitFilter) freshStore 16 = Some (Inr t) \<and> DivergentBuckets s t = Some bs \<and>
        (BucketFor ''k'' 16 \<in> set bs \<longrightarrow> covers (view alTree (fst (persister p)) ''k'') (clk nullItem)))"
proof -
  let ?P = "enginePersister alTree bitFilter"
  obtain w ios x p where put: "dsPut ?P freshStore ''k'' JNull None = (freshStore\<lparr>persister := (w, ios)\<rparr>, Some nullItem)"
    and ok: "worldOk alTree alInv bitFilter w" and v: "view alTree w ''k'' = [nullItem]"
    and run: "RunAntiEntropy ?P (\<lambda>_. False) (demoNode ''n'' (freshStore\<lparr>persister := (w, ios)\<rparr>) freshHints) ''m'' freshStore demoIO = (x, p, None)"
    using demo_stores by blast
  let ?n = "demoNode ''n'' (freshStore\<lparr>persister := (w, ios)\<rparr>) freshHints"
  have inv: "case persister (nStore ?n) of (w, _) \<Rightarrow> worldOk alTree alInv bitFilter w"
    "case persister freshStore of (w, _) \<Rightarrow> worldOk alTree alInv bitFilter w" using ok freshWorld_ok by simp_all
  have sh: "sharesReplicaSet ?n (membership ?n) ''k'' ''m''" by (simp add: sharesReplicaSet_def demoView_list)
  from anti_entropy_converges [OF alBits.listed.listed_persistence_axioms inv demo_growing run] obtain s t bs
    where b: "Build ?P (freshStore\<lparr>persister := (w, ios)\<rparr>) 16 = Some (Inr s)" "Build ?P freshStore 16 = Some (Inr t)" "DivergentBuckets s t = Some bs"
      and c: "BucketFor ''k'' 16 \<in> set bs \<Longrightarrow> covers (view alTree w ''k'') (clk nullItem) \<Longrightarrow> covers (view alTree (fst (persister p)) ''k'') (clk nullItem)"
    using sh by (fastforce simp: split_def)
  then have "BucketFor ''k'' 16 \<in> set bs \<longrightarrow> covers (view alTree (fst (persister p)) ''k'') (clk nullItem)"
    using v by (simp add: covers_def)
  then show ?thesis using put run b by blast
qed



end
