(* ===== verification/Handoff.thy ===== *)
theory Handoff
  imports Coordinate
begin

text \<open>
  Handoff (src/internal/node/handoff.go) and hint delivery (hintdelivery.go). A handoff is a task that
  runs in steps: it lists the keys, then moves one planned key after the other, then records the new
  base; a read that fails is retried by leaving the task where it is. Its context has ended when a newer
  handoff superseded it or background work was stopped. A push is retried until it succeeds or is turned
  into a hint: the attempts are a list, which ends where the context ends.
\<close>

section \<open>Definitions: handoff\<close>

definition handoffEnded :: "('c, 'p) Node \<Rightarrow> u64 \<Rightarrow> bool" where
  "handoffEnded n gen \<longleftrightarrow> gen \<noteq> handoffGen n \<or> bgStopped n"

definition updateHandoff :: "('c, 'p) Node \<Rightarrow> u64 \<Rightarrow> (HandoffStatus \<Rightarrow> HandoffStatus) \<Rightarrow> ('c, 'p) Node" where
  "updateHandoff n gen update = (if gen = handoffGen n then n\<lparr>handoffStatus := update (handoffStatus n)\<rparr> else n)"

definition handoffTargets :: "('c, 'p) Node \<Rightarrow> ClusterView \<Rightarrow> ClusterView \<Rightarrow> string \<Rightarrow> nodeID list" where
  "handoffTargets n base newest key =
     (let newOwners = GetPreferenceList (vRing newest) key (qN (quorum n));
          stays = (nID n \<in> set newOwners);
          oldOwners = (if stays then GetPreferenceList (vRing base) key (qN (quorum n)) else [])
      in filter (\<lambda>i. i \<noteq> nID n \<and> i \<notin> set oldOwners) newOwners)"

definition handoffPlan :: "('c, 'p) Node \<Rightarrow> ClusterView \<Rightarrow> ClusterView \<Rightarrow> string list \<Rightarrow> (string \<times> nodeID list) list" where
  "handoffPlan n base newest keys =
     filter (\<lambda>item. length (snd item) > 0) (map (\<lambda>key. (key, handoffTargets n base newest key)) keys)"

text \<open>One attempt of a push: the call, whether the context had ended after it, and whether it ends in the wait.\<close>

record 'c pushAttempt =
  paCall :: "'c replicaIO"
  paCtxErr :: bool
  paSleepEnds :: bool

definition pushOnce :: "('c, 'p) Node \<Rightarrow> ClusterView \<Rightarrow> nodeID \<Rightarrow> 'c replicaIO \<Rightarrow> ('c, 'p) Node \<times> code" where
  "pushOnce n newest target io = (if isDead n target then (n, Unavailable) else replicateTo n newest target io)"

fun addHints ::
  "('p, 'e) persister_ops \<Rightarrow> ('c, 'p) Node \<Rightarrow> nodeID \<Rightarrow> string \<Rightarrow> DataItem list \<Rightarrow> ('c, 'p) Node \<times> 'e hintError option" where
  "addHints P n target key [] = (n, None)"
| "addHints P n target key (item # siblings) =
     (case hintAdd P (nHints n) target key item of
        (hs, Some err) \<Rightarrow> (n\<lparr>nHints := hs\<rparr>, Some err)
      | (hs, None) \<Rightarrow> addHints P (n\<lparr>nHints := hs\<rparr>) target key siblings)"

datatype pushResult = Pushed | Hinted | CutShort

fun handoffPush ::
  "('p, 'e) persister_ops \<Rightarrow> ('c, 'p) Node \<Rightarrow> u64 \<Rightarrow> ClusterView \<Rightarrow> string \<Rightarrow> DataItem list \<Rightarrow> nodeID \<Rightarrow>
    'c pushAttempt list \<Rightarrow> ('c, 'p) Node \<times> pushResult" where
  "handoffPush P n gen newest key siblings target [] = (n, CutShort)"
| "handoffPush P n gen newest key siblings target (a # attempts) =
     (let staysInView = (fmlookup (vMembers newest) (nID n) \<noteq> None);
          (n1, c) = pushOnce n newest target (paCall a)
      in if c = OK then (updateHandoff n1 gen (\<lambda>s. s\<lparr>hoPushed := hoPushed s + 1\<rparr>), Pushed)
         else if paCtxErr a then (n1, CutShort)
         else
           (let (n2, hinted) =
                  (if staysInView then
                     (case addHints P n1 target key siblings of (n2, err) \<Rightarrow> (n2, err = None))
                   else (n1, False))
            in if hinted then (updateHandoff n2 gen (\<lambda>s. s\<lparr>hoHinted := hoHinted s + 1\<rparr>), Hinted)
               else if paSleepEnds a then (n2, CutShort)
               else handoffPush P n2 gen newest key siblings target attempts))"

text \<open>The pushes of a key run in parallel; here they are made in the order of its targets.\<close>

fun pushTargets ::
  "('p, 'e) persister_ops \<Rightarrow> ('c, 'p) Node \<Rightarrow> u64 \<Rightarrow> ClusterView \<Rightarrow> string \<Rightarrow> DataItem list \<Rightarrow>
    (nodeID \<Rightarrow> 'c pushAttempt list) \<Rightarrow> nodeID list \<Rightarrow> ('c, 'p) Node \<times> (nodeID \<times> pushResult) list" where
  "pushTargets P n gen newest key siblings io [] = (n, [])"
| "pushTargets P n gen newest key siblings io (target # targets) =
     (let (n1, r) = handoffPush P n gen newest key siblings target (io target);
          (n2, rs) = pushTargets P n1 gen newest key siblings io targets
      in (n2, (target, r) # rs))"

datatype keyResult = KeyMoved "(nodeID \<times> pushResult) list" | KeyRetry | KeyCutShort

definition handoffKey ::
  "('p, 'e) persister_ops \<Rightarrow> ('c, 'p) Node \<Rightarrow> u64 \<Rightarrow> ClusterView \<Rightarrow> string \<times> nodeID list \<Rightarrow>
    (nodeID \<Rightarrow> 'c pushAttempt list) \<Rightarrow> ('c, 'p) Node \<times> keyResult" where
  "handoffKey P n gen newest item io =
     (case dsGet P (nStore n) (fst item) of
        Inl _ \<Rightarrow> (n, KeyRetry)
      | Inr (items, found) \<Rightarrow>
          if \<not> found then (n, KeyMoved [])
          else
            (let (n1, rs) = pushTargets P n gen newest (fst item) items io (snd item)
             in if list_all (\<lambda>r. snd r \<noteq> CutShort) rs \<and> \<not> handoffEnded n1 gen then (n1, KeyMoved rs) else (n1, KeyCutShort)))"

definition finishHandoff :: "('c, 'p) Node \<Rightarrow> u64 \<Rightarrow> ClusterView \<Rightarrow> atomicIO \<Rightarrow> ('c, 'p) Node" where
  "finishHandoff n gen newest io =
     (if gen \<noteq> handoffGen n then n
      else
        TriggerAntiEntropy (n\<lparr>handoffDisk := fst (writeHandoff (handoffDisk n) newest io), handoffBase := newest,
          handoffRunning := False, handoffsCompleted := handoffsCompleted n + 1,
          handoffStatus := (handoffStatus n)\<lparr>hoDone := True, hoPending := 0\<rparr>\<rparr>))"

text \<open>
  One step of \<open>runHandoff\<close>: the node after it and what is left of the task. The count of pending
  keys is Go's int; it is decremented once per planned key.
\<close>

definition handoffStep ::
  "('p, 'e) persister_ops \<Rightarrow> ('c, 'p) Node \<Rightarrow> u64 \<Rightarrow> ClusterView \<Rightarrow> ClusterView \<Rightarrow> (string \<times> nodeID list) list option \<Rightarrow>
    (nodeID \<Rightarrow> 'c pushAttempt list) \<Rightarrow> atomicIO \<Rightarrow> ('c, 'p) Node \<times> 'c task option" where
  "handoffStep P n gen base newest stage io fio =
     (case stage of
        None \<Rightarrow>
          (case dsKeys P (nStore n) of
             Inl _ \<Rightarrow> if handoffEnded n gen then (n, None) else (n, Some (HandoffTask gen base newest None))
           | Inr keys \<Rightarrow>
               (let plan = handoffPlan n base newest keys
                in (updateHandoff n gen (\<lambda>s. s\<lparr>hoPending := length plan\<rparr>), Some (HandoffTask gen base newest (Some plan)))))
      | Some [] \<Rightarrow> (finishHandoff n gen newest fio, None)
      | Some (item # plan) \<Rightarrow>
          if handoffEnded n gen then (n, None)
          else
            (case handoffKey P n gen newest item io of
               (n1, KeyMoved _) \<Rightarrow>
                 (updateHandoff n1 gen (\<lambda>s. s\<lparr>hoPending := hoPending s - 1\<rparr>), Some (HandoffTask gen base newest (Some plan)))
             | (n1, KeyRetry) \<Rightarrow> (n1, Some (HandoffTask gen base newest stage))
             | (n1, KeyCutShort) \<Rightarrow> (n1, None)))"

definition ResumeHandoff :: "('c, 'p) Node \<Rightarrow> ('c, 'p) Node" where
  "ResumeHandoff n = startHandoff n"

text \<open>What \<open>WaitHandoff\<close> and \<open>WaitDrained\<close> wait for.\<close>

definition handoffReached :: "('c, 'p) Node \<Rightarrow> u64 \<Rightarrow> bool" where
  "handoffReached n e \<longleftrightarrow> vEpoch (handoffBase n) \<ge> e"

definition drained :: "('c, 'p) Node \<Rightarrow> u64 \<Rightarrow> bool" where
  "drained n e \<longleftrightarrow> handoffReached n e \<and> (IsMember n \<or> allPeersAtLeast n (membership n) e)"

section \<open>Definitions: hint delivery\<close>

datatype 'c deliveryIO = Deliver "'c replicaIO" | CtxEnds

text \<open>The hints of one target, each with the outcome of its call.\<close>

fun deliverLoop ::
  "('p, 'e) persister_ops \<Rightarrow> ('c, 'p) Node \<Rightarrow> nodeID \<Rightarrow> Hint list \<Rightarrow> (string \<Rightarrow> 'c deliveryIO) \<Rightarrow>
    ('c, 'p) Node \<times> 'e hintError option" where
  "deliverLoop P n target [] io = (n, None)"
| "deliverLoop P n target (h # pending) io =
     (case io (hintKey h) of
        CtxEnds \<Rightarrow> (n, None)
      | Deliver call \<Rightarrow>
          (case replicateTo n (membership n) target call of
             (n1, c) \<Rightarrow>
               if c = Unavailable \<or> c = DeadlineExceeded then (n1, None)
               else if c \<noteq> OK then deliverLoop P n1 target pending io
               else
                 (case MarkDelivered P (nHints n1) target (hintKey h) (hintItems h) of
                    (hs, Some err) \<Rightarrow> (n1\<lparr>nHints := hs\<rparr>, Some err)
                  | (hs, None) \<Rightarrow> deliverLoop P (n1\<lparr>nHints := hs\<rparr>) target pending io)))"

definition deliverHintsTo ::
  "('p, 'e) persister_ops \<Rightarrow> ('c, 'p) Node \<Rightarrow> nodeID \<Rightarrow> (string \<Rightarrow> 'c deliveryIO) \<Rightarrow> ('c, 'p) Node \<times> 'e hintError option" where
  "deliverHintsTo P n target io =
     (case Pending P (nHints n) target of
        Inl err \<Rightarrow> (n, Some err)
      | Inr pending \<Rightarrow> deliverLoop P n target pending io)"

definition recordPendingHints :: "('p, 'e) persister_ops \<Rightarrow> ('c, 'p) Node \<Rightarrow> ('c, 'p) Node" where
  "recordPendingHints P n =
     (case PendingItems P (nHints n) of
        Inl _ \<Rightarrow> n
      | Inr pending \<Rightarrow> n\<lparr>hintsPending := word_of_nat pending, hintsPendingKnown := True\<rparr>)"

text \<open>\<open>ended i\<close>: the context has ended when the i-th target's turn comes.\<close>

fun deliverTargets ::
  "('p, 'e) persister_ops \<Rightarrow> ('c, 'p) Node \<Rightarrow> ClusterView \<Rightarrow> nodeID list \<Rightarrow> (nodeID \<Rightarrow> bool) \<Rightarrow>
    (nodeID \<Rightarrow> string \<Rightarrow> 'c deliveryIO) \<Rightarrow> ('c, 'p) Node" where
  "deliverTargets P n v [] ended io = recordPendingHints P n"
| "deliverTargets P n v (target # targets) ended io =
     (if ended target then n
      else if fmlookup (vMembers v) target = None \<or> isDead n target then deliverTargets P n v targets ended io
      else deliverTargets P (fst (deliverHintsTo P n target (io target))) v targets ended io)"

definition deliverHints ::
  "('p, 'e) persister_ops \<Rightarrow> ('c, 'p) Node \<Rightarrow> (nodeID \<Rightarrow> bool) \<Rightarrow> (nodeID \<Rightarrow> string \<Rightarrow> 'c deliveryIO) \<Rightarrow> ('c, 'p) Node" where
  "deliverHints P n ended io =
     (case Targets P (nHints n) of
        Inl _ \<Rightarrow> n
      | Inr targets \<Rightarrow> deliverTargets P n (membership n) targets ended io)"

section \<open>Hints accumulate\<close>

lemma hintAdd_covers:
  assumes "persistence P pinv pview fits" "pinv (hsEngine h)" "fits (storageKey t k) i" "hintAdd P h t k i = (h', r)"
  shows "pinv (hsEngine h') \<and> (\<forall>sk c. covers (pview (hsEngine h) sk) c \<longrightarrow> covers (pview (hsEngine h') sk) c) \<and>
    (r = None \<longrightarrow> covers (pview (hsEngine h') (storageKey t k)) (clk i))"
proof (cases "t = [] \<or> sep \<in> set t \<or> isMarker i")
  case True
  then show ?thesis using assms by (auto simp: hintAdd_def split: if_splits)
next
  case False
  obtain p err where put: "pPut P (hsEngine h) (storageKey t k) i = (p, err)" by fastforce
  have h': "hsEngine h' = p" "(r = None) = (err = None)"
    using assms(4) put False by (auto simp: hintAdd_def split: option.splits)
  have inv: "pinv p" by (rule persistence.put_inv [OF assms(1-3) put])
  have other: "pview p sk = pview (hsEngine h) sk" if "sk \<noteq> storageKey t k" for sk
    by (rule persistence.put_other [OF assms(1-3) put that])
  show ?thesis
  proof (cases err)
    case None
    then have "covers (pview p (storageKey t k)) c \<longleftrightarrow> covers (pview (hsEngine h) (storageKey t k)) c \<or> c \<le> clk i" for c
      using persistence.put_covers [OF assms(1-3)] put by blast
    moreover have "covers (pview p sk) c" if "covers (pview (hsEngine h) sk) c" for sk c
      using that other [of sk] calculation by (cases "sk = storageKey t k") auto
    ultimately show ?thesis using inv h' by auto
  next
    case (Some e)
    then have "pview p (storageKey t k) = pview (hsEngine h) (storageKey t k)"
      using persistence.put_failed [OF assms(1-3)] put by blast
    then have "pview p sk = pview (hsEngine h) sk" for sk using other by metis
    moreover have "r \<noteq> None" using h'(2) Some by simp
    ultimately show ?thesis using inv h'(1) by auto
  qed
qed

lemma addHints_covers:
  assumes "persistence P pinv pview fits" "pinv (hsEngine (nHints n))" "\<forall>i \<in> set items. fits (storageKey t k) i"
    and "addHints P n t k items = (n', r)"
  shows "pinv (hsEngine (nHints n')) \<and>
    (\<forall>sk c. covers (pview (hsEngine (nHints n)) sk) c \<longrightarrow> covers (pview (hsEngine (nHints n')) sk) c) \<and>
    (r = None \<longrightarrow> (\<forall>i \<in> set items. covers (pview (hsEngine (nHints n')) (storageKey t k)) (clk i))) \<and>
    (\<exists>h. n' = n\<lparr>nHints := h\<rparr>)"
  using assms(2-)
proof (induction items arbitrary: n)
  case Nil
  then have "n' = n\<lparr>nHints := nHints n\<rparr>" by simp
  then show ?case using Nil by (intro conjI exI [of _ "nHints n"]) simp_all
next
  case (Cons i items)
  obtain h e where h: "hintAdd P (nHints n) t k i = (h, e)" by fastforce
  note c = hintAdd_covers [OF assms(1) Cons.prems(1) _ h]
  show ?case
  proof (cases e)
    case None
    with Cons.prems(3) h have rest: "addHints P (n\<lparr>nHints := h\<rparr>) t k items = (n', r)" by simp
    have inv: "pinv (hsEngine (nHints (n\<lparr>nHints := h\<rparr>)))" using c Cons.prems(2) by simp
    have fit: "\<forall>i \<in> set items. fits (storageKey t k) i" using Cons.prems(2) by simp
    note ih = Cons.IH [OF inv fit rest]
    from ih obtain h' where h': "n' = n\<lparr>nHints := h'\<rparr>" by auto
    have head: "covers (pview (hsEngine h) (storageKey t k)) (clk i)" using c None Cons.prems(2) by simp
    have up: "covers (pview (hsEngine (nHints n')) sk) d" if "covers (pview (hsEngine (nHints n)) sk) d" for sk d
      using ih c Cons.prems(2) that by simp
    have all: "covers (pview (hsEngine (nHints n')) (storageKey t k)) (clk j)" if "r = None" "j \<in> set (i # items)" for j
      using ih head that by auto
    have keep: "pinv (hsEngine (nHints n'))" using ih by blast
    show ?thesis by (intro conjI allI impI ballI exI [of _ h'] keep up all h')
  next
    case (Some x)
    then have "n' = n\<lparr>nHints := h\<rparr>" "r \<noteq> None" using Cons.prems(3) h by auto
    then show ?thesis using c Cons.prems(2) by auto
  qed
qed

lemma pushOnce_keeps:
  assumes "pushOnce n v t io = (n', c)"
  shows "nHints n' = nHints n \<and> nID n' = nID n \<and> nStore n' = nStore n \<and> (c = OK \<longrightarrow> rCode io = OK)"
  using assms by (auto simp: pushOnce_def replicateTo_def dest: clientFor_keeps split: if_splits prod.splits sum.splits)

lemma updateHandoff_keeps [simp]:
  "nHints (updateHandoff n gen f) = nHints n" "nID (updateHandoff n gen f) = nID n" "nStore (updateHandoff n gen f) = nStore n"
  by (simp_all add: updateHandoff_def)

text \<open>What a push of \<open>siblings\<close> to a target achieved.\<close>

definition delivered_or_hinted ::
  "('p \<Rightarrow> string \<Rightarrow> DataItem list) \<Rightarrow> ('c, 'p) Node \<Rightarrow> ClusterView \<Rightarrow> string \<Rightarrow> DataItem list \<Rightarrow> nodeID \<Rightarrow> 'c pushAttempt list \<Rightarrow> bool" where
  "delivered_or_hinted pview n newest key siblings t attempts \<longleftrightarrow>
     (\<exists>a \<in> set attempts. rCode (paCall a) = OK) \<or>
     fmlookup (vMembers newest) (nID n) \<noteq> None \<and>
     (\<forall>i \<in> set siblings. covers (pview (hsEngine (nHints n)) (storageKey t key)) (clk i))"

lemma handoffPush_spec:
  assumes "persistence P pinv pview fits" "pinv (hsEngine (nHints n))" "\<forall>i \<in> set siblings. fits (storageKey t key) i"
    and "handoffPush P n gen newest key siblings t attempts = (n', r)"
  shows "pinv (hsEngine (nHints n')) \<and> nID n' = nID n \<and> nStore n' = nStore n \<and>
    (\<forall>sk c. covers (pview (hsEngine (nHints n)) sk) c \<longrightarrow> covers (pview (hsEngine (nHints n')) sk) c) \<and>
    (r \<noteq> CutShort \<longrightarrow> delivered_or_hinted pview n' newest key siblings t attempts)"
  using assms(2-)
proof (induction attempts arbitrary: n)
  case (Cons a attempts)
  obtain n1 c where po: "pushOnce n newest t (paCall a) = (n1, c)" by fastforce
  note k = pushOnce_keeps [OF po]
  obtain n2 e where ah: "addHints P n1 t key siblings = (n2, e)" by fastforce
  have inv1: "pinv (hsEngine (nHints n1))" using k Cons.prems(1) by simp
  note h = addHints_covers [OF assms(1) inv1 Cons.prems(2) ah]
  then have n2: "nID n2 = nID n1" "nStore n2 = nStore n1" by auto
  let ?stays = "fmlookup (vMembers newest) (nID n) \<noteq> None"
  consider (ok) "c = OK" | (ctx) "c \<noteq> OK" "paCtxErr a" | (hint) "c \<noteq> OK" "\<not> paCtxErr a" "?stays" "e = None"
    | (hintFails) "c \<noteq> OK" "\<not> paCtxErr a" "?stays" "e \<noteq> None" | (leaves) "c \<noteq> OK" "\<not> paCtxErr a" "\<not> ?stays" by blast
  then show ?case
  proof cases
    case ok
    then have "n' = updateHandoff n1 gen (\<lambda>s. s\<lparr>hoPushed := hoPushed s + 1\<rparr>)" using Cons.prems(3) po by simp
    then show ?thesis using k Cons.prems(1) ok by (simp add: delivered_or_hinted_def)
  next
    case ctx
    then show ?thesis using Cons.prems po k by auto
  next
    case hint
    then have "n' = updateHandoff n2 gen (\<lambda>s. s\<lparr>hoHinted := hoHinted s + 1\<rparr>)" using Cons.prems(3) po ah by simp
    then show ?thesis using k h n2 hint by (simp add: delivered_or_hinted_def)
  next
    case hintFails
    show ?thesis
    proof (cases "paSleepEnds a")
      case True
      then have "n' = n2" "r = CutShort" using Cons.prems(3) po ah hintFails by auto
      then show ?thesis using k h n2 by simp
    next
      case False
      then have "handoffPush P n2 gen newest key siblings t attempts = (n', r)" using Cons.prems(3) po ah hintFails by simp
      from Cons.IH [OF _ Cons.prems(2) this] h k n2 show ?thesis by (auto simp: delivered_or_hinted_def)
    qed
  next
    case leaves
    show ?thesis
    proof (cases "paSleepEnds a")
      case True
      then have "n' = n1" "r = CutShort" using Cons.prems(3) po leaves by auto
      then show ?thesis using k Cons.prems(1) by simp
    next
      case False
      then have "handoffPush P n1 gen newest key siblings t attempts = (n', r)" using Cons.prems(3) po leaves by simp
      from Cons.IH [OF inv1 Cons.prems(2) this] k show ?thesis by (auto simp: delivered_or_hinted_def)
    qed
  qed
qed simp

lemma pushTargets_spec:
  assumes "persistence P pinv pview fits" "pinv (hsEngine (nHints n))"
    "\<forall>t \<in> set targets. \<forall>i \<in> set siblings. fits (storageKey t key) i"
    and "pushTargets P n gen newest key siblings io targets = (n', rs)" "list_all (\<lambda>r. snd r \<noteq> CutShort) rs"
  shows "pinv (hsEngine (nHints n')) \<and> nID n' = nID n \<and>
    (\<forall>sk c. covers (pview (hsEngine (nHints n)) sk) c \<longrightarrow> covers (pview (hsEngine (nHints n')) sk) c) \<and>
    (\<forall>t \<in> set targets. delivered_or_hinted pview n' newest key siblings t (io t))"
  using assms(2-)
proof (induction targets arbitrary: n rs)
  case (Cons t targets)
  obtain n1 r where one: "handoffPush P n gen newest key siblings t (io t) = (n1, r)" by fastforce
  obtain rs1 where rest: "pushTargets P n1 gen newest key siblings io targets = (n', rs1)"
    and rs: "rs = (t, r) # rs1" using Cons.prems(3) one by (auto simp: Let_def split: prod.splits)
  note s = handoffPush_spec [OF assms(1) Cons.prems(1) _ one]
  note ih = Cons.IH [OF _ _ rest]
  show ?case using s ih Cons.prems(2,4) rs by (auto simp: delivered_or_hinted_def)
qed simp

section \<open>Properties\<close>


text \<open>A node that was alone hands a key over to the node that joined it.\<close>

definition soloView :: ClusterView where
  "soloView = demoView\<lparr>vMembers := fmupd ''n'' ''h:1'' fmempty,
     vRing := (case NewHashRingFromMembers 1 [''n''] of Inr hr \<Rightarrow> hr | Inl _ \<Rightarrow> NewHashRing 1)\<rparr>"

lemma soloView_list: "GetPreferenceList (vRing soloView) ''k'' 2 = [''n'']"
  by code_simp

lemma hint_fits: "t = ''m'' \<or> t = ''n'' \<Longrightarrow> worldFits (storageKey t ''k'') nullItem"
proof -
  assume t: "t = ''m'' \<or> t = ''n''"
  have "validUtf8 ''n''" and v: "validUtf8 (storageKey t ''k'')"
    using t by (auto simp: storageKey_def sep_def validUtf8.simps utf8Len_ascii)
  then have "itemOk nullItem"
    by (simp add: itemOk_def nullItem_clock) (simp add: nullItem_def)
  moreover have "length (jsonText (sstRecordJson (sstToRecord (storageKey t ''k'', nullItem)))) < 2 ^ 32"
    using t unfolding sstRecordJson_def sstToRecord_def fst_conv snd_conv nullItem_clock Snapshot_id
    by (elim disjE) (simp_all add: nullItem_def marshalRaw_def marshalClock_def sorted_list_of_fset.rep_eq vcAt_def storageKey_def
        sep_def quoteString_def quoteBody.simps escapeASCII_def itoa.simps)
  ultimately show ?thesis using v by (simp add: worldFits_def sstFits_def)
qed


end
