(* ===== verification/Node_Life.thy ===== *)
theory Node_Life
  imports AntiEntropy Handoff
begin

text \<open>
  The life of a node (src/internal/node): its handlers, its background tasks and its rounds, interleaved
  in any order and with any outcome of their calls, and restarts from its files at any point. Requests,
  hint delivery and anti-entropy leave the membership and the tasks alone; the handlers of membership
  changes keep the invariant of the node, which a restart finds again on disk.
\<close>

section \<open>Steps\<close>

inductive nodeStep ::
  "(string \<Rightarrow> bool) \<Rightarrow> ('p, 'e) persister_ops \<Rightarrow> ('e \<Rightarrow> bool) \<Rightarrow> ('c, 'p) Node \<Rightarrow> ('c, 'p) Node \<Rightarrow> bool"
  for U :: "string \<Rightarrow> bool" and P :: "('p, 'e) persister_ops" and halted :: "'e \<Rightarrow> bool" where
  StepSet: "membersUtf8 members \<Longrightarrow> SetMembership U n e members io = (n', r) \<Longrightarrow> nodeStep U P halted n n'"
| StepHandlePing: "HandlePing n ping = (n', reply) \<Longrightarrow> nodeStep U P halted n n'"
| StepHeartbeats: "nodeStep U P halted n (heartbeatRound n order ctxErr dials replies)"
| StepAdopt: "AdoptTask peerID source \<in> set (tasks n) \<Longrightarrow> (\<And>info. fetched = Some info \<Longrightarrow> membersUtf8 (miMembers info)) \<Longrightarrow>
    nodeStep U P halted n (runAdopt U (n\<lparr>tasks := remove1 (AdoptTask peerID source) (tasks n)\<rparr>) peerID fetched io)"
| StepPingBack: "PingBackTask peerID \<in> set (tasks n) \<Longrightarrow>
    nodeStep U P halted n (runPingBack (n\<lparr>tasks := remove1 (PingBackTask peerID) (tasks n)\<rparr>) peerID ctxErr dial answer)"
| StepCloseRetired: "CloseRetiredTask old \<in> set (tasks n) \<Longrightarrow>
    nodeStep U P halted n (runCloseRetired (n\<lparr>tasks := remove1 (CloseRetiredTask old) (tasks n)\<rparr>) old fired)"
| StepHandoff: "HandoffTask gen base newest stage \<in> set (tasks n) \<Longrightarrow>
    handoffStep P (n\<lparr>tasks := remove1 (HandoffTask gen base newest stage) (tasks n)\<rparr>) gen base newest stage pio fio = (n1, t) \<Longrightarrow>
    nodeStep U P halted n (n1\<lparr>tasks := tasks n1 @ (case t of None \<Rightarrow> [] | Some t' \<Rightarrow> [t'])\<rparr>)"
| StepResume: "nodeStep U P halted n (ResumeHandoff n)"
| StepPut: "nodePut P n key val ctx rio order cancelAt meanwhile = (n', err) \<Longrightarrow> nodeStep U P halted n n'"
| StepCoordinatePut: "serveCoordinatePut P n key text pctx rio order cancelAt meanwhile = (n', c) \<Longrightarrow> nodeStep U P halted n n'"
| StepGet: "nodeGet P n key gio order cancelAt = (n', res) \<Longrightarrow> nodeStep U P halted n n'"
| StepReplicate: "serveReplicate P halted (nStore n) key items = (ds, c) \<Longrightarrow> nodeStep U P halted n (n\<lparr>nStore := ds\<rparr>)"
| StepDeliverHints: "nodeStep U P halted n (deliverHints P n ended dio)"
| StepAntiEntropy: "runAntiEntropyRound P halted n stores ended aio = (n', stores') \<Longrightarrow> nodeStep U P halted n n'"
| StepStop: "nodeStep U P halted n (StopBackgroundLoops dials n)"
| StepClose: "nodeStep U P halted n (nodeClose dials n)"

text \<open>
  A life under one configuration: its ID, address, neighbours and N. A restart keeps nothing but the
  files; a crash between the write of the membership file and its publication is a write reported as
  failed after its rename, followed by a restart.
\<close>

inductive nodeLife ::
  "(string \<Rightarrow> bool) \<Rightarrow> ('p, 'e) persister_ops \<Rightarrow> ('e \<Rightarrow> bool) \<Rightarrow> nodeID \<Rightarrow> string \<Rightarrow> nat \<Rightarrow> (nodeID, string) fmap \<Rightarrow>
    ('c, 'p) Node \<Rightarrow> ('c, 'p) Node \<Rightarrow> bool"
  for U :: "string \<Rightarrow> bool" and P :: "('p, 'e) persister_ops" and halted :: "'e \<Rightarrow> bool"
    and i :: nodeID and address :: string and N :: nat and neighbors :: "(nodeID, string) fmap" and n :: "('c, 'p) Node" where
  LifeStart: "nodeLife U P halted i address N neighbors n n"
| LifeStep: "nodeLife U P halted i address N neighbors n n1 \<Longrightarrow> nodeStep U P halted n1 n2 \<Longrightarrow>
    nodeLife U P halted i address N neighbors n n2"
| LifeRestart: "nodeLife U P halted i address N neighbors n n1 \<Longrightarrow>
    New U i address N w r neighbors (store :: 'e + 'p) hs idFile random io (membershipDisk n1) (handoffDisk n1) = (idFile', Inr n2) \<Longrightarrow>
    nodeLife U P halted i address N neighbors n n2"

section \<open>What requests and rounds leave alone\<close>

definition core :: "('c, 'p) Node \<Rightarrow> QuorumConfig \<times> ClusterView \<times> fileRead \<times> ClusterView \<times> fileRead \<times> 'c task list \<times> (nodeID, peerHealth) fmap" where
  "core n = (quorum n, membership n, membershipDisk n, handoffBase n, handoffDisk n, tasks n, health n)"

lemma core_updates [simp]:
  "core (n\<lparr>nStore := a\<rparr>) = core n" "core (n\<lparr>nHints := b\<rparr>) = core n" "core (n\<lparr>clients := c\<rparr>) = core n"
  "core (n\<lparr>retired := d\<rparr>) = core n" "core (n\<lparr>writeQuorumFailures := e\<rparr>) = core n" "core (n\<lparr>readQuorumFailures := e\<rparr>) = core n"
  "core (n\<lparr>aeKeysPulled := e\<rparr>) = core n" "core (n\<lparr>aeKeysPushed := e\<rparr>) = core n" "core (n\<lparr>aeRounds := e\<rparr>) = core n"
  "core (n\<lparr>aePeerFailures := e\<rparr>) = core n" "core (n\<lparr>hintsPending := e\<rparr>) = core n" "core (n\<lparr>hintsPendingKnown := f\<rparr>) = core n"
  "core (n\<lparr>handoffStatus := g\<rparr>) = core n"
  by (simp_all add: core_def)

lemma core_clientFor: "clientFor n v p d = (n', r) \<Longrightarrow> core n' = core n"
  by (drule clientFor_frame) auto

lemma core_replicateTo: "replicateTo n v p io = (n', c) \<Longrightarrow> core n' = core n"
  by (auto simp: replicateTo_def dest: core_clientFor split: prod.splits sum.splits)

lemma core_fanOut: "fanOut n v io peers = (n', rs) \<Longrightarrow> core n' = core n"
proof (induction peers arbitrary: n rs)
  case (Cons p peers)
  then show ?case by (auto simp: Let_def dest!: core_replicateTo split: prod.splits if_splits)
qed simp

lemma core_storeHints: "core (storeHints P n key item peers) = core n"
  by (induction peers arbitrary: n) simp_all

lemma core_drain: "core (drainReplication P n key item rest un keep) = core n"
  by (auto simp: drainReplication_def core_storeHints Let_def)

lemma core_putAsReplica: "putAsReplica P n v key val ctx peers io order ca mw = (n', err) \<Longrightarrow> core n' = core n"
  by (auto simp: putAsReplica_def Let_def core_drain dest!: core_fanOut split: sum.splits prod.splits option.splits if_splits decision.splits)

lemma core_forwardPut: "forwardPut n v io rs = (n', err) \<Longrightarrow> core n' = core n"
proof (induction rs arbitrary: n)
  case (Cons r rs)
  then show ?case by (auto simp: Let_def dest: core_clientFor split: prod.splits sum.splits if_splits)
qed simp

lemma core_fetchAll: "fetchAll n v io peers = (n', rs) \<Longrightarrow> core n' = core n"
proof (induction peers arbitrary: n rs)
  case (Cons p peers)
  then show ?case
    by (auto simp: Let_def fetchVote_def fetchItem_def dest!: core_clientFor split: prod.splits sum.splits if_splits)
qed simp

lemma core_requests:
  "nodePut P n key val ctx rio order ca mw = (n', err) \<Longrightarrow> core n' = core n"
  "serveCoordinatePut P n key text pctx rio order ca mw = (n', c) \<Longrightarrow> core n' = core n"
  "nodeGet P n key gio order ca = (n', res) \<Longrightarrow> core n' = core n"
  by (auto simp: nodePut_def serveCoordinatePut_def CoordinatePut_def nodeGet_def Let_def
      dest!: core_putAsReplica core_forwardPut core_fetchAll
      split: prod.splits if_splits option.splits putError.splits sum.splits getError.splits)

lemma core_addHints: "addHints P n t k items = (n', err) \<Longrightarrow> core n' = core n"
proof (induction items arbitrary: n)
  case (Cons i items)
  then show ?case by (fastforce split: prod.splits option.splits)
qed simp

lemma core_pushOnce: "pushOnce n v t io = (n', c) \<Longrightarrow> core n' = core n"
  by (auto simp: pushOnce_def dest: core_replicateTo split: if_splits)

lemma core_updateHandoff [simp]: "core (updateHandoff n gen f) = core n"
  by (simp add: updateHandoff_def)

lemma core_handoffPush: "handoffPush P n gen v key items t attempts = (n', r) \<Longrightarrow> core n' = core n"
proof (induction attempts arbitrary: n)
  case (Cons a attempts)
  obtain n1 c where c: "pushOnce n v t (paCall a) = (n1, c)" by fastforce
  obtain n2 e where h: "addHints P n1 t key items = (n2, e)" by fastforce
  show ?case using Cons.prems Cons.IH [of n1] Cons.IH [of n2] core_pushOnce [OF c] core_addHints [OF h]
    by (auto simp: c h split: if_splits)
qed simp

lemma core_pushTargets: "pushTargets P n gen v key items io ts = (n', rs) \<Longrightarrow> core n' = core n"
proof (induction ts arbitrary: n rs)
  case (Cons t ts)
  then show ?case by (auto simp: Let_def dest!: core_handoffPush split: prod.splits)
qed simp

lemma core_handoffKey: "handoffKey P n gen v item io = (n', r) \<Longrightarrow> core n' = core n"
  by (auto simp: handoffKey_def Let_def dest!: core_pushTargets split: sum.splits prod.splits if_splits)

lemma core_deliverLoop: "deliverLoop P n t hs io = (n', err) \<Longrightarrow> core n' = core n"
proof (induction hs arbitrary: n)
  case (Cons h hs)
  show ?case
  proof (cases "io (hintKey h)")
    case (Deliver call)
    obtain n1 c where c: "replicateTo n (membership n) t call = (n1, c)" by fastforce
    obtain x e where m: "MarkDelivered P (nHints n1) t (hintKey h) (hintItems h) = (x, e)" by fastforce
    show ?thesis using Cons.prems Cons.IH [of n1] Cons.IH [of "n1\<lparr>nHints := x\<rparr>"] core_replicateTo [OF c]
      by (auto simp: Deliver c m split: if_splits option.splits)
  qed (use Cons.prems in simp)
qed simp

lemma core_deliverHintsTo: "core (fst (deliverHintsTo P n t io)) = core n"
  using core_deliverLoop [of P n t _ io] by (cases "deliverHintsTo P n t io") (auto simp: deliverHintsTo_def split: sum.splits)

lemma core_recordPendingHints: "core (recordPendingHints P n) = core n"
  by (simp add: recordPendingHints_def core_def split: sum.splits)

lemma core_deliverTargets: "core (deliverTargets P n v ts ended io) = core n"
  by (induction ts arbitrary: n) (simp_all add: core_recordPendingHints core_deliverHintsTo)

lemma core_deliverHints: "core (deliverHints P n ended io) = core n"
  by (simp add: deliverHints_def core_deliverTargets split: sum.splits)

lemma core_pushItems: "pushItems P halted n v p peer key items d io = (n', peer', err) \<Longrightarrow> core n' = core n"
  by (auto simp: pushItems_def Let_def dest: core_clientFor split: prod.splits sum.splits callIO.splits)

lemma core_reconcileKey: "reconcileKey P halted n v p peer key io = (n', peer', err) \<Longrightarrow> core n' = core n"
  by (auto simp: reconcileKey_def Let_def dest!: core_pushItems split: sum.splits prod.splits option.splits if_splits)

lemma core_reconcileKeys: "reconcileKeys P halted n v p peer ks io = (n', peer', err) \<Longrightarrow> core n' = core n"
proof (induction ks arbitrary: n peer)
  case (Cons k ks)
  then show ?case by (auto dest!: core_reconcileKey split: prod.splits option.splits)
qed simp

lemma core_reconcileBucket: "reconcileBucket P halted n p peer b kio io = (n', peer', err) \<Longrightarrow> core n' = core n"
  by (auto simp: reconcileBucket_def Let_def dest!: core_reconcileKeys split: sum.splits)

lemma core_reconcileBuckets: "reconcileBuckets P halted n p peer bs kio io = (n', peer', err) \<Longrightarrow> core n' = core n"
proof (induction bs arbitrary: n peer)
  case (Cons b bs)
  then show ?case by (auto dest!: core_reconcileBucket split: prod.splits option.splits)
qed simp

lemma core_RunAntiEntropy: "RunAntiEntropy P halted n p peer io = (n', peer', err) \<Longrightarrow> core n' = core n"
  by (auto simp: RunAntiEntropy_def getOrDialClient_def dest!: core_reconcileBuckets core_clientFor
      split: option.splits sum.splits prod.splits if_splits)

lemma core_roundPeers: "roundPeers P halted n stores ps ended io = (n', stores') \<Longrightarrow> core n' = core n"
proof (induction ps arbitrary: n stores)
  case (Cons p ps)
  then show ?case by (auto dest!: core_RunAntiEntropy split: prod.splits if_splits)
qed simp

lemma core_antiEntropyRound: "runAntiEntropyRound P halted n stores ended io = (n', stores') \<Longrightarrow> core n' = core n"
  by (auto simp: runAntiEntropyRound_def dest!: core_roundPeers split: prod.splits)

section \<open>The invariant\<close>

text \<open>The views that handoffs move to.\<close>

definition handoffViews :: "'c task list \<Rightarrow> ClusterView set" where
  "handoffViews ts = {v. \<exists>g b st. HandoffTask g b v st \<in> set ts}"

lemma handoffViews_simps [simp]:
  "handoffViews [] = {}" "handoffViews (ts @ us) = handoffViews ts \<union> handoffViews us"
  "handoffViews [HandoffTask g b v st] = {v}" "handoffViews [AdoptTask p f] = {}"
  "handoffViews [PingBackTask p] = {}" "handoffViews [CloseRetiredTask c] = {}"
  by (auto simp: handoffViews_def)

lemma handoffViews_subset: "set ts \<subseteq> set us \<Longrightarrow> handoffViews ts \<subseteq> handoffViews us"
  by (auto simp: handoffViews_def)

text \<open>
  The files load; what the MEMBERSHIP file holds is the published view or a newer one, and what the
  HANDOFF file holds is no newer than the published view; a published view beyond the first is valid; no
  handoff is for a view newer than the published one; health is kept of members only.
\<close>

definition membershipFileOk :: "(string \<Rightarrow> bool) \<Rightarrow> nat \<Rightarrow> fileRead \<Rightarrow> ClusterView \<Rightarrow> bool" where
  "membershipFileOk U N f cur \<longleftrightarrow>
     (case loadMembership U f N of
        Inl _ \<Rightarrow> False
      | Inr None \<Rightarrow> vEpoch cur = 0
      | Inr (Some v) \<Rightarrow> viewOk U N v \<and> (vEpoch cur < vEpoch v \<or> v = cur))"

definition handoffFileOk :: "(string \<Rightarrow> bool) \<Rightarrow> nat \<Rightarrow> fileRead \<Rightarrow> ClusterView \<Rightarrow> bool" where
  "handoffFileOk U N f cur \<longleftrightarrow>
     (case loadHandoff U f N of Inl _ \<Rightarrow> False | Inr None \<Rightarrow> True | Inr (Some b) \<Rightarrow> vEpoch b \<le> vEpoch cur)"

definition memInv :: "(string \<Rightarrow> bool) \<Rightarrow> ('c, 'p) Node \<Rightarrow> bool" where
  "memInv U n \<longleftrightarrow>
     membershipFileOk U (qN (quorum n)) (membershipDisk n) (membership n) \<and>
     handoffFileOk U (qN (quorum n)) (handoffDisk n) (membership n) \<and>
     (0 < vEpoch (membership n) \<longrightarrow> viewOk U (qN (quorum n)) (membership n)) \<and>
     vEpoch (handoffBase n) \<le> vEpoch (membership n) \<and>
     (\<forall>v \<in> handoffViews (tasks n). viewOk U (qN (quorum n)) v \<and> vEpoch v \<le> vEpoch (membership n)) \<and>
     fmdom (health n) |\<subseteq>| fmdom (vMembers (membership n))"

text \<open>Handlers that publish nothing and start no handoff.\<close>

definition mild :: "('c, 'p) Node \<Rightarrow> ('c, 'p) Node \<Rightarrow> bool" where
  "mild n n' \<longleftrightarrow> quorum n' = quorum n \<and> membership n' = membership n \<and> membershipDisk n' = membershipDisk n \<and>
     handoffBase n' = handoffBase n \<and> handoffDisk n' = handoffDisk n \<and>
     handoffViews (tasks n') \<subseteq> handoffViews (tasks n) \<and>
     fmdom (health n') |\<subseteq>| fmdom (health n) |\<union>| fmdom (vMembers (membership n))"

lemma mild_inv: "mild n n' \<Longrightarrow> memInv U n \<Longrightarrow> memInv U n'"
  unfolding mild_def memInv_def by auto

lemma mild_refl [simp]: "mild n n"
  by (simp add: mild_def)

lemma mild_trans: "mild n n1 \<Longrightarrow> mild n1 n2 \<Longrightarrow> mild n n2"
  unfolding mild_def by auto

lemma core_mild: "core n' = core n \<Longrightarrow> mild n n'"
  by (auto simp: core_def mild_def)

lemma mild_recordHeartbeat: "mild n (recordHeartbeat n p ok)"
  by (auto simp: mild_def recordHeartbeat_def Let_def fmlookup_dom_iff)

lemma mild_recordPeerEpoch: "mild n (recordPeerEpoch n p e)"
  by (auto simp: mild_def recordPeerEpoch_def fmlookup_dom_iff)

lemma mild_goBackground: "handoffViews [t] = {} \<Longrightarrow> mild n (fst (goBackground n t))"
  by (auto simp: mild_def goBackground_def)

lemma mild_adoptFrom: "mild n (adoptFrom n p source)"
  by (auto simp: adoptFrom_def goBackground_def mild_def Let_def)

lemma mild_noteConflict: "mild n (noteConflict n p e fp)"
  by (simp add: mild_def noteConflict_def)

lemma mild_clientFor: "clientFor n v p d = (n', r) \<Longrightarrow> mild n n'"
  by (intro core_mild core_clientFor)

lemmas mild_parts = mild_recordHeartbeat mild_recordPeerEpoch mild_adoptFrom mild_noteConflict

lemma mild_pingPeer: "mild n (pingPeer n v p ctxErr dial reply)"
proof -
  obtain n1 x where c: "clientFor n v p dial = (n1, x)" by fastforce
  have two: "mild m (recordPeerEpoch (recordHeartbeat m q True) q e)" for m :: "('a, 'b) Node" and q e
    by (rule mild_trans [OF mild_recordHeartbeat mild_recordPeerEpoch])
  have "mild n1 (pingPeer n v p ctxErr dial reply)"
    by (cases x) (auto simp: pingPeer_def c Let_def intro: two mild_parts mild_trans [OF two mild_adoptFrom]
        mild_trans [OF two mild_noteConflict] split: option.splits)
  then show ?thesis by (rule mild_trans [OF mild_clientFor [OF c]])
qed

lemma mild_heartbeatRound: "mild n (heartbeatRound n order ctxErr dials replies)"
proof -
  have "mild n (foldl (\<lambda>n i. if i = nID n then n else pingPeer n v i ctxErr (dials i) (replies i)) n order)" for v
    by (induction order rule: rev_induct) (auto intro: mild_trans mild_pingPeer)
  then show ?thesis by (simp add: heartbeatRound_def Let_def)
qed

lemma mild_pingBack: "mild n (pingBack n ping)"
  by (auto simp: mild_def pingBack_def noteAddressMismatch_def goBackground_def Let_def split: option.splits)

lemma mild_HandlePing: "HandlePing n ping = (n', reply) \<Longrightarrow> mild n n'"
proof -
  let ?n0 = "n\<lparr>pingsReceived := pingsReceived n + 1\<rparr>"
  have "mild n ?n0" by (simp add: mild_def)
  moreover assume "HandlePing n ping = (n', reply)"
  then have "mild (pingBack ?n0 ping) n'"
    by (auto simp: HandlePing_def Let_def intro: mild_parts split: if_splits)
  ultimately show ?thesis using mild_pingBack mild_trans by blast
qed

lemma mild_tasks: "set ts \<subseteq> set (tasks n) \<Longrightarrow> mild n (n\<lparr>tasks := ts\<rparr>)"
  by (simp add: mild_def handoffViews_subset)

lemma mild_runPingBack: "mild n (runPingBack n p ctxErr dial reply)"
proof -
  obtain n1 old where r: "retireClient n p = (n1, old)" by fastforce
  have "mild n n1" using r by (auto simp: retireClient_def mild_def split: option.splits)
  moreover define n2 where "n2 = (case old of None \<Rightarrow> n1 | Some client \<Rightarrow> closeRetiredLater n1 client)"
  have "mild n1 n2" by (auto simp: n2_def closeRetiredLater_def intro: mild_goBackground split: option.splits)
  moreover have "mild n2 (runPingBack n p ctxErr dial reply)"
    using mild_pingPeer [of n2 "membership n2" p ctxErr dial reply]
    by (auto simp: runPingBack_def r n2_def mild_def Let_def)
  ultimately show ?thesis using mild_trans by blast
qed

lemma mild_runCloseRetired: "mild n (runCloseRetired n old fired)"
  by (simp add: runCloseRetired_def mild_def)

lemma mild_cancelTask: "mild n (cancelTask dials n t)"
proof (cases t)
  case (AdoptTask p f)
  then show ?thesis by (simp add: cancelTask_def mild_def)
qed (simp_all add: cancelTask_def mild_runPingBack mild_runCloseRetired)

lemma mild_Stop: "mild n (StopBackgroundLoops dials n)"
proof -
  have "mild n0 (foldl (cancelTask dials) n0 ts)" for n0 ts
    by (induction ts rule: rev_induct) (auto intro: mild_trans mild_cancelTask)
  moreover have "mild n (n\<lparr>bgStopped := True, tasks := []\<rparr>)" by (simp add: mild_def)
  ultimately show ?thesis unfolding StopBackgroundLoops_def using mild_trans by blast
qed

lemma mild_Close: "mild n (nodeClose dials n)"
  using mild_Stop [of n dials] by (auto simp: nodeClose_def mild_def Let_def)

section \<open>Every step keeps the invariant\<close>

definition advances :: "('c, 'p) Node \<Rightarrow> ('c, 'p) Node \<Rightarrow> bool" where
  "advances n n' \<longleftrightarrow> vEpoch (membership n) < vEpoch (membership n') \<or> membership n' = membership n"

lemma advances_trans: "advances n n1 \<Longrightarrow> advances n1 n2 \<Longrightarrow> advances n n2"
  by (auto simp: advances_def)

definition safeStep :: "(string \<Rightarrow> bool) \<Rightarrow> ('c, 'p) Node \<Rightarrow> ('c, 'p) Node \<Rightarrow> bool" where
  "safeStep U n n' \<longleftrightarrow> memInv U n' \<and> quorum n' = quorum n \<and> advances n n'"

lemma safe_mild: "mild n n' \<Longrightarrow> memInv U n \<Longrightarrow> safeStep U n n'"
  using mild_inv by (auto simp: safeStep_def advances_def mild_def)

lemma safe_trans: "safeStep U n n1 \<Longrightarrow> safeStep U n1 n2 \<Longrightarrow> safeStep U n n2"
  using advances_trans by (auto simp: safeStep_def)

lemma safe_startHandoff:
  assumes "memInv U n"
  shows "safeStep U n (startHandoff n)"
proof (cases "vEpoch (membership n) \<le> vEpoch (handoffBase n) \<or> handoffRunning n \<and> handoffTarget n = Some (membership n)")
  case True
  then show ?thesis using assms by (auto simp: startHandoff_def Let_def intro: safe_mild)
next
  case False
  then have "0 < vEpoch (membership n)" by (meson not_le order.strict_trans1 word_zero_le)
  then have "viewOk U (qN (quorum n)) (membership n)" using assms by (simp add: memInv_def)
  then show ?thesis using assms False
    by (auto simp: startHandoff_def goBackground_def Let_def safeStep_def memInv_def advances_def)
qed

lemma buildView_viewOk:
  assumes "validateMembers members N = None" "membersUtf8 members" "buildView U e members N = Inr v"
  shows "viewOk U N v \<and> vEpoch v = e \<and> vMembers v = members"
  using assms buildView_valid [OF assms(1), of U e] by (auto simp: viewOk_def)

lemma membershipFile_written: "viewOk U N v \<Longrightarrow> vEpoch cur < vEpoch v \<or> v = cur \<Longrightarrow>
    membershipFileOk U N (Holds (Some (membershipJson v))) cur"
  by (simp add: membershipFileOk_def loadMembership_membershipJson)

lemma handoffFile_newer: "handoffFileOk U N f cur \<Longrightarrow> vEpoch cur \<le> vEpoch v \<Longrightarrow> handoffFileOk U N f v"
  by (auto simp: handoffFileOk_def split: sum.splits option.splits)

lemma safe_setMembership:
  assumes inv: "memInv U n" and utf: "membersUtf8 members" and s: "setMembership U n e members fp io = (n', r)"
  shows "safeStep U n n'"
proof (cases "\<exists>v. validateMembers members (qN (quorum n)) = None \<and> buildView U e members (qN (quorum n)) = Inr v \<and>
    vEpoch (membership n) < e \<and> (fp = [] \<or> vFingerprint v = fp)")
  case False
  then have "n' = n" using s by (auto simp: setMembership_def Let_def split: option.splits sum.splits if_splits)
  then show ?thesis using inv safe_mild [OF mild_refl] by simp
next
  case True
  then obtain v where v: "validateMembers members (qN (quorum n)) = None" "buildView U e members (qN (quorum n)) = Inr v"
    "vEpoch (membership n) < e" "fp = [] \<or> vFingerprint v = fp" by blast
  note ok = buildView_viewOk [OF v(1) utf v(2)]
  have e: "\<not> e < vEpoch (membership n)" "e \<noteq> vEpoch (membership n)" using v(3) by auto
  have cur: "handoffFileOk U (qN (quorum n)) (handoffDisk n) (membership n)" using inv by (simp add: memInv_def)
  obtain d b where w: "writeMembership (membershipDisk n) v io = (d, b)" by fastforce
  have d: "d = membershipDisk n \<or> d = Holds (Some (membershipJson v))" "b \<Longrightarrow> d = Holds (Some (membershipJson v))"
    using w by (auto simp: writeMembership_def WriteFileAtomic_def split: atomicIO.splits)
  show ?thesis
  proof (cases b)
    case False
    then have "n' = n\<lparr>membershipDisk := d\<rparr>" using s v w e by (auto simp: setMembership_def Let_def)
    then show ?thesis using inv ok v(3) d(1) membershipFile_written [of U "qN (quorum n)" v "membership n"]
      by (auto simp: safeStep_def memInv_def advances_def)
  next
    case b: True
    let ?n1 = "n\<lparr>membershipDisk := d, membership := v\<rparr>"
    let ?n3 = "pruneHealth (retireClientsNotIn ?n1 v) v"
    have n': "n' = startHandoff ?n3" using s v w b e by (auto simp: setMembership_def Let_def)
    have old: "\<And>x. x \<in> handoffViews (tasks n) \<Longrightarrow> viewOk U (qN (quorum n)) x \<and> vEpoch x \<le> vEpoch v"
      and base: "vEpoch (handoffBase n) \<le> vEpoch v"
      using inv ok v(3) by (auto simp: memInv_def)
    have "fmdom (fmfilter (\<lambda>i. fmlookup (vMembers v) i \<noteq> None) (health n)) |\<subseteq>| fmdom (vMembers v)"
      by (auto simp: fmlookup_dom_iff)
    then have "memInv U ?n3"
      using ok d(2) [OF b] old base cur handoffFile_newer [OF cur, of v] membershipFile_written [of U "qN (quorum n)" v v] v(3)
      by (auto simp: memInv_def pruneHealth_def retireClientsNotIn_def Let_def)
    then have "safeStep U ?n3 n'" unfolding n' by (rule safe_startHandoff)
    moreover have "quorum ?n3 = quorum n" "membership ?n3 = v" by (simp_all add: pruneHealth_def retireClientsNotIn_def Let_def)
    ultimately show ?thesis using ok v(3) by (auto simp: safeStep_def advances_def)
  qed
qed

lemma safe_finishHandoff:
  assumes inv: "memInv U n" and v: "viewOk U (qN (quorum n)) v" "vEpoch v \<le> vEpoch (membership n)"
  shows "safeStep U n (finishHandoff n gen v io)"
proof -
  have "handoffFileOk U (qN (quorum n)) (fst (writeHandoff (handoffDisk n) v io)) (membership n)"
    using inv v loadHandoff_handoffJson [OF v(1)]
    by (auto simp: writeHandoff_def WriteFileAtomic_def memInv_def handoffFileOk_def split: atomicIO.splits)
  then show ?thesis using inv v
    by (auto simp: finishHandoff_def TriggerAntiEntropy_def safeStep_def memInv_def advances_def)
qed

lemma safe_tasks:
  assumes "memInv U n" "\<forall>v \<in> handoffViews ts. viewOk U (qN (quorum n)) v \<and> vEpoch v \<le> vEpoch (membership n)"
  shows "safeStep U n (n\<lparr>tasks := ts\<rparr>)"
  using assms by (simp add: safeStep_def memInv_def advances_def)

lemma safe_handoffStep:
  assumes inv: "memInv U n" and v: "viewOk U (qN (quorum n)) v" "vEpoch v \<le> vEpoch (membership n)"
    and s: "handoffStep P n gen base v stage io fio = (n1, t)"
  shows "safeStep U n n1 \<and> handoffViews (case t of None \<Rightarrow> [] | Some t' \<Rightarrow> [t']) \<subseteq> {v}"
proof (cases stage)
  case None
  then show ?thesis using s inv safe_mild [OF mild_refl] safe_mild [OF core_mild [OF core_updateHandoff]]
    by (auto simp: handoffStep_def Let_def split: sum.splits if_splits)
next
  case (Some plan)
  show ?thesis
  proof (cases plan)
    case Nil
    then show ?thesis using s Some safe_finishHandoff [OF inv v] by (auto simp: handoffStep_def)
  next
    case (Cons item rest)
    obtain n2 k where k: "handoffKey P n gen v item io = (n2, k)" by fastforce
    have "core n2 = core n" by (rule core_handoffKey [OF k])
    then have "core n1 = core n \<and> handoffViews (case t of None \<Rightarrow> [] | Some t' \<Rightarrow> [t']) \<subseteq> {v}"
      using s Some Cons k by (auto simp: handoffStep_def split: if_splits keyResult.splits)
    then show ?thesis using inv core_mild safe_mild by blast
  qed
qed

lemma safe_nodeStep:
  assumes "nodeStep U P halted n n'" "memInv U n"
  shows "safeStep U n n'"
  using assms
proof cases
  case (StepSet members e io r)
  then show ?thesis using assms(2) safe_setMembership by (auto simp: SetMembership_def)
next
  case (StepAdopt peerID source fetched io)
  let ?n = "n\<lparr>tasks := remove1 (AdoptTask peerID source) (tasks n)\<rparr>"
  have m: "safeStep U n ?n" using assms(2) by (intro safe_mild mild_tasks) (auto dest: set_remove1_subset [THEN subsetD])
  have "safeStep U ?n (case fetched of None \<Rightarrow> ?n | Some info \<Rightarrow> adoptFetched U ?n peerID info io)"
  proof (cases fetched)
    case None
    then show ?thesis using m safe_mild [OF mild_refl, of U ?n] by (simp add: safeStep_def [of U n ?n])
  next
    case (Some info)
    obtain n1 r where s: "setMembership U ?n (miEpoch info) (miMembers info) (miFingerprint info) io = (n1, r)" by fastforce
    have 1: "safeStep U ?n n1" using m StepAdopt(3) Some by (intro safe_setMembership [OF _ _ s]) (auto simp: safeStep_def)
    have "mild n1 (adoptFetched U ?n peerID info io)"
      by (auto simp: adoptFetched_def s intro: mild_noteConflict split: sum.splits setError.splits)
    then have "safeStep U n1 (adoptFetched U ?n peerID info io)" using 1 safe_mild unfolding safeStep_def by blast
    then show ?thesis using Some safe_trans [OF 1] by simp
  qed
  then have "safeStep U ?n n'" unfolding StepAdopt(1) runAdopt_def
    by (auto simp: safeStep_def memInv_def advances_def)
  then show ?thesis using m safe_trans by blast
next
  case (StepPingBack peerID ctxErr dial answer)
  have "mild n (n\<lparr>tasks := remove1 (PingBackTask peerID) (tasks n)\<rparr>)"
    by (intro mild_tasks) (auto dest: set_remove1_subset [THEN subsetD])
  from mild_trans [OF this mild_runPingBack] assms(2) show ?thesis unfolding StepPingBack(1) by (rule safe_mild)
next
  case (StepCloseRetired old fired)
  have "mild n (n\<lparr>tasks := remove1 (CloseRetiredTask old) (tasks n)\<rparr>)"
    by (intro mild_tasks) (auto dest: set_remove1_subset [THEN subsetD])
  from mild_trans [OF this mild_runCloseRetired] assms(2) show ?thesis unfolding StepCloseRetired(1) by (rule safe_mild)
next
  case (StepHandoff gen base newest stage pio fio n1 t)
  let ?n = "n\<lparr>tasks := remove1 (HandoffTask gen base newest stage) (tasks n)\<rparr>"
  have m: "safeStep U n ?n" using assms(2) by (intro safe_mild mild_tasks) (auto dest: set_remove1_subset [THEN subsetD])
  have "newest \<in> handoffViews (tasks n)" using StepHandoff(2) by (auto simp: handoffViews_def)
  then have v: "viewOk U (qN (quorum ?n)) newest" "vEpoch newest \<le> vEpoch (membership ?n)" using assms(2) by (auto simp: memInv_def)
  have "memInv U ?n" using m by (simp add: safeStep_def)
  note h = safe_handoffStep [OF this v StepHandoff(3)]
  have "\<forall>x \<in> handoffViews (tasks n1 @ (case t of None \<Rightarrow> [] | Some t' \<Rightarrow> [t'])). viewOk U (qN (quorum n1)) x \<and> vEpoch x \<le> vEpoch (membership n1)"
    using h v by (auto simp: safeStep_def memInv_def advances_def)
  then have "safeStep U n1 n'" unfolding StepHandoff(1) using h by (intro safe_tasks) (simp_all add: safeStep_def)
  then show ?thesis using m h safe_trans by blast
next
  case StepResume
  then show ?thesis using safe_startHandoff [OF assms(2)] by (simp add: ResumeHandoff_def)
qed (use assms(2) in \<open>auto intro!: safe_mild intro: mild_HandlePing mild_heartbeatRound mild_Stop mild_Close core_mild
      core_requests core_deliverHints core_antiEntropyRound\<close>)

text \<open>Restarts: the published view is found again, or a newer one.\<close>

definition lifeInv ::
  "(string \<Rightarrow> bool) \<Rightarrow> nodeID \<Rightarrow> string \<Rightarrow> nat \<Rightarrow> (nodeID, string) fmap \<Rightarrow> ('c, 'p) Node \<Rightarrow> bool" where
  "lifeInv U i address N neighbors n \<longleftrightarrow> memInv U n \<and> qN (quorum n) = N \<and>
     (vEpoch (membership n) = 0 \<longrightarrow> initialView U i address neighbors N = Inr (membership n))"

lemma initialView_epoch: "initialView U i address neighbors N = Inr v \<Longrightarrow> vEpoch v = 0"
  by (auto simp: initialView_def buildView_def split: sum.splits)

lemma New_parts:
  assumes "New U i address N w r neighbors store hs idFile random io mfile hfile = (idFile', Inr n)"
  shows "\<exists>v0 persisted handedOff. initialView U i address neighbors N = Inr v0 \<and> loadMembership U mfile N = Inr persisted \<and>
    loadHandoff U hfile N = Inr handedOff \<and> qN (quorum n) = N \<and>
    membership n = (case persisted of None \<Rightarrow> v0 | Some p \<Rightarrow> p) \<and> membershipDisk n = mfile \<and>
    handoffBase n = (case handedOff of None \<Rightarrow> v0 | Some b \<Rightarrow> b) \<and> handoffDisk n = hfile \<and> tasks n = [] \<and> health n = fmempty"
  using assms by (auto simp: New_def newNode_def NewQuorumConfig_def Let_def split: sum.splits prod.splits)

lemma New_restart:
  assumes inv: "lifeInv U i address N neighbors n"
    and new: "New U i address N w r neighbors store hs idFile random io (membershipDisk n) (handoffDisk n) = (idFile', Inr n')"
  shows "lifeInv U i address N neighbors n' \<and> advances n n'"
proof -
  from New_parts [OF new] obtain v0 persisted handedOff
    where p: "initialView U i address neighbors N = Inr v0" "loadMembership U (membershipDisk n) N = Inr persisted"
      "loadHandoff U (handoffDisk n) N = Inr handedOff" "qN (quorum n') = N"
      "membership n' = (case persisted of None \<Rightarrow> v0 | Some p \<Rightarrow> p)" "membershipDisk n' = membershipDisk n"
      "handoffBase n' = (case handedOff of None \<Rightarrow> v0 | Some b \<Rightarrow> b)" "handoffDisk n' = handoffDisk n" "tasks n' = []" "health n' = fmempty"
    by blast
  have m: "membershipFileOk U N (membershipDisk n) (membership n)" "handoffFileOk U N (handoffDisk n) (membership n)"
    and i0: "vEpoch (membership n) = 0 \<Longrightarrow> membership n = v0" and N: "qN (quorum n) = N"
    using inv p(1) by (auto simp: lifeInv_def memInv_def)
  have adv: "vEpoch (membership n) < vEpoch (membership n') \<or> membership n' = membership n"
    and ok: "0 < vEpoch (membership n') \<Longrightarrow> viewOk U N (membership n')"
    using m(1) p(2,5) i0 initialView_epoch [OF p(1)] by (auto simp: membershipFileOk_def split: option.splits)
  have f: "membershipFileOk U N (membershipDisk n) (membership n')"
    using m(1) p(2,5) initialView_epoch [OF p(1)] by (auto simp: membershipFileOk_def split: option.splits)
  have le: "vEpoch (membership n) \<le> vEpoch (membership n')" using adv by auto
  have b: "vEpoch (handoffBase n') \<le> vEpoch (membership n')"
    using m(2) p(3,7) initialView_epoch [OF p(1)] le by (auto simp: handoffFileOk_def split: option.splits)
  have z: "membership n' = v0" if "vEpoch (membership n') = 0"
    using that adv i0 le by (metis word_not_simps(1))
  show ?thesis using adv ok f b z handoffFile_newer [OF m(2) le] p by (auto simp: lifeInv_def memInv_def advances_def)
qed

lemma life_step: "lifeInv U i address N neighbors n \<Longrightarrow> nodeStep U P halted n n' \<Longrightarrow> lifeInv U i address N neighbors n' \<and> advances n n'"
  using safe_nodeStep [of U P halted n n'] by (auto simp: lifeInv_def safeStep_def advances_def)

lemma life_inv:
  assumes "nodeLife U P halted i address N neighbors n n'" "lifeInv U i address N neighbors n"
  shows "lifeInv U i address N neighbors n' \<and> advances n n'"
  using assms
proof induction
  case LifeStart
  then show ?case by (simp add: advances_def)
next
  case (LifeStep n1 n2)
  then show ?case using life_step advances_trans by blast
next
  case (LifeRestart n1 w r store hs idFile random io idFile' n2)
  then show ?case using New_restart advances_trans by blast
qed

lemma life_first:
  assumes "New U i address N w r neighbors store hs idFile random io Missing Missing = (idFile', Inr n)"
  shows "lifeInv U i address N neighbors n"
  using New_parts [OF assms] initialView_epoch
  by (fastforce simp: lifeInv_def memInv_def membershipFileOk_def handoffFileOk_def loadMembership_def loadHandoff_def)

lemma life_restarts:
  fixes n :: "('c, 'p) Node"
  assumes inv: "lifeInv U i address N neighbors n" and v0: "initialView U i address neighbors N = Inr v0"
    and io: "LoadOrCreate idf i rnd io = (idf', Inr inc)"
  shows "\<exists>n'. New U i address N w r neighbors (Inr e :: 'x + 'p) (Inr h) idf rnd io (membershipDisk n) (handoffDisk n) =
      (idf', Inr n' :: 'x newError + ('c, 'p) Node) \<and> vEpoch (membership n) \<le> vEpoch (membership n')"
proof -
  have files: "membershipFileOk U N (membershipDisk n) (membership n)" "handoffFileOk U N (handoffDisk n) (membership n)"
    using inv by (auto simp: lifeInv_def memInv_def)
  obtain a b where "loadMembership U (membershipDisk n) N = Inr a" "loadHandoff U (handoffDisk n) N = Inr b"
    using files by (auto simp: membershipFileOk_def handoffFileOk_def split: sum.splits)
  then obtain n' :: "('c, 'p) Node" where n':
    "New U i address N w r neighbors (Inr e :: 'x + 'p) (Inr h) idf rnd io (membershipDisk n) (handoffDisk n) = (idf', Inr n')"
    using v0 io by (auto simp: New_def Let_def)
  have "vEpoch (membership n) \<le> vEpoch (membership n')" using New_restart [OF inv n'] by (auto simp: advances_def)
  then show ?thesis using n' by blast
qed

section \<open>Properties\<close>

text \<open>
  C8: A node's membership never goes back. From its first start on, through any interleaving of its
  handlers, requests, background tasks and failures, and through restarts from its files at any point,
  the epoch it publishes never decreases, and it never publishes two views under one epoch.
\<close>

theorem membership_never_goes_back:
  assumes "New U i address N w r neighbors store hs idFile random io Missing Missing = (idFile', Inr n0)"
    and "nodeLife U P halted i address N neighbors n0 n" "nodeLife U P halted i address N neighbors n n'"
  shows "vEpoch (membership n) \<le> vEpoch (membership n') \<and>
    (vEpoch (membership n') = vEpoch (membership n) \<longrightarrow> membership n' = membership n)"
proof -
  have "lifeInv U i address N neighbors n" using life_inv [OF assms(2) life_first [OF assms(1)]] by blast
  from life_inv [OF assms(3) this] show ?thesis by (auto simp: advances_def)
qed

text \<open>
  C9: The state of a node is well formed all through its life: its MEMBERSHIP file holds the published
  view or a newer one and its HANDOFF file no newer one, no completed or running handoff is ahead of the
  published view, health is kept of members only; and a restart from the files succeeds, whenever the
  engines open and the identity file is the node's, with a view no older than the one published.
\<close>

theorem node_wellformed:
  fixes n :: "('c, 'p) Node"
  assumes "New U i address N w r neighbors store hs idFile random io Missing Missing = (idFile', Inr n0)"
    and "nodeLife U P halted i address N neighbors n0 n" "LoadOrCreate idf i rnd io2 = (idf', Inr inc)"
  shows "memInv U n \<and> (\<exists>n'. New U i address N w2 r2 neighbors (Inr e :: 'x + 'p) (Inr h) idf rnd io2
      (membershipDisk n) (handoffDisk n) = (idf', Inr n' :: 'x newError + ('c, 'p) Node) \<and> vEpoch (membership n) \<le> vEpoch (membership n'))"
proof -
  have inv: "lifeInv U i address N neighbors n" using life_inv [OF assms(2) life_first [OF assms(1)]] by blast
  obtain v0 where v0: "initialView U i address neighbors N = Inr v0" using New_parts [OF assms(1)] by blast
  have "memInv U n" using inv by (simp add: lifeInv_def)
  then show ?thesis using life_restarts [OF inv v0 assms(3)] by blast
qed

lemma isDead_healthOf: "isDead n p \<longleftrightarrow> dead (healthOf n p)"
  by (simp add: isDead_def healthOf_def split: option.splits)

lemma recordHeartbeat_step:
  assumes "fmlookup (vMembers (membership n)) p \<noteq> None"
  shows "membership (recordHeartbeat n p ok) = membership n" "quorum (recordHeartbeat n p ok) = quorum n"
    "misses (healthOf (recordHeartbeat n p ok) p) = (if ok then 0 else misses (healthOf n p) + 1)"
    "dead (healthOf (recordHeartbeat n p ok) p) \<longleftrightarrow>
       \<not> ok \<and> (MaxMissedHeartbeats (quorum n) \<le> misses (healthOf n p) + 1 \<or> dead (healthOf n p))"
  using assms by (auto simp: recordHeartbeat_def Let_def healthOf_def [of "n\<lparr>health := x\<rparr>" for x])

text \<open>
  C10: Failure detection. A member that has no record yet is marked dead exactly while the last
  \<open>MaxMissedHeartbeats\<close> outcomes of its pings, or more, are failures: one success revives it, and a
  failure that does not complete such a run changes nothing.
\<close>

theorem dead_after_missed_heartbeats:
  assumes "fmlookup (vMembers (membership n)) p \<noteq> None" "fmlookup (health n) p = None" "0 < MaxMissedHeartbeats (quorum n)"
  shows "isDead (foldl (\<lambda>n ok. recordHeartbeat n p ok) n outcomes) p \<longleftrightarrow>
    MaxMissedHeartbeats (quorum n) \<le> length (takeWhile Not (rev outcomes))"
proof -
  let ?f = "foldl (\<lambda>n ok. recordHeartbeat n p ok) n" and ?t = "\<lambda>os. length (takeWhile Not (rev os))"
  have "membership (?f os) = membership n \<and> quorum (?f os) = quorum n \<and> misses (healthOf (?f os) p) = ?t os \<and>
      (isDead (?f os) p \<longleftrightarrow> MaxMissedHeartbeats (quorum n) \<le> ?t os)" for os
  proof (induction os rule: rev_induct)
    case Nil
    then show ?case using assms by (simp add: isDead_healthOf healthOf_def)
  next
    case (snoc ok os)
    define m where "m = ?f os"
    have m: "fmlookup (vMembers (membership m)) p \<noteq> None" using snoc assms(1) by (simp add: m_def)
    show ?case using snoc assms(3) recordHeartbeat_step [OF m, of ok]
      by (auto simp: isDead_healthOf simp flip: m_def)
  qed
  then show ?thesis by blast
qed

text \<open>The first start of a node alone, then a membership of two, then a restart.\<close>

definition demoMembers :: "(nodeID, string) fmap" where
  "demoMembers = fmupd ''m'' ''h:2'' (fmupd ''n'' ''h:1'' fmempty)"

lemma demo_life:
  "\<exists>f n0 n1. New (\<lambda>_. False) ''n'' ''h:1'' 1 1 1 fmempty (Inr (persister freshStore) :: storeError + _) (Inr freshHints)
      Missing (replicate 8 CHR ''r'') AllFine Missing Missing = (f, Inr n0 :: storeError newError + (unit, _) Node) \<and>
    LoadOrCreate Missing ''n'' (replicate 8 CHR ''r'') AllFine = (f, Inr (NewIncarnation (replicate 8 CHR ''r''))) \<and>
    nodeLife (\<lambda>_. False) (enginePersister alTree bitFilter) (\<lambda>_. False) ''n'' ''h:1'' 1 fmempty n0 n1 \<and> vEpoch (membership n1) = 1 \<and>
    (\<exists>f2 n2. New (\<lambda>_. False) ''n'' ''h:1'' 1 1 1 fmempty (Inr (persister freshStore) :: storeError + _) (Inr freshHints)
      Missing (replicate 8 CHR ''r'') AllFine (membershipDisk n1) (handoffDisk n1) = (f2, Inr n2 :: storeError newError + (unit, _) Node))"
proof -
  let ?U = "\<lambda>_ :: string. False" and ?P = "enginePersister alTree bitFilter" and ?r = "replicate 8 CHR ''r''"
  let ?solo = "fmupd ''n'' ''h:1'' fmempty"
  have "validateMembers ?solo 1 = None" "validateMembers demoMembers 1 = None"
    by (auto simp: validateMembers_spec demoMembers_def addrOf_def fcard_finsert_disjoint)
  note b = buildView_valid [OF this(1), of ?U 0] buildView_valid [OF this(2), of ?U 1] and valid = this(2)
  obtain v0 where v0: "initialView ?U ''n'' ''h:1'' fmempty 1 = Inr v0" using b(1) by (auto simp: initialView_def)
  obtain v1 where v1: "buildView ?U 1 demoMembers 1 = Inr v1" "vEpoch v1 = 1" using b(2) by auto
  obtain f where io: "LoadOrCreate Missing ''n'' ?r AllFine = (f, Inr (NewIncarnation ?r))"
    by (simp add: LoadOrCreate_def WriteFileAtomic_def Let_def)
  obtain n0 :: "(unit, _) Node" where n0: "New ?U ''n'' ''h:1'' 1 1 1 fmempty (Inr (persister freshStore) :: storeError + _) (Inr freshHints)
      Missing ?r AllFine Missing Missing = (f, Inr n0)"
    using v0 io by (auto simp: New_def loadMembership_def loadHandoff_def Let_def)
  have m0: "vEpoch (membership n0) = 0" "qN (quorum n0) = 1"
    using New_parts [OF n0] initialView_epoch by (auto simp: loadMembership_def)
  obtain n1 r where set: "SetMembership ?U n0 1 demoMembers AllFine = (n1, r)" by fastforce
  then have "membership n1 = v1" using m0 v1 valid
    by (auto simp: SetMembership_def setMembership_def writeMembership_def WriteFileAtomic_def Let_def startHandoff_def goBackground_def
        pruneHealth_def retireClientsNotIn_def)
  then have e1: "vEpoch (membership n1) = 1" using v1 by simp
  have "membersUtf8 demoMembers"
    by (auto simp: membersUtf8_def demoMembers_def addrOf_def validUtf8.simps utf8Len_ascii)
  then have life: "nodeLife ?U ?P (\<lambda>_. False) ''n'' ''h:1'' 1 fmempty n0 n1" using set by (blast intro: LifeStart LifeStep StepSet)
  have inv: "lifeInv ?U ''n'' ''h:1'' 1 fmempty n1" using life_inv [OF life life_first [OF n0]] by blast
  show ?thesis using n0 io life e1 life_restarts [OF inv v0 io] by blast
qed

theorem membership_never_goes_back_witness:
  "\<exists>n0 n1 n2 f f2. New (\<lambda>_. False) ''n'' ''h:1'' 1 1 1 fmempty (Inr (persister freshStore) :: storeError + _) (Inr freshHints)
      Missing (replicate 8 CHR ''r'') AllFine Missing Missing = (f, Inr n0 :: storeError newError + (unit, _) Node) \<and>
    nodeLife (\<lambda>_. False) (enginePersister alTree bitFilter) (\<lambda>_. False) ''n'' ''h:1'' 1 fmempty n0 n1 \<and>
    New (\<lambda>_. False) ''n'' ''h:1'' 1 1 1 fmempty (Inr (persister freshStore) :: storeError + _) (Inr freshHints)
      Missing (replicate 8 CHR ''r'') AllFine (membershipDisk n1) (handoffDisk n1) = (f2, Inr n2 :: storeError newError + (unit, _) Node) \<and>
    1 \<le> vEpoch (membership n2)"
proof -
  from demo_life obtain f n0 n1 f2 n2 where
    n0: "New (\<lambda>_. False) ''n'' ''h:1'' 1 1 1 fmempty (Inr (persister freshStore) :: storeError + _) (Inr freshHints)
      Missing (replicate 8 CHR ''r'') AllFine Missing Missing = (f, Inr n0 :: storeError newError + (unit, _) Node)"
    and life: "nodeLife (\<lambda>_. False) (enginePersister alTree bitFilter) (\<lambda>_. False) ''n'' ''h:1'' 1 fmempty n0 n1" "vEpoch (membership n1) = 1"
    and n2: "New (\<lambda>_. False) ''n'' ''h:1'' 1 1 1 fmempty (Inr (persister freshStore) :: storeError + _) (Inr freshHints)
      Missing (replicate 8 CHR ''r'') AllFine (membershipDisk n1) (handoffDisk n1) = (f2, Inr n2 :: storeError newError + (unit, _) Node)"
    by blast
  have "nodeLife (\<lambda>_. False) (enginePersister alTree bitFilter) (\<lambda>_. False) ''n'' ''h:1'' 1 fmempty n1 n2"
    by (rule LifeRestart [OF LifeStart n2])
  from membership_never_goes_back [OF n0 life(1) this] life(2) have "1 \<le> vEpoch (membership n2)" by simp
  then show ?thesis using n0 life(1) n2 by blast
qed

theorem node_wellformed_witness:
  "\<exists>n0 n1 n2 f. New (\<lambda>_. False) ''n'' ''h:1'' 1 1 1 fmempty (Inr (persister freshStore) :: storeError + _) (Inr freshHints)
      Missing (replicate 8 CHR ''r'') AllFine Missing Missing = (f, Inr n0 :: storeError newError + (unit, _) Node) \<and>
    nodeLife (\<lambda>_. False) (enginePersister alTree bitFilter) (\<lambda>_. False) ''n'' ''h:1'' 1 fmempty n0 n1 \<and> vEpoch (membership n1) = 1 \<and>
    memInv (\<lambda>_. False) n1 \<and>
    New (\<lambda>_. False) ''n'' ''h:1'' 1 1 1 fmempty (Inr (persister freshStore) :: storeError + _) (Inr freshHints)
      Missing (replicate 8 CHR ''r'') AllFine (membershipDisk n1) (handoffDisk n1) = (f, Inr n2 :: storeError newError + (unit, _) Node)"
proof -
  from demo_life obtain f n0 n1 where
    n0: "New (\<lambda>_. False) ''n'' ''h:1'' 1 1 1 fmempty (Inr (persister freshStore) :: storeError + _) (Inr freshHints)
      Missing (replicate 8 CHR ''r'') AllFine Missing Missing = (f, Inr n0 :: storeError newError + (unit, _) Node)"
    and io: "LoadOrCreate Missing ''n'' (replicate 8 CHR ''r'') AllFine = (f, Inr (NewIncarnation (replicate 8 CHR ''r'')))"
    and life: "nodeLife (\<lambda>_. False) (enginePersister alTree bitFilter) (\<lambda>_. False) ''n'' ''h:1'' 1 fmempty n0 n1" "vEpoch (membership n1) = 1"
    by blast
  from node_wellformed [OF n0 life(1) io] n0 life show ?thesis by blast
qed

theorem dead_after_missed_heartbeats_witness:
  "isDead (foldl (\<lambda>n ok. recordHeartbeat n ''m'' ok) (demoNode ''n'' freshStore freshHints) [True, False, False, False]) ''m'' \<and>
   \<not> isDead (foldl (\<lambda>n ok. recordHeartbeat n ''m'' ok) (demoNode ''n'' freshStore freshHints) [False, False, False, True, False]) ''m''"
proof -
  have h: "fmlookup (vMembers (membership (demoNode ''n'' freshStore freshHints))) ''m'' \<noteq> None"
    "fmlookup (health (demoNode ''n'' freshStore freshHints)) ''m'' = None" by (simp_all add: demoView_def)
  have q: "MaxMissedHeartbeats (quorum (demoNode ''n'' freshStore freshHints)) = 3"
    by (simp add: demoNode_def newNode_def NewQuorumConfig_def)
  show ?thesis unfolding dead_after_missed_heartbeats [OF h, unfolded q, simplified] by simp
qed

end
