(* ===== verification/Spec2Isabelle.thy ===== *)
theory Spec2Isabelle
  imports Node_Life
begin

text \<open>
  Verification of a Dynamo-style replicated key-value store written in Go: every key is kept by the N
  nodes of its preference list on a consistent-hash ring, writes wait for W of them and reads for R,
  conflicting versions are kept as siblings under vector clocks, and each node keeps its versions in a
  log-structured storage engine of its own.

  \<^bold>\<open>Parts and theories.\<close> One theory models one part; a definition has the name of the function it
  translates (prefixed where the name is taken: \<open>mtPut\<close>, \<open>sstOpen\<close>, \<open>mfAdd\<close>, \<open>dsGet\<close>, \<open>nodePut\<close>).

  \<^item> \<open>KV_Prelude\<close>: byte strings, big-endian integers, decimal numerals, finite maps, generic lemmas.
    \<open>Json\<close>, \<open>Quote\<close>, \<open>Sha256\<close>: what the code uses of encoding/json, strconv.Quote, encoding/hex and
    crypto/sha256.
  \<^item> \<open>VectorClock\<close> (internal/vectorclock) and \<open>Versioning\<close> (internal/model, internal/versioning): clocks
    of 32-bit counters, their comparison, \<open>Resolve\<close> and \<open>MergeSiblings\<close>.
  \<^item> \<open>HashRing\<close> (internal/hashring): construction of the ring and \<open>GetPreferenceList\<close>.
  \<^item> \<open>Memtable\<close>, \<open>Wal\<close>, \<open>WalLog\<close>, \<open>Manifest\<close>, \<open>Sstable\<close>, \<open>Compaction\<close>, \<open>Engine\<close>, \<open>Engine_Steps\<close>
    (internal/storage/...): the storage engine. File contents are strings of bytes; the outcome of each
    file-system call is an argument. \<open>Engine_Steps\<close> interleaves commits with the parts of background
    flushes and compactions, as an inductive step relation.
  \<^item> \<open>Store\<close> (internal/store): versioned writes over a persister. The locale \<open>persistence\<close> is the contract
    between the store and its persister; it is interpreted on the modelled engine.
    \<open>Hints\<close> (internal/hints): hinted writes over a second engine, by the same contract.
  \<^item> \<open>Merkle\<close> (internal/merkle): the trees of anti-entropy.
  \<^item> \<open>Rpc\<close> (internal/rpc): the handlers of the replication and client services and the conversions of
    their messages.
  \<^item> \<open>View\<close>, \<open>Node\<close> (internal/node, internal/identity, internal/storage/fsutil): membership views with
    their fingerprints and files; the node's state as one record and its handlers of membership changes,
    heartbeats, connections and background tasks.
  \<^item> \<open>Coordinate\<close>, \<open>Writes\<close> (internal/node/coordinate.go): quorum reads and writes, forwarding, rollback
    and hints. \<open>Handoff\<close> (internal/node/handoff.go, hintdelivery.go): moving keys to their new owners
    after a membership change, and delivering hints.

  \<^bold>\<open>State, concurrency and failures.\<close> A struct is a record, a mutex-protected method one function on it.
  What runs outside a lock is split where other operations can come in between. Whatever the environment
  decides is an argument: the outcome of an I/O call or of an RPC, the order in which parallel results
  arrive, when a context ends, what other requests did to a store meanwhile. Background goroutines of a
  node are entries of its list of tasks. Errors are values; where only the kind of an error matters to
  the code, its text is left out.

  \<^bold>\<open>What is shown.\<close> Clocks and versions: comparison decides causal order, merging keeps exactly the
  causally maximal versions, is associative and converges whatever the order of deliveries. Ring: it
  depends on the members only, and a join moves no key between old members. Storage: encodings round-trip,
  a crash loses nothing that was acknowledged and recovers a prefix of what was not, reads return the
  maximal versions written under any interleaving with background work and any failure, a failed log
  halts the engine for good. Node: a quorum read covers every acknowledged write when R + W exceeds N,
  stated over the replicas' stores; a write that misses its quorum is undone; unreachable replicas get
  hints; a forwarded write is taken once; handoff leaves every new owner with the key or a hint for it.

  \<^bold>\<open>Termination and bounds.\<close> Loops are recursive functions with termination proofs; no definition has
  fuel. A retry loop takes the list of the outcomes of its attempts and ends with it, which stands for
  its context ending there. Clock counters are 32-bit words, sequence numbers, epochs and statistics
  64-bit words; Go ints that count elements are naturals.

  \<^bold>\<open>Parameters.\<close> github.com/google/btree (locale \<open>btree\<close>), github.com/bits-and-blooms/bloom (locale
  \<open>bloom\<close>), and the table of printable runes of package unicode. The first two are interpreted on an
  association list and a bit list, which the witnesses use.

  \<^bold>\<open>Not modelled.\<close> gRPC and the generated messages (internal/rpc/pb), listeners and dialling
  (rpc/listen.go), metrics (internal/telemetry), timers and the scheduling of rounds, process start and
  HTTP administration (cmd, internal/app), test support (internal/storetest, internal/benchtest, e2e).
\<close>

end
